(* ===== verification/Utp_Prelude.thy ===== *)
theory Utp_Prelude
  imports Main "HOL-Library.Word"
begin

unbundle bit_operations_syntax

text \<open>
  Shared vocabulary of the development: machine integers at the widths the Rust code
  uses, the two ways a call may fail to return a value (a panic; an error value is a sum),
  the \<open>Poll\<close> type of futures, the socket addresses of the standard library and the
  parts of the slice API that the sources call.  The generic lemmas on words, lists and
  circular sequence numbers that the component theories share are collected here.
\<close>

section \<open>Types\<close>

type_synonym u8 = "8 word"
type_synonym u16 = "16 word"
type_synonym u32 = "32 word"
type_synonym u128 = "128 word"

text \<open>\<open>Bytes\<close>, \<open>BytesMut\<close> and \<open>[u8]\<close>: a sequence of bytes.\<close>

type_synonym bytes = "u8 list"

text \<open>\<open>std::task::Poll\<close>.\<close>

datatype 'a poll = Pending | Ready 'a

text \<open>
  Why a thread panics: a \<open>todo!()\<close>, an \<open>unwrap\<close> of \<open>None\<close> or \<open>Err\<close>, or a library
  call whose documented precondition does not hold.
\<close>

datatype panic = Todo | Unwrap | Precondition

text \<open>The outcome of a call that may panic.\<close>

datatype 'a outcome = Ret 'a | Panic panic

text \<open>
  A call that may also run forever: \<open>None\<close> when it does not return.  \<open>run_bind\<close> is the
  sequencing of statements, where a panic of the first one skips the second.
\<close>

type_synonym 'a run = "'a outcome option"

abbreviation ret :: "'a \<Rightarrow> 'a run" where
  "ret x \<equiv> Some (Ret x)"

abbreviation abort :: "panic \<Rightarrow> 'a run" where
  "abort p \<equiv> Some (Panic p)"

definition run_bind :: "'a run \<Rightarrow> ('a \<Rightarrow> 'b run) \<Rightarrow> 'b run" where
  "run_bind m f =
     Option.bind m (\<lambda>r. case r of Ret x \<Rightarrow> f x | Panic p \<Rightarrow> abort p)"

text \<open>\<open>std::net::SocketAddr\<close>: an IPv4 or IPv6 address with a port.\<close>

datatype socket_addr =
    SocketAddrV4 u32 u16
  | SocketAddrV6 u128 u16 u32 u32

text \<open>\<open>slice::chunks\<close> of the standard library, for a chunk size that is not zero.\<close>

function chunks :: "nat \<Rightarrow> 'a list \<Rightarrow> 'a list list" where
  "chunks n xs = (if xs = [] \<or> n = 0 then [] else take n xs # chunks n (drop n xs))"
  by pat_completeness auto
termination
  by (relation "measure (\<lambda>(n, xs). length xs)") auto

declare chunks.simps [simp del]

text \<open>Consecutive 16-bit numbers \<open>s, s + 1, ..., s + n - 1\<close>, wrapping at \<open>2 ^ 16\<close>.\<close>

fun seq_from :: "u16 \<Rightarrow> nat \<Rightarrow> u16 list" where
  "seq_from s 0 = []"
| "seq_from s (Suc n) = s # seq_from (s + 1) n"

section \<open>Collections of facts\<close>

text \<open>
  \<open>sim_eval\<close>: the equations that evaluate the instance of the runtime.
  \<open>example_eval\<close>: the definitions of the concrete inputs on which the witnesses run.
\<close>

named_theorems sim_eval
named_theorems example_eval

section \<open>Lemmas\<close>

subsection \<open>Sequencing\<close>

lemma run_bind_simps [simp]:
  "run_bind (ret x) f = f x"
  "run_bind (abort p) f = abort p"
  "run_bind None f = None"
  by (simp_all add: run_bind_def)

lemma run_bind_ret_iff:
  "run_bind m f = ret y \<longleftrightarrow> (\<exists>x. m = ret x \<and> f x = ret y)"
proof (cases m)
  case None
  then show ?thesis by simp
next
  case (Some r)
  then show ?thesis by (cases r) auto
qed

lemma run_sum_cases [case_names diverges panics fails returns]:
  obtains "m = None" | p where "m = abort p" | e where "m = ret (Inl e)" | x where "m = ret (Inr x)"
proof (cases m)
  case (Some r)
  then show ?thesis
  proof (cases r)
    case (Ret y)
    with Some that show ?thesis by (cases y) auto
  qed (use Some that in auto)
qed (use that in auto)

lemma run_bind_mono [partial_function_mono]:
  assumes "mono_option m" and "\<And>x. mono_option (\<lambda>h. f x h)"
  shows "mono_option (\<lambda>h. run_bind (m h) (\<lambda>x. f x h))"
  unfolding run_bind_def
proof (rule bind_mono [OF assms(1)])
  fix r
  show "mono_option (\<lambda>h. case r of Ret x \<Rightarrow> f x h | Panic p \<Rightarrow> abort p)"
    using assms(2) by (cases r) (simp_all add: option.const_mono)
qed

subsection \<open>Functions and lists\<close>

lemma fun_upd_const [simp]: "(\<lambda>_. a)(x := a) = (\<lambda>_. a)"
  by auto

lemma chunks_Nil [simp]: "chunks n [] = []"
  by (simp add: chunks.simps)

lemma chunks_step: "xs \<noteq> [] \<Longrightarrow> n \<noteq> 0 \<Longrightarrow> chunks n xs = take n xs # chunks n (drop n xs)"
  by (simp add: chunks.simps [of n xs])

lemma concat_chunks: "n \<noteq> 0 \<Longrightarrow> concat (chunks n xs) = xs"
proof (induction n xs rule: chunks.induct)
  case (1 n xs)
  then show ?case
    by (cases "xs = []") (simp_all add: chunks_step)
qed

lemma chunks_bounds: "c \<in> set (chunks n xs) \<Longrightarrow> c \<noteq> [] \<and> length c \<le> n"
proof (induction n xs rule: chunks.induct)
  case (1 n xs)
  show ?case
  proof (cases "xs = [] \<or> n = 0")
    case True
    with "1.prems" show ?thesis by (auto simp: chunks.simps [of n xs])
  next
    case False
    with "1.prems" have "c = take n xs \<or> c \<in> set (chunks n (drop n xs))"
      by (simp add: chunks_step)
    with False "1.IH" show ?thesis by auto
  qed
qed

lemma length_chunks: "n \<noteq> 0 \<Longrightarrow> length xs \<le> m * n \<Longrightarrow> length (chunks n xs) \<le> m"
proof (induction m arbitrary: xs)
  case (Suc m)
  then show ?case
    by (cases "xs = []") (simp_all add: chunks_step)
qed simp

subsection \<open>Consecutive sequence numbers\<close>

lemma length_seq_from [simp]: "length (seq_from s n) = n"
  by (induction n arbitrary: s) auto

lemma seq_from_append: "seq_from s (m + n) = seq_from s m @ seq_from (s + of_nat m) n"
  by (induction m arbitrary: s) (simp_all add: algebra_simps)

lemma nth_seq_from: "i < n \<Longrightarrow> seq_from s n ! i = s + of_nat i"
proof (induction n arbitrary: s i)
  case 0
  then show ?case by simp
next
  case (Suc n)
  then show ?case by (cases i) (simp_all add: algebra_simps)
qed

lemma drop_seq_from: "drop k (seq_from s n) = seq_from (s + of_nat k) (n - k)"
proof (induction k arbitrary: s n)
  case 0
  then show ?case by simp
next
  case (Suc k)
  then show ?case by (cases n) (simp_all add: algebra_simps)
qed

lemma unat_of_nat_u16 [simp]: "n < 2 ^ 16 \<Longrightarrow> unat (of_nat n :: u16) = n"
  by (simp add: unat_of_nat)

lemma of_nat_u16_eq_iff:
  "i < 2 ^ 16 \<Longrightarrow> j < 2 ^ 16 \<Longrightarrow> (of_nat i :: u16) = of_nat j \<longleftrightarrow> i = j"
  by (metis unat_of_nat_u16)

lemma unat_of_nat_u8 [simp]: "n < 256 \<Longrightarrow> unat (of_nat n :: u8) = n"
  by (simp add: unat_of_nat)

lemma unat_u8_less [simp]: "unat (a :: u8) < 256"
  using unsigned_less [of a, where 'a = nat] by simp

lemma not_bit_beyond_u8 [simp]: "8 \<le> n \<Longrightarrow> \<not> bit (a :: u8) n"
  using bit_imp_le_length [of a n] by auto

section \<open>Invariants of step relations\<close>

locale invariant =
  fixes step :: "'s \<Rightarrow> 's \<Rightarrow> bool" and inv :: "'s \<Rightarrow> bool"
  assumes step_inv: "step x y \<Longrightarrow> inv x \<Longrightarrow> inv y"
begin

lemma reachable_inv: "step\<^sup>*\<^sup>* x y \<Longrightarrow> inv x \<Longrightarrow> inv y"
  by (induction rule: rtranclp_induct) (auto intro: step_inv)

end

section \<open>Labelled runs and simulations\<close>

text \<open>A run of a labelled step relation, with the labels of its steps.\<close>

inductive runs :: "('s \<Rightarrow> 'e \<Rightarrow> 's \<Rightarrow> bool) \<Rightarrow> 's \<Rightarrow> 'e list \<Rightarrow> 's \<Rightarrow> bool"
  for step :: "'s \<Rightarrow> 'e \<Rightarrow> 's \<Rightarrow> bool"
where
  runs_Nil: "runs step x [] x"
| runs_snoc: "runs step x es y \<Longrightarrow> step y e z \<Longrightarrow> runs step x (es @ [e]) z"

text \<open>
  A forward simulation with the same labels: under the invariant \<open>inv\<close>, and as long as the
  bound \<open>ok\<close> holds, a concrete step is an abstract step between the images of the states.
\<close>

locale simulation =
  fixes cstep :: "'c \<Rightarrow> 'e \<Rightarrow> 'c \<Rightarrow> bool" and astep :: "'a \<Rightarrow> 'e \<Rightarrow> 'a \<Rightarrow> bool"
    and image_of :: "'c \<Rightarrow> 'a" and inv :: "'c \<Rightarrow> bool" and ok :: "'c \<Rightarrow> bool"
  assumes step_sim: "cstep x e y \<Longrightarrow> inv x \<Longrightarrow> ok y \<Longrightarrow> astep (image_of x) e (image_of y)"
    and step_keeps: "cstep x e y \<Longrightarrow> inv x \<Longrightarrow> ok y \<Longrightarrow> inv y"
    and ok_before: "cstep x e y \<Longrightarrow> ok y \<Longrightarrow> ok x"
begin

lemma run_keeps: "runs cstep x es y \<Longrightarrow> inv x \<Longrightarrow> ok y \<Longrightarrow> inv y"
  by (induction rule: runs.induct) (auto intro: step_keeps ok_before)

lemma run_sim: "runs cstep x es y \<Longrightarrow> inv x \<Longrightarrow> ok y \<Longrightarrow> runs astep (image_of x) es (image_of y)"
  by (induction rule: runs.induct) (auto intro: runs.intros step_sim run_keeps ok_before)

end

end
