(* ===== verification/Utp_Error.thy ===== *)
theory Utp_Error
  imports Utp_Prelude
begin

text \<open>
  The error values of \<open>src/src/error.rs\<close>, and \<open>std::io::Error\<close> as the sources build it:
  an error kind with a \<open>ConnectionError\<close> inside, the \<open>SendError\<close> of a closed channel, or
  an error code that the operating system reports.
\<close>

datatype connection_error =
    NoAddress
  | TooMany
  | AlreadyExists u16 socket_addr

datatype packet_parse_error =
    TooSmall
  | UnsupportedVersion u8
  | InvalidPacketType u8
  | MissingExtension nat
  | IncompleteExtension nat nat nat

datatype io_error_kind = KindOther | KindAlreadyExists

datatype io_error =
    IoConnection io_error_kind connection_error
  | IoSend io_error_kind
  | IoOs nat

end
