(* ===== verification/Bytes_Interface.thy ===== *)
theory Bytes_Interface
  imports Utp_Prelude
begin

unbundle bit_operations_syntax

text \<open>
  The interface to the \<open>bytes\<close> crate.  The sources read integers off the front of a
  \<open>Bytes\<close> with the \<open>Buf\<close> trait and append them to a \<open>BytesMut\<close> with \<open>BufMut\<close>.  The crate
  is not part of the repository, so its operations are the fields of a record that every
  definition of the codec takes as an argument, and its documented behaviour is the
  locale \<open>bytes_crate\<close>: integers travel in big-endian order, a read that would pass the
  end of the buffer panics, \<open>split_to\<close> cuts a prefix off, \<open>split_all\<close> (the crate's
  \<open>BytesMut::split\<close>) takes everything.
\<close>

section \<open>The operations\<close>

record buf_api =
  get_u8 :: "bytes \<Rightarrow> (u8 \<times> bytes) outcome"
  get_u16 :: "bytes \<Rightarrow> (u16 \<times> bytes) outcome"
  get_u32 :: "bytes \<Rightarrow> (u32 \<times> bytes) outcome"
  split_to :: "bytes \<Rightarrow> nat \<Rightarrow> (bytes \<times> bytes) outcome"
  put_u8 :: "bytes \<Rightarrow> u8 \<Rightarrow> bytes"
  put_u16 :: "bytes \<Rightarrow> u16 \<Rightarrow> bytes"
  put_u32 :: "bytes \<Rightarrow> u32 \<Rightarrow> bytes"
  put_slice :: "bytes \<Rightarrow> bytes \<Rightarrow> bytes"
  extend_from_slice :: "bytes \<Rightarrow> bytes \<Rightarrow> bytes"
  split_all :: "bytes \<Rightarrow> bytes \<times> bytes"

section \<open>Big-endian integers\<close>

definition be16 :: "u16 \<Rightarrow> bytes" where
  "be16 w = [ucast (drop_bit 8 w), ucast w]"

definition be32 :: "u32 \<Rightarrow> bytes" where
  "be32 w = [ucast (drop_bit 24 w), ucast (drop_bit 16 w), ucast (drop_bit 8 w), ucast w]"

definition of_be16 :: "u8 \<Rightarrow> u8 \<Rightarrow> u16" where
  "of_be16 a b = push_bit 8 (ucast a) OR ucast b"

definition of_be32 :: "u8 \<Rightarrow> u8 \<Rightarrow> u8 \<Rightarrow> u8 \<Rightarrow> u32" where
  "of_be32 a b c d =
     push_bit 24 (ucast a) OR push_bit 16 (ucast b) OR push_bit 8 (ucast c) OR ucast d"

text \<open>An instance on byte lists.\<close>

fun list_get_u8 :: "bytes \<Rightarrow> (u8 \<times> bytes) outcome" where
  "list_get_u8 (a # r) = Ret (a, r)"
| "list_get_u8 _ = Panic Precondition"

fun list_get_u16 :: "bytes \<Rightarrow> (u16 \<times> bytes) outcome" where
  "list_get_u16 (a # b # r) = Ret (of_be16 a b, r)"
| "list_get_u16 _ = Panic Precondition"

fun list_get_u32 :: "bytes \<Rightarrow> (u32 \<times> bytes) outcome" where
  "list_get_u32 (a # b # c # d # r) = Ret (of_be32 a b c d, r)"
| "list_get_u32 _ = Panic Precondition"

definition list_split_to :: "bytes \<Rightarrow> nat \<Rightarrow> (bytes \<times> bytes) outcome" where
  "list_split_to bs n =
     (if n \<le> length bs then Ret (take n bs, drop n bs) else Panic Precondition)"

definition list_buf :: buf_api where
  "list_buf = \<lparr>get_u8 = list_get_u8, get_u16 = list_get_u16, get_u32 = list_get_u32,
     split_to = list_split_to, put_u8 = (\<lambda>bs w. bs @ [w]), put_u16 = (\<lambda>bs w. bs @ be16 w),
     put_u32 = (\<lambda>bs w. bs @ be32 w), put_slice = (\<lambda>bs xs. bs @ xs),
     extend_from_slice = (\<lambda>bs xs. bs @ xs), split_all = (\<lambda>bs. (bs, []))\<rparr>"

section \<open>The documented behaviour\<close>

locale bytes_crate =
  fixes B :: buf_api
  assumes get_u8: "get_u8 B (a # r) = Ret (a, r)"
    and get_u16: "get_u16 B (a # b # r) = Ret (of_be16 a b, r)"
    and get_u32: "get_u32 B (a # b # c # d # r) = Ret (of_be32 a b c d, r)"
    and get_u8_short: "get_u8 B [] = Panic Precondition"
    and get_u16_short: "length bs < 2 \<Longrightarrow> get_u16 B bs = Panic Precondition"
    and get_u32_short: "length bs < 4 \<Longrightarrow> get_u32 B bs = Panic Precondition"
    and split_to: "n \<le> length bs \<Longrightarrow> split_to B bs n = Ret (take n bs, drop n bs)"
    and split_to_short: "length bs < n \<Longrightarrow> split_to B bs n = Panic Precondition"
    and put_u8: "put_u8 B bs v8 = bs @ [v8]"
    and put_u16: "put_u16 B bs v16 = bs @ be16 v16"
    and put_u32: "put_u32 B bs v32 = bs @ be32 v32"
    and put_slice: "put_slice B bs xs = bs @ xs"
    and extend_from_slice: "extend_from_slice B bs xs = bs @ xs"
    and split_all: "split_all B bs = (bs, [])"

section \<open>Big-endian round trips\<close>

lemma length_be [simp]: "length (be16 w) = 2" "length (be32 v) = 4"
  by (simp_all add: be16_def be32_def)

lemma of_be16_be16 [simp]: "of_be16 (ucast (drop_bit 8 w)) (ucast w) = w"
  by (rule bit_word_eqI)
    (auto simp: of_be16_def bit_simps dest: bit_imp_le_length)

lemma be16_of_be16 [simp]: "be16 (of_be16 a b) = [a, b]"
  unfolding be16_def of_be16_def
  by (auto intro!: bit_word_eqI simp: bit_simps dest: bit_imp_le_length)

lemma of_be32_be32 [simp]:
  "of_be32 (ucast (drop_bit 24 w)) (ucast (drop_bit 16 w)) (ucast (drop_bit 8 w)) (ucast w) = w"
proof (rule bit_word_eqI)
  fix n
  assume "n < LENGTH(32)"
  then consider "n < 8" | "8 \<le> n" "n < 16" | "16 \<le> n" "n < 24" | "24 \<le> n" "n < 32"
    by fastforce
  then show "bit (of_be32 (ucast (drop_bit 24 w)) (ucast (drop_bit 16 w))
      (ucast (drop_bit 8 w)) (ucast w)) n \<longleftrightarrow> bit w n"
    by cases (auto simp: of_be32_def bit_simps)
qed

lemma be32_of_be32 [simp]: "be32 (of_be32 a b c d) = [a, b, c, d]"
  unfolding be32_def of_be32_def
  by (auto intro!: bit_word_eqI simp: bit_simps dest: bit_imp_le_length)

context bytes_crate
begin

lemma get_be16: "get_u16 B (be16 w @ r) = Ret (w, r)"
  by (simp add: be16_def get_u16)

lemma get_be32: "get_u32 B (be32 w @ r) = Ret (w, r)"
  by (simp add: be32_def get_u32)

lemmas buf_laws = get_u8 get_u16 get_u32 split_to put_u8 put_u16 put_u32 put_slice
  extend_from_slice split_all

end

interpretation lbuf: bytes_crate list_buf
proof
  fix bs :: bytes
  assume "length bs < 2"
  then show "get_u16 list_buf bs = Panic Precondition"
    by (cases bs rule: list_get_u16.cases) (simp_all add: list_buf_def)
next
  fix bs :: bytes
  assume "length bs < 4"
  then show "get_u32 list_buf bs = Panic Precondition"
    by (cases bs rule: list_get_u32.cases) (simp_all add: list_buf_def)
qed (simp_all add: list_buf_def list_split_to_def)

end
