(* ===== verification/Utp_Packet.thy ===== *)
theory Utp_Packet
  imports Utp_Error Bytes_Interface
begin

unbundle bit_operations_syntax

text \<open>
  The packet format of \<open>src/src/packet.rs\<close>: the packet and extension types, the encoder
  \<open>From<Packet> for Bytes\<close> and the decoder \<open>TryFrom<Bytes> for Packet\<close>.  Both take the
  operations of the \<open>bytes\<close> crate as their first argument.  The lemmas show that decoding
  inverts encoding on well-formed packets and conversely, that the decoder returns on every
  input without a panic, and which error it returns when.
\<close>

section \<open>Data\<close>

definition PACKET_HEADER_LEN :: nat where
  "PACKET_HEADER_LEN = 20"

datatype packet_type = Data | Fin | State | Reset | Syn

definition packet_type_as_u8 :: "packet_type \<Rightarrow> u8" where
  "packet_type_as_u8 t =
     (case t of Data \<Rightarrow> 0 | Fin \<Rightarrow> 1 | State \<Rightarrow> 2 | Reset \<Rightarrow> 3 | Syn \<Rightarrow> 4)"

definition packet_type_try_from :: "u8 \<Rightarrow> packet_parse_error + packet_type" where
  "packet_type_try_from value =
     (if value = 0 then Inr Data
      else if value = 1 then Inr Fin
      else if value = 2 then Inr State
      else if value = 3 then Inr Reset
      else if value = 4 then Inr Syn
      else Inl (InvalidPacketType value))"

datatype extension_type = ExtNone | SelectiveAck | Bitfield | CloseReason | Unknown u8

definition extension_type_from_u8 :: "u8 \<Rightarrow> extension_type" where
  "extension_type_from_u8 num =
     (if num = 0 then ExtNone
      else if num = 1 then SelectiveAck
      else if num = 2 then Bitfield
      else if num = 3 then CloseReason
      else Unknown num)"

fun u8_from_extension_type :: "extension_type \<Rightarrow> u8" where
  "u8_from_extension_type ExtNone = 0"
| "u8_from_extension_type SelectiveAck = 1"
| "u8_from_extension_type Bitfield = 2"
| "u8_from_extension_type CloseReason = 3"
| "u8_from_extension_type (Unknown n) = n"

record extension =
  extension_type :: extension_type
  ext_data :: bytes

definition extension_new :: "extension_type \<Rightarrow> bytes \<Rightarrow> extension" where
  "extension_new t d = \<lparr>extension_type = t, ext_data = d\<rparr>"

record packet =
  packet_type :: packet_type
  version :: u8
  connection_id :: u16
  timestamp_micros :: u32
  timestamp_delta_micros :: u32
  window_size :: u32
  seq_number :: u16
  ack_number :: u16
  extensions :: "extension list"
  data :: bytes

definition packet_new ::
  "packet_type \<Rightarrow> u8 \<Rightarrow> u16 \<Rightarrow> u32 \<Rightarrow> u32 \<Rightarrow> u32 \<Rightarrow> u16 \<Rightarrow> u16 \<Rightarrow> extension list \<Rightarrow> bytes \<Rightarrow> packet"
where
  "packet_new t v c ts tsd w s a es d =
     \<lparr>packet_type = t, version = v, connection_id = c, timestamp_micros = ts,
      timestamp_delta_micros = tsd, window_size = w, seq_number = s, ack_number = a,
      extensions = es, data = d\<rparr>"

section \<open>Encoder\<close>

text \<open>The capacity the encoder reserves.\<close>

definition packet_length :: "packet \<Rightarrow> nat" where
  "packet_length p =
     foldl (\<lambda>n e. n + (1 + 1 + length (ext_data e)))
       (PACKET_HEADER_LEN + length (data p)) (extensions p)"

text \<open>
  The loop over the extension list.  Each round writes the type byte of the following
  extension, or 0 at the end of the list.
\<close>

fun put_extensions :: "buf_api \<Rightarrow> bytes \<Rightarrow> extension list \<Rightarrow> bytes" where
  "put_extensions B result [] = result"
| "put_extensions B result (e # es) =
     (let result = put_u8 B result
            (case es of [] \<Rightarrow> 0 | e' # _ \<Rightarrow> u8_from_extension_type (extension_type e'));
          result = put_u8 B result (of_nat (length (ext_data e)));
          result = put_slice B result (ext_data e)
      in put_extensions B result es)"

definition bytes_from_packet :: "buf_api \<Rightarrow> packet \<Rightarrow> bytes" where
  "bytes_from_packet B p =
     (let result = [];
          result = put_u8 B result
            (push_bit 4 (packet_type_as_u8 (packet_type p)) OR version p);
          result = (case extensions p of
              [] \<Rightarrow> put_u8 B result (u8_from_extension_type ExtNone)
            | e # _ \<Rightarrow> put_u8 B result (u8_from_extension_type (extension_type e)));
          result = put_u16 B result (connection_id p);
          result = put_u32 B result (timestamp_micros p);
          result = put_u32 B result (timestamp_delta_micros p);
          result = put_u32 B result (window_size p);
          result = put_u16 B result (seq_number p);
          result = put_u16 B result (ack_number p);
          result = put_extensions B result (extensions p)
      in put_slice B result (data p))"

section \<open>Decoder\<close>

text \<open>The loop over the linked list of extensions.\<close>

partial_function (option) parse_extensions ::
  "buf_api \<Rightarrow> nat \<Rightarrow> u8 \<Rightarrow> u8 \<Rightarrow> extension list \<Rightarrow> bytes \<Rightarrow>
     (packet_parse_error + extension list \<times> bytes) run"
where
  "parse_extensions B extension_number ext_type next_ext_type exts bs =
     (let other_type = extension_type_from_u8 ext_type in
      if other_type = ExtNone then ret (Inr (exts, bs))
      else
          if bs = [] then ret (Inl (MissingExtension extension_number))
          else run_bind (Some (get_u8 B bs)) (\<lambda>(len, bs).
            if length bs < unat len
            then ret (Inl (IncompleteExtension extension_number (unat len) (length bs)))
            else run_bind (Some (split_to B bs (unat len))) (\<lambda>(extension_data, bs).
              let exts = exts @ [extension_new other_type extension_data] in
              if next_ext_type \<noteq> 0 \<and> bs \<noteq> []
              then run_bind (Some (get_u8 B bs)) (\<lambda>(next', bs).
                parse_extensions B (extension_number + 1) next_ext_type next' exts bs)
              else parse_extensions B (extension_number + 1) next_ext_type next_ext_type exts bs)))"

text \<open>
  The part after the fixed header: the type byte that belongs to the second extension is
  read ahead of the first one.
\<close>

definition parse_extension_list ::
  "buf_api \<Rightarrow> u8 \<Rightarrow> bytes \<Rightarrow> (packet_parse_error + extension list \<times> bytes) run"
where
  "parse_extension_list B first_ext_type bs =
     (if first_ext_type \<noteq> 0 then
        if bs \<noteq> [] then
          run_bind (Some (get_u8 B bs)) (\<lambda>(next_ext_type, bs).
            parse_extensions B 0 first_ext_type next_ext_type [] bs)
        else ret (Inl (MissingExtension 0))
      else parse_extensions B 0 first_ext_type 0 [] bs)"

definition packet_try_from :: "buf_api \<Rightarrow> bytes \<Rightarrow> (packet_parse_error + packet) run" where
  "packet_try_from B bs =
     (if length bs < PACKET_HEADER_LEN then ret (Inl TooSmall)
      else run_bind (Some (get_u8 B bs)) (\<lambda>(type_and_version, bs).
        case packet_type_try_from (drop_bit 4 type_and_version) of
          Inl e \<Rightarrow> ret (Inl e)
        | Inr ptype \<Rightarrow>
            let v = type_and_version AND 0x0F in
            if v \<noteq> 1 then ret (Inl (UnsupportedVersion v))
            else run_bind (Some (get_u8 B bs)) (\<lambda>(first_ext_type, bs).
              run_bind (Some (get_u16 B bs)) (\<lambda>(conn_id, bs).
              run_bind (Some (get_u32 B bs)) (\<lambda>(ts, bs).
              run_bind (Some (get_u32 B bs)) (\<lambda>(ts_delta, bs).
              run_bind (Some (get_u32 B bs)) (\<lambda>(wnd, bs).
              run_bind (Some (get_u16 B bs)) (\<lambda>(seq, bs).
              run_bind (Some (get_u16 B bs)) (\<lambda>(ack, bs).
              run_bind (parse_extension_list B first_ext_type bs) (\<lambda>r.
                case r of
                  Inl e \<Rightarrow> ret (Inl e)
                | Inr (exts, bs) \<Rightarrow>
                    ret (Inr (packet_new ptype 1 conn_id ts ts_delta wnd seq ack exts bs))))))))))))"

section \<open>Well-formed packets\<close>

text \<open>
  What the format can carry: protocol version 1, and extensions whose type byte is not the
  end marker 0, is written in its canonical form (\<open>Unknown n\<close> only for a byte without a
  name of its own) and whose length fits the length byte.
\<close>

definition wf_extension :: "extension \<Rightarrow> bool" where
  "wf_extension e \<longleftrightarrow>
     extension_type_from_u8 (u8_from_extension_type (extension_type e)) = extension_type e \<and>
     extension_type e \<noteq> ExtNone \<and> length (ext_data e) < 256"

definition wf_packet :: "packet \<Rightarrow> bool" where
  "wf_packet p \<longleftrightarrow> version p = 1 \<and> list_all wf_extension (extensions p)"

text \<open>The bytes of an extension list, as a function on lists.\<close>

definition first_type :: "extension list \<Rightarrow> u8" where
  "first_type es = (case es of [] \<Rightarrow> 0 | e # _ \<Rightarrow> u8_from_extension_type (extension_type e))"

fun wire_extensions :: "extension list \<Rightarrow> bytes" where
  "wire_extensions [] = []"
| "wire_extensions (e # es) =
     first_type es # of_nat (length (ext_data e)) # ext_data e @ wire_extensions es"

definition wire_header :: "packet \<Rightarrow> bytes" where
  "wire_header p =
     [push_bit 4 (packet_type_as_u8 (packet_type p)) OR version p, first_type (extensions p)] @
     be16 (connection_id p) @ be32 (timestamp_micros p) @ be32 (timestamp_delta_micros p) @
     be32 (window_size p) @ be16 (seq_number p) @ be16 (ack_number p)"

text \<open>The errors that the fixed header alone decides, in the order of the checks.\<close>

definition header_error :: "bytes \<Rightarrow> packet_parse_error option" where
  "header_error bs =
     (if length bs < PACKET_HEADER_LEN then Some TooSmall
      else if 4 < drop_bit 4 (bs ! 0) then Some (InvalidPacketType (drop_bit 4 (bs ! 0)))
      else if bs ! 0 AND 0x0F \<noteq> 1 then Some (UnsupportedVersion (bs ! 0 AND 0x0F))
      else None)"

text \<open>A packet with two extensions and a payload, for the examples below.\<close>

definition example_packet :: packet where
  "example_packet = packet_new State 1 12345 246810 40 4096 65535 7
     [extension_new SelectiveAck [0, 1, 0, 1], extension_new (Unknown 255) []] [1, 2, 3]"

section \<open>Type bytes\<close>

lemma packet_type_roundtrip [simp]:
  "packet_type_try_from (packet_type_as_u8 t) = Inr t"
  by (cases t) (simp_all add: packet_type_as_u8_def packet_type_try_from_def)

lemma packet_type_try_from_Inr:
  "packet_type_try_from v = Inr t \<longleftrightarrow> v = packet_type_as_u8 t"
  by (cases t) (auto simp: packet_type_as_u8_def packet_type_try_from_def)

lemma packet_type_try_from_Inl:
  "packet_type_try_from v = Inl e \<longleftrightarrow> 4 < v \<and> e = InvalidPacketType v"
proof -
  have "v \<le> 4 \<longleftrightarrow> v = 0 \<or> v = 1 \<or> v = 2 \<or> v = 3 \<or> v = 4"
    by unat_arith
  then show ?thesis
    by (auto simp: packet_type_try_from_def not_le [symmetric])
qed

lemma type_and_version_split:
  "drop_bit 4 (push_bit 4 (packet_type_as_u8 t) OR 1) = packet_type_as_u8 t"
  "(push_bit 4 (packet_type_as_u8 t) OR 1) AND 0x0F = (1 :: u8)"
  by (cases t; simp add: packet_type_as_u8_def)+

lemma type_and_version_join:
  assumes "(b :: u8) AND 0x0F = 1"
  shows "push_bit 4 (drop_bit 4 b) OR 1 = b"
proof -
  have "b = push_bit 4 (drop_bit 4 b) OR (b AND mask 4)"
    by (auto intro!: bit_word_eqI simp: bit_simps not_less)
  moreover have "(0x0F :: u8) = mask 4"
    by (simp add: mask_eq_exp_minus_1)
  ultimately have "b = push_bit 4 (drop_bit 4 b) OR (b AND 0x0F)"
    by simp
  with assms show ?thesis by simp
qed

lemma extension_type_byte_roundtrip [simp]:
  "u8_from_extension_type (extension_type_from_u8 b) = b"
  by (simp add: extension_type_from_u8_def)

lemma extension_type_from_u8_None [simp]:
  "extension_type_from_u8 b = ExtNone \<longleftrightarrow> b = 0"
  by (simp add: extension_type_from_u8_def)

lemma wf_extension_simps:
  assumes "wf_extension e"
  shows "extension_type_from_u8 (u8_from_extension_type (extension_type e)) = extension_type e"
    and "u8_from_extension_type (extension_type e) \<noteq> 0"
    and "length (ext_data e) < 256"
    and "extension_new (extension_type e) (ext_data e) = e"
  using assms by (auto simp: wf_extension_def extension_new_def extension_type_from_u8_def)

section \<open>Encoding\<close>

text \<open>Under the laws of the \<open>bytes\<close> crate the encoder is concatenation of the fields.\<close>

context bytes_crate
begin

lemma put_extensions_wire: "put_extensions B r es = r @ wire_extensions es"
  by (induction es arbitrary: r) (simp_all add: buf_laws first_type_def)

lemma bytes_from_packet_wire:
  "bytes_from_packet B p = wire_header p @ wire_extensions (extensions p) @ data p"
  by (cases "extensions p")
    (simp_all add: bytes_from_packet_def wire_header_def first_type_def buf_laws
      put_extensions_wire)

end

lemma length_wire_header [simp]: "length (wire_header p) = 20"
  by (simp add: wire_header_def)

lemma length_wire_extensions:
  "length (wire_extensions es) = sum_list (map (\<lambda>e. 2 + length (ext_data e)) es)"
  by (induction es) simp_all

lemma packet_length_sum:
  "packet_length p =
     20 + length (data p) + sum_list (map (\<lambda>e. 2 + length (ext_data e)) (extensions p))"
proof -
  have "foldl (\<lambda>n e. n + (1 + 1 + length (ext_data e))) n es =
      n + sum_list (map (\<lambda>e. 2 + length (ext_data e)) es)" for n and es :: "extension list"
    by (induction es arbitrary: n) simp_all
  then show ?thesis by (simp add: packet_length_def PACKET_HEADER_LEN_def)
qed

section \<open>Decoding one extension\<close>

context bytes_crate
begin

lemma encoded_size: "length (bytes_from_packet B p) = packet_length p"
  using bytes_from_packet_wire by (simp add: packet_length_sum length_wire_extensions)

lemma parse_end: "parse_extensions B n 0 nx es bs = ret (Inr (es, bs))"
  by (subst parse_extensions.simps) (simp add: extension_type_from_u8_def)

lemma parse_missing:
  "et \<noteq> 0 \<Longrightarrow> parse_extensions B n et nx es [] = ret (Inl (MissingExtension n))"
  by (subst parse_extensions.simps) simp

lemma parse_incomplete:
  "et \<noteq> 0 \<Longrightarrow> length bs < unat l \<Longrightarrow>
     parse_extensions B n et nx es (l # bs) =
       ret (Inl (IncompleteExtension n (unat l) (length bs)))"
  by (subst parse_extensions.simps) (simp add: get_u8)

lemma parse_one:
  assumes "et \<noteq> 0" and "unat l \<le> length bs"
  shows "parse_extensions B n et nx es (l # bs) =
    (let es' = es @ [extension_new (extension_type_from_u8 et) (take (unat l) bs)] in
     case drop (unat l) bs of
       [] \<Rightarrow> parse_extensions B (n + 1) nx nx es' []
     | x # r \<Rightarrow> if nx = 0 then ret (Inr (es', x # r))
               else parse_extensions B (n + 1) nx x es' r)"
proof (cases "drop (unat l) bs")
  case Nil
  with assms show ?thesis
    by (subst parse_extensions.simps) (simp add: get_u8 split_to)
next
  case (Cons x r)
  with assms show ?thesis
    by (subst parse_extensions.simps)
      (simp add: get_u8 split_to parse_end Let_def del: drop_eq_Nil)
qed

text \<open>The wire form of a well-formed list is read back, whatever follows it.\<close>

lemma parse_wire:
  assumes "wf_extension e" and "list_all wf_extension es"
  shows "parse_extensions B n (u8_from_extension_type (extension_type e)) (first_type es) acc
      (of_nat (length (ext_data e)) # ext_data e @ wire_extensions es @ rest) =
    ret (Inr (acc @ e # es, rest))"
  using assms
proof (induction es arbitrary: n e acc)
  case Nil
  then show ?case
    by (cases rest) (simp_all add: parse_one parse_end first_type_def wf_extension_simps)
next
  case (Cons e' es)
  from Cons.prems have ft: "first_type (e' # es) = u8_from_extension_type (extension_type e')"
    and nz: "first_type (e' # es) \<noteq> 0"
    by (simp_all add: first_type_def wf_extension_simps)
  from Cons.prems nz Cons.IH [of e' "n + 1" "acc @ [e]"] show ?case
    by (simp add: parse_one wf_extension_simps ft)
qed

lemma parse_total: "\<exists>r. parse_extensions B n et nx es bs = ret r"
proof (induction "length bs" arbitrary: n et nx es bs rule: less_induct)
  case less
  show ?case
  proof (cases bs)
    case Nil
    then show ?thesis by (cases "et = 0") (simp_all add: parse_end parse_missing)
  next
    case (Cons l r)
    consider "et = 0" | "et \<noteq> 0" "length r < unat l" | "et \<noteq> 0" "unat l \<le> length r"
      by force
    then show ?thesis
    proof cases
      case 3
      have "length t < length bs" if "drop (unat l) r = x # t" for x t
        using arg_cong [OF that, of length] Cons by simp
      with 3 Cons show ?thesis
        using less by (cases "drop (unat l) r") (simp_all add: parse_one Let_def del: drop_eq_Nil)
    qed (simp_all add: Cons parse_end parse_incomplete)
  qed
qed

text \<open>Conversely, whatever is accepted is the wire form of what is returned.\<close>

lemma parse_inv:
  assumes "parse_extensions B n et nx acc bs = ret (Inr (es, rest))"
  shows "\<exists>new. es = acc @ new \<and> list_all wf_extension new \<and> first_type new = et \<and>
    (if new = [] then rest = bs else nx # bs = wire_extensions new @ rest)"
  using assms
proof (induction "length bs" arbitrary: n et nx acc bs rule: less_induct)
  case less
  show ?case
  proof (cases "et = 0")
    case True
    with less.prems show ?thesis by (simp add: parse_end first_type_def)
  next
    case et: False
    with less.prems obtain l r where bs: "bs = l # r"
      by (cases bs) (simp_all add: parse_missing)
    with less.prems et have len: "unat l \<le> length r"
      by (cases "length r < unat l") (simp_all add: parse_incomplete)
    let ?e = "extension_new (extension_type_from_u8 et) (take (unat l) r)"
    from et len have e: "wf_extension ?e" "first_type (?e # new) = et"
      "of_nat (length (ext_data ?e)) = l" "ext_data ?e = take (unat l) r" for new
      by (simp_all add: wf_extension_def extension_new_def first_type_def)
    show ?thesis
    proof (cases "nx = 0")
      case True
      with less.prems bs et len have "es = acc @ [?e] \<and> rest = drop (unat l) r"
        by (cases "drop (unat l) r") (simp_all add: parse_one parse_end Let_def del: drop_eq_Nil)
      with e True bs show ?thesis
        by (intro exI [of _ "[?e]"]) (simp add: first_type_def [of "[]"])
    next
      case nx: False
      with less.prems bs et len obtain x t where t: "drop (unat l) r = x # t"
        and rec: "parse_extensions B (n + 1) nx x (acc @ [?e]) t = ret (Inr (es, rest))"
        by (cases "drop (unat l) r") (simp_all add: parse_one parse_missing Let_def del: drop_eq_Nil)
      have "length t < length bs"
        using arg_cong [OF t, of length] bs by simp
      from less.hyps [OF this rec] nx obtain new where new: "es = (acc @ [?e]) @ new"
        "list_all wf_extension new" "first_type new = nx" "x # t = wire_extensions new @ rest"
        by (auto simp: first_type_def split: if_splits)
      have "r = take (unat l) r @ wire_extensions new @ rest"
        using append_take_drop_id [of "unat l" r] t new(4) by simp
      with e new bs show ?thesis
        by (intro exI [of _ "?e # new"]) simp
    qed
  qed
qed

lemma parse_list_wire:
  "list_all wf_extension es \<Longrightarrow>
     parse_extension_list B (first_type es) (wire_extensions es @ rest) = ret (Inr (es, rest))"
proof (cases es)
  case Nil
  then show ?thesis by (simp add: parse_extension_list_def first_type_def parse_end)
next
  case (Cons e es')
  moreover assume "list_all wf_extension es"
  ultimately show ?thesis
    by (simp add: parse_extension_list_def first_type_def [of "e # es'"] get_u8 wf_extension_simps
        parse_wire [where acc = "[]", simplified])
qed

lemma parse_list_inv:
  assumes "parse_extension_list B et bs = ret (Inr (es, rest))"
  shows "list_all wf_extension es \<and> first_type es = et \<and> bs = wire_extensions es @ rest"
proof (cases "et = 0")
  case True
  with assms show ?thesis
    by (simp add: parse_extension_list_def parse_end first_type_def)
next
  case False
  with assms obtain nx r where "bs = nx # r"
    and "parse_extensions B 0 et nx [] r = ret (Inr (es, rest))"
    by (cases bs) (simp_all add: parse_extension_list_def get_u8)
  with parse_inv [OF this(2)] False show ?thesis
    by (auto simp: first_type_def split: if_splits)
qed

lemma parse_list_total: "\<exists>r. parse_extension_list B et bs = ret r"
  using parse_total by (cases bs) (simp_all add: parse_extension_list_def get_u8)

end

section \<open>Decoding a packet\<close>

text \<open>Twenty bytes or more always have the shape of a header followed by the rest.\<close>

lemma header_shape:
  assumes "PACKET_HEADER_LEN \<le> length bs"
  obtains tv et c ts tsd w s a rest where
    "bs = tv # et # be16 c @ be32 ts @ be32 tsd @ be32 w @ be16 s @ be16 a @ rest"
proof -
  obtain x1 x2 x3 x4 x5 x6 x7 x8 x9 x10 x11 x12 x13 x14 x15 x16 x17 x18 x19 x20 rest where
    "bs = x1 # x2 # x3 # x4 # x5 # x6 # x7 # x8 # x9 # x10 # x11 # x12 # x13 # x14 # x15 # x16 #
       x17 # x18 # x19 # x20 # rest"
    using assms by (auto simp: PACKET_HEADER_LEN_def numeral_eq_Suc Suc_le_length_iff)
  then have "bs = x1 # x2 # be16 (of_be16 x3 x4) @ be32 (of_be32 x5 x6 x7 x8) @
      be32 (of_be32 x9 x10 x11 x12) @ be32 (of_be32 x13 x14 x15 x16) @ be16 (of_be16 x17 x18) @
      be16 (of_be16 x19 x20) @ rest"
    by simp
  then show thesis by (rule that)
qed

context bytes_crate
begin

lemma try_from_small: "length bs < PACKET_HEADER_LEN \<Longrightarrow> packet_try_from B bs = ret (Inl TooSmall)"
  by (simp add: packet_try_from_def)

lemma try_from_header:
  "packet_try_from B (tv # et # be16 c @ be32 ts @ be32 tsd @ be32 w @ be16 s @ be16 a @ rest) =
    (case packet_type_try_from (drop_bit 4 tv) of
       Inl e \<Rightarrow> ret (Inl e)
     | Inr t \<Rightarrow>
         if tv AND 0x0F \<noteq> 1 then ret (Inl (UnsupportedVersion (tv AND 0x0F)))
         else run_bind (parse_extension_list B et rest) (\<lambda>r. case r of
             Inl e \<Rightarrow> ret (Inl e)
           | Inr (exts, bs) \<Rightarrow> ret (Inr (packet_new t 1 c ts tsd w s a exts bs))))"
  by (simp add: packet_try_from_def PACKET_HEADER_LEN_def get_u8 get_be16 get_be32 Let_def
      split: sum.split)

lemma roundtrip:
  assumes "wf_packet p"
  shows "packet_try_from B (bytes_from_packet B p) = ret (Inr p)"
proof -
  have p: "packet_new (packet_type p) 1 (connection_id p) (timestamp_micros p)
      (timestamp_delta_micros p) (window_size p) (seq_number p) (ack_number p) (extensions p)
      (data p) = p"
    using assms by (simp add: packet_new_def wf_packet_def)
  define tv where "tv = push_bit 4 (packet_type_as_u8 (packet_type p)) OR 1"
  then have tv: "drop_bit 4 tv = packet_type_as_u8 (packet_type p)" "tv AND 0x0F = 1"
    using type_and_version_split by blast+
  have "bytes_from_packet B p =
      tv # first_type (extensions p) #
      be16 (connection_id p) @ be32 (timestamp_micros p) @ be32 (timestamp_delta_micros p) @
      be32 (window_size p) @ be16 (seq_number p) @ be16 (ack_number p) @
      wire_extensions (extensions p) @ data p"
    using assms by (simp add: bytes_from_packet_wire wire_header_def wf_packet_def tv_def)
  with assms p tv show ?thesis
    by (simp add: try_from_header parse_list_wire wf_packet_def)
qed

lemma decode_inv:
  assumes "packet_try_from B bs = ret (Inr p)"
  shows "wf_packet p \<and> bytes_from_packet B p = bs"
proof -
  have "PACKET_HEADER_LEN \<le> length bs"
    using assms try_from_small [of bs] by (cases "PACKET_HEADER_LEN \<le> length bs") auto
  then obtain tv et c ts tsd w s a rest where
    bs: "bs = tv # et # be16 c @ be32 ts @ be32 tsd @ be32 w @ be16 s @ be16 a @ rest"
    by (rule header_shape)
  with assms obtain t where t: "packet_type_try_from (drop_bit 4 tv) = Inr t"
    and v: "tv AND 0x0F = 1"
    by (auto simp: try_from_header split: sum.splits if_splits)
  with assms bs obtain r where r: "parse_extension_list B et rest = ret r"
    by (auto simp: try_from_header run_bind_ret_iff)
  with assms bs t v obtain exts d where e: "parse_extension_list B et rest = ret (Inr (exts, d))"
    and p: "p = packet_new t 1 c ts tsd w s a exts d"
    by (cases r) (auto simp: try_from_header)
  from t v have "push_bit 4 (packet_type_as_u8 t) OR 1 = tv"
    using type_and_version_join [of tv] by (simp add: packet_type_try_from_Inr)
  with parse_list_inv [OF e] bs p show ?thesis
    by (simp add: wf_packet_def bytes_from_packet_wire wire_header_def packet_new_def)
qed

lemma try_from_total: "\<exists>r. packet_try_from B bs = ret r"
proof (cases "length bs < PACKET_HEADER_LEN")
  case True
  then show ?thesis by (simp add: try_from_small)
next
  case False
  then have "PACKET_HEADER_LEN \<le> length bs" by simp
  then obtain tv et c ts tsd w s a rest where
    bs: "bs = tv # et # be16 c @ be32 ts @ be32 tsd @ be32 w @ be16 s @ be16 a @ rest"
    by (rule header_shape)
  obtain r where "parse_extension_list B et rest = ret r"
    using parse_list_total by blast
  with bs show ?thesis
    by (auto simp: try_from_header split: sum.split)
qed

end

context bytes_crate
begin

lemma parse_error:
  assumes "parse_extensions B n et nx acc bs = ret (Inl e)"
  shows "et \<noteq> 0 \<and> (\<exists>k. e = MissingExtension k \<or>
    (\<exists>l m. e = IncompleteExtension k l m \<and> m < l \<and> l < 256))"
  using assms
proof (induction "length bs" arbitrary: n et nx acc bs rule: less_induct)
  case less
  from less.prems have et: "et \<noteq> 0"
    by (cases "et = 0") (simp_all add: parse_end)
  show ?case
  proof (cases bs)
    case Nil
    with less.prems et show ?thesis by (auto simp: parse_missing)
  next
    case (Cons l r)
    show ?thesis
    proof (cases "length r < unat l")
      case True
      with less.prems et Cons show ?thesis by (auto simp: parse_incomplete)
    next
      case False
      have "length t < length bs" if "drop (unat l) r = x # t" for x t
        using arg_cong [OF that, of length] Cons by simp
      with False less.prems et Cons show ?thesis
        using less.hyps [of "[]" "n + 1" nx nx] less.hyps [of _ "n + 1" nx]
        by (cases "drop (unat l) r")
          (auto simp: parse_one Let_def simp del: drop_eq_Nil split: if_splits)
    qed
  qed
qed

lemma parse_list_error:
  "parse_extension_list B et bs = ret (Inl e) \<Longrightarrow>
     et \<noteq> 0 \<and> (\<exists>k. e = MissingExtension k \<or>
       (\<exists>l m. e = IncompleteExtension k l m \<and> m < l \<and> l < 256))"
  by (cases bs)
    (auto simp: parse_extension_list_def get_u8 split: if_splits dest: parse_error)

lemma try_from_errors:
  "case header_error bs of
     Some e \<Rightarrow> packet_try_from B bs = ret (Inl e)
   | None \<Rightarrow> \<forall>e. packet_try_from B bs = ret (Inl e) \<longrightarrow> bs ! 1 \<noteq> 0 \<and>
       (\<exists>k. e = MissingExtension k \<or> (\<exists>l m. e = IncompleteExtension k l m \<and> m < l \<and> l < 256))"
proof (cases "length bs < PACKET_HEADER_LEN")
  case True
  then show ?thesis by (simp add: header_error_def try_from_small)
next
  case False
  then have len: "PACKET_HEADER_LEN \<le> length bs" by simp
  then obtain tv et c ts tsd w s a rest where
    bs: "bs = tv # et # be16 c @ be32 ts @ be32 tsd @ be32 w @ be16 s @ be16 a @ rest"
    by (rule header_shape)
  obtain r where r: "parse_extension_list B et rest = ret r"
    using parse_list_total by blast
  have "4 < drop_bit 4 tv \<or> (\<exists>t. packet_type_try_from (drop_bit 4 tv) = Inr t \<and> \<not> 4 < drop_bit 4 tv)"
    using packet_type_try_from_Inl [of "drop_bit 4 tv"]
    by (cases "packet_type_try_from (drop_bit 4 tv)") auto
  moreover have "packet_type_try_from (drop_bit 4 tv) = Inl (InvalidPacketType (drop_bit 4 tv))"
    if "4 < drop_bit 4 tv"
    using that by (simp add: packet_type_try_from_Inl)
  ultimately show ?thesis
    using len r parse_list_error [of et rest]
    unfolding header_error_def bs try_from_header
    by (cases r) auto
qed

end

section \<open>The codec as an interface\<close>

text \<open>
  What the tasks of a socket rely on: a decoder that inverts the encoder on well-formed packets,
  and accepts nothing else.
\<close>

locale packet_codec =
  fixes encode :: "packet \<Rightarrow> bytes" and decode :: "bytes \<Rightarrow> packet option"
  assumes decode_encode: "wf_packet p \<Longrightarrow> decode (encode p) = Some p"
    and encode_decode: "decode bs = Some p \<Longrightarrow> wf_packet p \<and> encode p = bs"
begin

lemma encode_inject: "wf_packet p \<Longrightarrow> wf_packet q \<Longrightarrow> encode p = encode q \<longleftrightarrow> p = q"
  by (metis decode_encode option.inject)

lemma decode_iff: "decode bs = Some p \<longleftrightarrow> wf_packet p \<and> encode p = bs"
  using decode_encode encode_decode by blast

lemma decode_encode_all: "\<forall>p\<in>set ps. wf_packet p \<Longrightarrow> map decode (map encode ps) = map Some ps"
  by (simp add: decode_encode)

lemma encode_all_inject:
  "\<forall>p\<in>set ps. wf_packet p \<Longrightarrow> \<forall>q\<in>set qs. wf_packet q \<Longrightarrow> map encode ps = map encode qs \<longleftrightarrow> ps = qs"
proof -
  assume "\<forall>p\<in>set ps. wf_packet p" "\<forall>q\<in>set qs. wf_packet q"
  then have "inj_on encode (set ps \<union> set qs)" by (intro inj_onI) (metis Un_iff encode_inject)
  then show ?thesis by (rule inj_on_map_eq_map)
qed

end

definition decode_packet :: "buf_api \<Rightarrow> bytes \<Rightarrow> packet option" where
  "decode_packet B bs = (case packet_try_from B bs of Some (Ret (Inr p)) \<Rightarrow> Some p | _ \<Rightarrow> None)"

lemma decode_packet_iff: "decode_packet B bs = Some p \<longleftrightarrow> packet_try_from B bs = ret (Inr p)"
  by (auto simp: decode_packet_def split: option.splits outcome.splits sum.splits)

sublocale bytes_crate \<subseteq> codec: packet_codec "bytes_from_packet B" "decode_packet B"
  by unfold_locales (simp_all add: decode_packet_iff roundtrip decode_inv)

section \<open>Properties\<close>

text \<open>C8. Decoding the encoding of a well-formed packet gives the packet back.\<close>

theorem packet_roundtrip:
  assumes "bytes_crate B" and "wf_packet p"
  shows "packet_try_from B (bytes_from_packet B p) = ret (Inr p)"
  using bytes_crate.roundtrip [OF assms] .

lemma wf_example_packet: "wf_packet example_packet"
  by (simp add: example_packet_def wf_packet_def packet_new_def wf_extension_def extension_new_def
      extension_type_from_u8_def)

theorem packet_roundtrip_witness:
  "bytes_crate list_buf \<and> wf_packet example_packet \<and>
   packet_try_from list_buf (bytes_from_packet list_buf example_packet) = ret (Inr example_packet)"
  using packet_roundtrip [OF lbuf.bytes_crate_axioms wf_example_packet]
    lbuf.bytes_crate_axioms wf_example_packet by simp

text \<open>
  C9. The decoder accepts only canonical encodings: a packet it returns is well-formed and
  its encoding is exactly the input.
\<close>

theorem packet_decode_exact:
  assumes "bytes_crate B" and "packet_try_from B bs = ret (Inr p)"
  shows "wf_packet p \<and> bytes_from_packet B p = bs"
  using bytes_crate.decode_inv [OF assms] .

theorem packet_decode_exact_witness:
  "let bs = [0x21, 0x03, 0x30, 0x39, 0x00, 0x03, 0xc4, 0x1a, 0x00, 0x00, 0x00, 0x28,
       0x00, 0x00, 0x10, 0x00, 0x00, 0x00, 0x00, 0x00,
       0x00, 0x04, 0x00, 0x01, 0x00, 0x01, 0x01, 0x02, 0x03, 0x04, 0x05];
       p = packet_new State 1 12345 246810 40 4096 0 0
         [extension_new CloseReason [0x00, 0x01, 0x00, 0x01]] [0x01, 0x02, 0x03, 0x04, 0x05]
   in packet_try_from list_buf bs = ret (Inr p) \<and> wf_packet p \<and> bytes_from_packet list_buf p = bs"
proof -
  have "packet_try_from list_buf [0x21, 0x03, 0x30, 0x39, 0x00, 0x03, 0xc4, 0x1a, 0x00, 0x00, 0x00,
      0x28, 0x00, 0x00, 0x10, 0x00, 0x00, 0x00, 0x00, 0x00,
      0x00, 0x04, 0x00, 0x01, 0x00, 0x01, 0x01, 0x02, 0x03, 0x04, 0x05] =
    ret (Inr (packet_new State 1 12345 246810 40 4096 0 0
         [extension_new CloseReason [0x00, 0x01, 0x00, 0x01]] [0x01, 0x02, 0x03, 0x04, 0x05]))"
    by (simp add: packet_try_from_def PACKET_HEADER_LEN_def parse_extension_list_def
        lbuf.parse_one lbuf.parse_end lbuf.buf_laws packet_type_try_from_def of_be16_def of_be32_def
        extension_type_from_u8_def)
  from this packet_decode_exact [OF lbuf.bytes_crate_axioms this] show ?thesis
    by (simp only: Let_def)
qed

text \<open>
  C19. The decoder returns on every input: no loop without end and no panic in the buffer
  operations it calls.
\<close>

theorem packet_try_from_returns:
  assumes "bytes_crate B"
  shows "\<exists>r. packet_try_from B bs = ret r"
  using bytes_crate.try_from_total [OF assms] .

theorem packet_try_from_returns_witness:
  "\<exists>r. packet_try_from list_buf [0x21, 0xff] = ret r"
  using packet_try_from_returns [OF lbuf.bytes_crate_axioms] .

text \<open>
  C20. Which error is returned when: fewer than twenty bytes, then the packet type, then the
  version, and only for a header that passes these and announces an extension one of the two
  extension errors, where the reported length exceeds the reported rest.
\<close>

theorem packet_try_from_error_cases:
  assumes "bytes_crate B"
  shows "case header_error bs of
     Some e \<Rightarrow> packet_try_from B bs = ret (Inl e)
   | None \<Rightarrow> \<forall>e. packet_try_from B bs = ret (Inl e) \<longrightarrow> bs ! 1 \<noteq> 0 \<and>
       (\<exists>k. e = MissingExtension k \<or> (\<exists>l m. e = IncompleteExtension k l m \<and> m < l \<and> l < 256))"
  using bytes_crate.try_from_errors [OF assms] .

theorem packet_try_from_error_cases_witness:
  "packet_try_from list_buf (replicate 20 0xf1) = ret (Inl (InvalidPacketType 15))"
  using packet_try_from_error_cases [OF lbuf.bytes_crate_axioms, of "replicate 20 0xf1"]
  by (simp add: header_error_def PACKET_HEADER_LEN_def)

text \<open>C24. The encoder fills exactly the capacity it reserves.\<close>

theorem encoded_length:
  assumes "bytes_crate B"
  shows "length (bytes_from_packet B p) = packet_length p"
  using bytes_crate.encoded_size [OF assms] .

theorem encoded_length_witness:
  "length (bytes_from_packet list_buf example_packet) = 31"
  using encoded_length [OF lbuf.bytes_crate_axioms, of example_packet]
  by (simp add: packet_length_def example_packet_def packet_new_def extension_new_def
      PACKET_HEADER_LEN_def)

end
