(* ===== verification/Utp_Congestion.thy ===== *)
theory Utp_Congestion
  imports Utp_Packet
begin

unbundle bit_operations_syntax

text \<open>
  The clock of \<open>src/src/time.rs\<close> and the delay bookkeeping of \<open>src/src/congestion.rs\<close>.  The
  lemmas show what the controller holds after any sequence of received packets, and that the
  32-bit time stamps measure every delay below \<open>2 ^ 32\<close> microseconds correctly, also when
  the clock wraps between sending and receiving.
\<close>

section \<open>Clock\<close>

text \<open>
  The argument is the reading of \<open>SystemTime::now()\<close> in whole microseconds since the UNIX
  epoch; before the epoch \<open>duration_since\<close> is an error, which the code unwraps.
\<close>

definition current_micros :: "int \<Rightarrow> u32 outcome" where
  "current_micros now =
     (if now < 0 then Panic Unwrap
      else let total_microseconds = (of_int now :: u128)
           in Ret (ucast (total_microseconds AND ucast (- 1 :: u32))))"

section \<open>Controller\<close>

definition LOCAL_RECEIVE_WINDOW_SIZE :: u32 where
  "LOCAL_RECEIVE_WINDOW_SIZE = 1024 * 1024"

definition ETHERNET_MTU :: u32 where
  "ETHERNET_MTU = 1500"

record congestion_controller =
  current_window :: u32
  local_recieve_window :: u32
  remote_receive_window :: u32
  local_base_delay :: u32
  remote_base_delay :: u32
  local_delay_samples :: "u32 list"
  remote_delay_samples :: "u32 list"

definition congestion_controller_new :: congestion_controller where
  "congestion_controller_new =
     \<lparr>current_window = 0, local_recieve_window = LOCAL_RECEIVE_WINDOW_SIZE,
      remote_receive_window = ETHERNET_MTU, local_base_delay = - 1, remote_base_delay = - 1,
      local_delay_samples = [], remote_delay_samples = []\<rparr>"

definition update_state ::
  "congestion_controller \<Rightarrow> u32 \<Rightarrow> packet \<Rightarrow> congestion_controller"
where
  "update_state c received_at received_packet =
     (let local_delay = received_at - timestamp_micros received_packet;
          remote_delay = timestamp_delta_micros received_packet;
          c = c\<lparr>local_base_delay := min (local_base_delay c) local_delay\<rparr>;
          c = c\<lparr>remote_base_delay := min (remote_base_delay c) remote_delay\<rparr>;
          c = c\<lparr>local_delay_samples := local_delay_samples c @ [local_delay]\<rparr>;
          c = c\<lparr>remote_delay_samples := remote_delay_samples c @ [remote_delay]\<rparr>
      in c\<lparr>remote_receive_window := window_size received_packet\<rparr>)"

text \<open>The controller after a sequence of packets, each with its time of receipt.\<close>

definition update_states ::
  "congestion_controller \<Rightarrow> (u32 \<times> packet) list \<Rightarrow> congestion_controller"
where
  "update_states = foldl (\<lambda>c (received_at, p). update_state c received_at p)"

section \<open>Lemmas\<close>

lemma current_micros_eq: "0 \<le> now \<Longrightarrow> current_micros now = Ret (of_int now)"
  by (auto simp: current_micros_def bit_simps not_less intro!: bit_word_eqI)

definition cc_inv :: "congestion_controller \<Rightarrow> bool" where
  "cc_inv c \<longleftrightarrow>
     local_base_delay c = Min (insert (- 1) (set (local_delay_samples c))) \<and>
     remote_base_delay c = Min (insert (- 1) (set (remote_delay_samples c))) \<and>
     length (local_delay_samples c) = length (remote_delay_samples c)"

lemma Min_snoc:
  "Min (insert (a :: 'a :: linorder) (set (xs @ [x]))) = min (Min (insert a (set xs))) x"
  by (cases "xs = []") (simp_all add: min.commute min.left_commute)

lemma cc_inv_new: "cc_inv congestion_controller_new"
  by (simp add: cc_inv_def congestion_controller_new_def)

lemma cc_inv_update: "cc_inv c \<Longrightarrow> cc_inv (update_state c t p)"
  unfolding cc_inv_def update_state_def Let_def
  by (simp add: Min_snoc del: set_append)

lemma update_states_fields:
  "local_delay_samples (update_states c evs) =
     local_delay_samples c @ map (\<lambda>(t, p). t - timestamp_micros p) evs"
  "remote_delay_samples (update_states c evs) =
     remote_delay_samples c @ map (\<lambda>(t, p). timestamp_delta_micros p) evs"
  "remote_receive_window (update_states c evs) =
     (if evs = [] then remote_receive_window c else window_size (snd (last evs)))"
  "current_window (update_states c evs) = current_window c"
  "local_recieve_window (update_states c evs) = local_recieve_window c"
  by (induction evs rule: rev_induct)
    (auto simp: update_states_def update_state_def Let_def split: prod.splits)

lemma update_states_inv: "cc_inv c \<Longrightarrow> cc_inv (update_states c evs)"
  by (induction evs arbitrary: c) (auto simp: update_states_def cc_inv_update)

section \<open>Properties\<close>

text \<open>
  C25. After any sequence of received packets the base delays are the least delays seen (or
  the initial maximum), the sample histories hold one entry per packet in order of receipt,
  and the remote window is the one of the last packet.
\<close>

theorem congestion_history:
  "let c = update_states congestion_controller_new evs;
       local_delays = map (\<lambda>(t, p). t - timestamp_micros p) evs;
       remote_delays = map (\<lambda>(t, p). timestamp_delta_micros p) evs
   in local_delay_samples c = local_delays \<and>
      remote_delay_samples c = remote_delays \<and>
      local_base_delay c = Min (insert (- 1) (set local_delays)) \<and>
      remote_base_delay c = Min (insert (- 1) (set remote_delays)) \<and>
      remote_receive_window c = (if evs = [] then ETHERNET_MTU else window_size (snd (last evs))) \<and>
      local_recieve_window c = LOCAL_RECEIVE_WINDOW_SIZE \<and> current_window c = 0"
  using update_states_inv [OF cc_inv_new, of evs]
  by (simp add: update_states_fields cc_inv_def Let_def)
    (simp add: congestion_controller_new_def)

text \<open>
  C26. A packet stamped by the sender's clock and received less than \<open>2 ^ 32\<close> microseconds
  later adds exactly the elapsed time to the local history, even when the 32-bit clock wraps
  in between.
\<close>

theorem local_delay_exact:
  assumes "0 \<le> sent" and "sent \<le> received" and "received < sent + 2 ^ 32"
    and "current_micros sent = Ret (timestamp_micros p)"
    and "current_micros received = Ret received_at"
  shows "uint (last (local_delay_samples (update_state c received_at p))) = received - sent"
proof -
  from assms have "received_at - timestamp_micros p = of_int (received - sent)"
    by (simp add: current_micros_eq)
  moreover have "uint (of_int (received - sent) :: u32) = received - sent"
    unfolding uint_word_of_int using assms(2,3) by simp
  ultimately show ?thesis
    by (simp add: update_state_def Let_def)
qed

theorem local_delay_exact_witness:
  "uint (last (local_delay_samples (update_state congestion_controller_new 5
     (example_packet\<lparr>timestamp_micros := 4294967290\<rparr>)))) = 11"
proof -
  have "current_micros 4294967290 = Ret 4294967290" "current_micros 4294967301 = Ret 5"
    by (simp_all add: current_micros_eq)
  then show ?thesis
    using local_delay_exact [of 4294967290 4294967301
        "example_packet\<lparr>timestamp_micros := 4294967290\<rparr>" 5] by simp
qed

end
