(* ===== verification/Runtime_Interface.thy ===== *)
theory Runtime_Interface
  imports Utp_Congestion
begin

text \<open>
  The interface to the code the program runs on and that is not part of the repository:
  the channels, UDP sockets and host lookup of \<open>tokio\<close>, the concurrent map of \<open>dashmap\<close>,
  \<open>rand::random\<close>, the system clock and the drop state of shared pointers.  All of it acts on
  a world of an arbitrary type \<open>'w\<close>: an operation is a field of the record \<open>ext\<close>, which the
  definitions of the components take as their first argument and through which they thread
  the world.  What the code relies on is the locale \<open>runtime\<close>, over an observation \<open>view\<close> of the
  world: which packet channels exist, the messages in each, which halves are alive, the routing
  tables, the datagrams handed to each UDP socket and those that have arrived at it.
\<close>

section \<open>Operations\<close>

type_synonym handle = nat

text \<open>
  \<open>tokio::sync::mpsc\<close>, unbounded.  One handle names both halves of a channel.  \<open>send\<close> tells
  whether the message was accepted; \<open>recv\<close> is the value with which \<open>recv().await\<close> completes;
  \<open>try_recv\<close> gives \<open>None\<close> for its errors.
\<close>

record ('w, 'a) mpsc =
  unbounded_channel :: "'w \<Rightarrow> handle \<times> 'w"
  send :: "handle \<Rightarrow> 'a \<Rightarrow> 'w \<Rightarrow> bool \<times> 'w"
  poll_recv :: "handle \<Rightarrow> 'w \<Rightarrow> 'a option poll \<times> 'w"
  recv :: "handle \<Rightarrow> 'w \<Rightarrow> 'a option \<times> 'w"
  try_recv :: "handle \<Rightarrow> 'w \<Rightarrow> 'a option \<times> 'w"

text \<open>
  \<open>tokio::net::UdpSocket\<close>, and the conversion from \<open>std::net::UdpSocket\<close>.  \<open>poll_recv_from\<close> takes
  the capacity of the buffer it fills and returns the filled part.
\<close>

record 'w udp_api =
  udp_bind :: "socket_addr \<Rightarrow> 'w \<Rightarrow> (io_error + handle) \<times> 'w"
  udp_local_addr :: "handle \<Rightarrow> 'w \<Rightarrow> (io_error + socket_addr) \<times> 'w"
  set_nonblocking :: "handle \<Rightarrow> 'w \<Rightarrow> (io_error + unit) \<times> 'w"
  udp_from_std :: "handle \<Rightarrow> 'w \<Rightarrow> (io_error + handle) \<times> 'w"
  poll_send_to :: "handle \<Rightarrow> bytes \<Rightarrow> socket_addr \<Rightarrow> 'w \<Rightarrow> (io_error + nat) poll \<times> 'w"
  poll_recv_ready :: "handle \<Rightarrow> 'w \<Rightarrow> (io_error + unit) poll \<times> 'w"
  poll_recv_from :: "handle \<Rightarrow> nat \<Rightarrow> 'w \<Rightarrow> (io_error + bytes \<times> socket_addr) poll \<times> 'w"

text \<open>\<open>dashmap::DashMap<(u16, SocketAddr), UnboundedSender<Packet>>\<close>.\<close>

type_synonym conn_key = "u16 \<times> socket_addr"

record 'w dash_api =
  table_new :: "'w \<Rightarrow> handle \<times> 'w"
  table_get :: "handle \<Rightarrow> conn_key \<Rightarrow> 'w \<Rightarrow> handle option"
  table_insert :: "handle \<Rightarrow> conn_key \<Rightarrow> handle \<Rightarrow> 'w \<Rightarrow> 'w"
  table_remove :: "handle \<Rightarrow> conn_key \<Rightarrow> 'w \<Rightarrow> 'w"

text \<open>\<open>alive\<close> is whether \<open>Weak::upgrade\<close> of a pointer to the named object succeeds.\<close>

record 'w ext =
  buf :: buf_api
  inbound :: "('w, packet) mpsc"
  outbound :: "('w, packet \<times> socket_addr) mpsc"
  udp :: "'w udp_api"
  table :: "'w dash_api"
  random_u16 :: "'w \<Rightarrow> u16 \<times> 'w"
  system_now :: "'w \<Rightarrow> int \<times> 'w"
  lookup_host :: "'w \<Rightarrow> (io_error + socket_addr list) \<times> 'w"
  alive :: "handle \<Rightarrow> 'w \<Rightarrow> bool"

section \<open>Observable state\<close>

record rt =
  in_made :: "handle \<Rightarrow> bool"
  in_q :: "handle \<Rightarrow> packet list"
  in_rx :: "handle \<Rightarrow> bool"
  in_tx :: "handle \<Rightarrow> bool"
  out_made :: "handle \<Rightarrow> bool"
  out_q :: "handle \<Rightarrow> (packet \<times> socket_addr) list"
  out_rx :: "handle \<Rightarrow> bool"
  out_tx :: "handle \<Rightarrow> bool"
  tables :: "handle \<Rightarrow> conn_key \<Rightarrow> handle option"
  sent :: "handle \<Rightarrow> (bytes \<times> socket_addr) list"
  arrived :: "handle \<Rightarrow> (bytes \<times> socket_addr) list"

abbreviation upd_in_q :: "handle \<Rightarrow> packet list \<Rightarrow> rt \<Rightarrow> rt" where
  "upd_in_q c q v \<equiv> v\<lparr>in_q := (in_q v)(c := q)\<rparr>"

abbreviation make_channel :: "handle \<Rightarrow> rt \<Rightarrow> rt" where
  "make_channel c v \<equiv> v\<lparr>in_made := (in_made v)(c := True), in_q := (in_q v)(c := []),
     in_rx := (in_rx v)(c := True), in_tx := (in_tx v)(c := True)\<rparr>"

abbreviation make_out_channel :: "handle \<Rightarrow> rt \<Rightarrow> rt" where
  "make_out_channel c v \<equiv> v\<lparr>out_made := (out_made v)(c := True), out_q := (out_q v)(c := []),
     out_rx := (out_rx v)(c := True), out_tx := (out_tx v)(c := True)\<rparr>"

abbreviation upd_out_q :: "handle \<Rightarrow> (packet \<times> socket_addr) list \<Rightarrow> rt \<Rightarrow> rt" where
  "upd_out_q c q v \<equiv> v\<lparr>out_q := (out_q v)(c := q)\<rparr>"

abbreviation upd_table :: "handle \<Rightarrow> (conn_key \<Rightarrow> handle option) \<Rightarrow> rt \<Rightarrow> rt" where
  "upd_table h m v \<equiv> v\<lparr>tables := (tables v)(h := m)\<rparr>"

abbreviation upd_sent :: "handle \<Rightarrow> (bytes \<times> socket_addr) list \<Rightarrow> rt \<Rightarrow> rt" where
  "upd_sent h ds v \<equiv> v\<lparr>sent := (sent v)(h := ds)\<rparr>"

abbreviation upd_arrived :: "handle \<Rightarrow> (bytes \<times> socket_addr) list \<Rightarrow> rt \<Rightarrow> rt" where
  "upd_arrived h ds v \<equiv> v\<lparr>arrived := (arrived v)(h := ds)\<rparr>"

lemma upd_same:
  "in_q v c = q \<Longrightarrow> upd_in_q c q v = v"
  "out_q v c = q' \<Longrightarrow> upd_out_q c q' v = v"
  "sent v h = ds \<Longrightarrow> upd_sent h ds v = v"
  "arrived v h = ds \<Longrightarrow> upd_arrived h ds v = v"
  by (cases v; auto)+

section \<open>Documented behaviour\<close>

text \<open>
  Reading a channel takes the oldest message; \<open>Ready None\<close> means that the channel is empty
  and the senders are gone.  A poll may fail spuriously: \<open>Pending\<close> says nothing about the
  queue.  An awaited \<open>recv\<close> on a channel that holds a message, or is closed, completes at
  once; otherwise other tasks run meanwhile and nothing is said about the world it ends in.
\<close>

locale inbound_channels =
  fixes E :: "'w ext" and view :: "'w \<Rightarrow> rt"
  assumes in_send: "send (inbound E) c p w = (ok, w') \<Longrightarrow>
      ok = in_rx (view w) c \<and>
      view w' = (if ok then upd_in_q c (in_q (view w) c @ [p]) (view w) else view w)"
    and in_poll_some: "poll_recv (inbound E) c w = (Ready (Some p), w') \<Longrightarrow>
      \<exists>q. in_q (view w) c = p # q \<and> view w' = upd_in_q c q (view w)"
    and in_poll_none: "poll_recv (inbound E) c w = (Ready None, w') \<Longrightarrow>
      in_q (view w) c = [] \<and> \<not> in_tx (view w) c \<and> view w' = view w"
    and in_poll_pending: "poll_recv (inbound E) c w = (Pending, w') \<Longrightarrow> view w' = view w"
    and in_recv: "in_q (view w) c = p # q \<Longrightarrow> recv (inbound E) c w = (r, w') \<Longrightarrow>
      r = Some p \<and> view w' = upd_in_q c q (view w)"
    and in_recv_closed: "in_q (view w) c = [] \<Longrightarrow> \<not> in_tx (view w) c \<Longrightarrow>
      recv (inbound E) c w = (r, w') \<Longrightarrow> r = None \<and> view w' = view w"
    and in_try_recv: "try_recv (inbound E) c w = (r, w') \<Longrightarrow> (case in_q (view w) c of
        [] \<Rightarrow> r = None \<and> view w' = view w
      | p # q \<Rightarrow> r = Some p \<and> view w' = upd_in_q c q (view w))"
    and in_channel: "unbounded_channel (inbound E) w = (c, w') \<Longrightarrow>
      \<not> in_made (view w) c \<and> view w' = make_channel c (view w)"

locale outbound_channels =
  fixes E :: "'w ext" and view :: "'w \<Rightarrow> rt"
  assumes out_send: "send (outbound E) c m w = (ok, w') \<Longrightarrow>
      ok = out_rx (view w) c \<and>
      view w' = (if ok then upd_out_q c (out_q (view w) c @ [m]) (view w) else view w)"
    and out_poll_some: "poll_recv (outbound E) c w = (Ready (Some m), w') \<Longrightarrow>
      \<exists>q. out_q (view w) c = m # q \<and> view w' = upd_out_q c q (view w)"
    and out_poll_none: "poll_recv (outbound E) c w = (Ready None, w') \<Longrightarrow>
      out_q (view w) c = [] \<and> \<not> out_tx (view w) c \<and> view w' = view w"
    and out_poll_pending: "poll_recv (outbound E) c w = (Pending, w') \<Longrightarrow> view w' = view w"
    and out_recv: "out_q (view w) c = m # q \<Longrightarrow> recv (outbound E) c w = (r, w') \<Longrightarrow>
      r = Some m \<and> view w' = upd_out_q c q (view w)"
    and out_recv_closed: "out_q (view w) c = [] \<Longrightarrow> \<not> out_tx (view w) c \<Longrightarrow>
      recv (outbound E) c w = (r, w') \<Longrightarrow> r = None \<and> view w' = view w"
    and out_channel: "unbounded_channel (outbound E) w = (c, w') \<Longrightarrow>
      \<not> out_made (view w) c \<and> view w' = make_out_channel c (view w)"

locale routing_tables =
  fixes E :: "'w ext" and view :: "'w \<Rightarrow> rt"
  assumes get_spec: "table_get (table E) h k w = tables (view w) h k"
    and new_spec: "table_new (table E) w = (h, w') \<Longrightarrow> view w' = upd_table h Map.empty (view w)"
    and insert_spec: "view (table_insert (table E) h k c w) =
      upd_table h ((tables (view w) h)(k \<mapsto> c)) (view w)"
    and remove_spec: "view (table_remove (table E) h k w) =
      upd_table h ((tables (view w) h)(k := None)) (view w)"

text \<open>
  A datagram counts as handed over when \<open>poll_send_to\<close> reports success.  \<open>poll_recv_from\<close> takes
  the oldest datagram that has arrived and cuts off what does not fit the buffer.
\<close>

locale udp_sockets =
  fixes E :: "'w ext" and view :: "'w \<Rightarrow> rt"
  assumes send_to_ok: "poll_send_to (udp E) h d a w = (Ready (Inr n), w') \<Longrightarrow>
      view w' = upd_sent h (sent (view w) h @ [(d, a)]) (view w)"
    and send_to_err: "poll_send_to (udp E) h d a w = (Ready (Inl e), w') \<Longrightarrow> view w' = view w"
    and send_to_pending: "poll_send_to (udp E) h d a w = (Pending, w') \<Longrightarrow> view w' = view w"
    and bind_view: "view (snd (udp_bind (udp E) b w)) = view w"
    and local_addr_view: "view (snd (udp_local_addr (udp E) h w)) = view w"
    and nonblocking_view: "view (snd (set_nonblocking (udp E) h w)) = view w"
    and from_std_view: "view (snd (udp_from_std (udp E) h w)) = view w"
    and recv_ready: "view (snd (poll_recv_ready (udp E) h w)) = view w"
    and recv_from_ok: "poll_recv_from (udp E) h n w = (Ready (Inr (d, a)), w') \<Longrightarrow>
      \<exists>d0 ds. arrived (view w) h = (d0, a) # ds \<and> d = take n d0 \<and> view w' = upd_arrived h ds (view w)"
    and recv_from_err: "poll_recv_from (udp E) h n w = (Ready (Inl e), w') \<Longrightarrow> view w' = view w"
    and recv_from_pending: "poll_recv_from (udp E) h n w = (Pending, w') \<Longrightarrow> view w' = view w"

locale clock_and_random =
  fixes E :: "'w ext" and view :: "'w \<Rightarrow> rt"
  assumes now_view: "view (snd (system_now E w)) = view w"
    and now_after_epoch: "0 \<le> fst (system_now E w)"
    and random_view: "view (snd (random_u16 E w)) = view w"
    and lookup_view: "view (snd (lookup_host E w)) = view w"

locale runtime =
  bytes_crate "buf E" + inbound_channels E view + outbound_channels E view +
  routing_tables E view + udp_sockets E view + clock_and_random E view
  for E :: "'w ext" and view :: "'w \<Rightarrow> rt"

text \<open>A runtime in which a poll of a channel that holds messages does not fail spuriously.\<close>

locale prompt_runtime = runtime +
  assumes in_poll_prompt: "poll_recv (inbound E) c w = (Pending, w') \<Longrightarrow>
      in_q (view w) c = [] \<and> in_tx (view w) c"
    and out_poll_prompt: "poll_recv (outbound E) c w = (Pending, w') \<Longrightarrow>
      out_q (view w) c = [] \<and> out_tx (view w) c"

text \<open>The laws are about the operations they name: another UDP socket leaves the rest in place.\<close>

lemma prompt_runtime_with_udp:
  assumes "prompt_runtime E view" and "udp_sockets (E\<lparr>udp := U\<rparr>) view"
  shows "prompt_runtime (E\<lparr>udp := U\<rparr>) view"
proof -
  from assms(1) have parts: "bytes_crate (buf E)" "inbound_channels E view"
    "outbound_channels E view" "routing_tables E view" "clock_and_random E view"
    "prompt_runtime_axioms E view"
    by (simp_all add: prompt_runtime_def runtime_def)
  have "inbound_channels (E\<lparr>udp := U\<rparr>) view = inbound_channels E view"
    by (simp add: inbound_channels_def)
  moreover have "outbound_channels (E\<lparr>udp := U\<rparr>) view = outbound_channels E view"
    by (simp add: outbound_channels_def)
  moreover have "routing_tables (E\<lparr>udp := U\<rparr>) view = routing_tables E view"
    by (simp add: routing_tables_def)
  moreover have "clock_and_random (E\<lparr>udp := U\<rparr>) view = clock_and_random E view"
    by (simp add: clock_and_random_def)
  moreover have "prompt_runtime_axioms (E\<lparr>udp := U\<rparr>) view = prompt_runtime_axioms E view"
    by (simp add: prompt_runtime_axioms_def)
  ultimately show ?thesis
    using parts assms(2) by (simp add: prompt_runtime_def runtime_def)
qed

section \<open>An instance\<close>

text \<open>
  A world that satisfies the laws: the observable state itself, with counters for fresh
  handles, a clock that ticks at every reading, a generator that counts up, and the addresses
  the sockets are bound to.
\<close>

record sim = rt +
  sim_in_fresh :: nat
  sim_out_fresh :: nat
  sim_fresh :: nat
  sim_clock :: int
  sim_random :: u16
  sim_addr :: "handle \<Rightarrow> socket_addr"

definition sim_in_poll :: "handle \<Rightarrow> sim \<Rightarrow> packet option poll \<times> sim" where
  "sim_in_poll c w = (case in_q w c of
       p # q \<Rightarrow> (Ready (Some p), w\<lparr>in_q := (in_q w)(c := q)\<rparr>)
     | [] \<Rightarrow> if in_tx w c then (Pending, w) else (Ready None, w))"

definition sim_out_poll :: "handle \<Rightarrow> sim \<Rightarrow> (packet \<times> socket_addr) option poll \<times> sim" where
  "sim_out_poll c w = (case out_q w c of
       p # q \<Rightarrow> (Ready (Some p), w\<lparr>out_q := (out_q w)(c := q)\<rparr>)
     | [] \<Rightarrow> if out_tx w c then (Pending, w) else (Ready None, w))"

definition sim_in_channel :: "sim \<Rightarrow> handle \<times> sim" where
  "sim_in_channel w =
     (let c = sim_in_fresh w
      in (c, w\<lparr>in_q := (in_q w)(c := []), in_rx := (in_rx w)(c := True),
        in_tx := (in_tx w)(c := True), sim_in_fresh := c + 1\<rparr>))"

definition sim_out_channel :: "sim \<Rightarrow> handle \<times> sim" where
  "sim_out_channel w =
     (let c = sim_out_fresh w
      in (c, w\<lparr>out_q := (out_q w)(c := []), out_rx := (out_rx w)(c := True),
        out_tx := (out_tx w)(c := True), sim_out_fresh := c + 1\<rparr>))"

definition sim_recv :: "(handle \<Rightarrow> 'w \<Rightarrow> 'a option poll \<times> 'w) \<Rightarrow> handle \<Rightarrow> 'w \<Rightarrow> 'a option \<times> 'w"
where
  "sim_recv poll c w = (case poll c w of (Ready x, w') \<Rightarrow> (x, w') | (Pending, w') \<Rightarrow> (None, w'))"

definition sim_inbound :: "(sim, packet) mpsc" where
  "sim_inbound = \<lparr>unbounded_channel = sim_in_channel,
     send = (\<lambda>c p w. if in_rx w c then (True, w\<lparr>in_q := (in_q w)(c := in_q w c @ [p])\<rparr>)
       else (False, w)),
     poll_recv = sim_in_poll, recv = sim_recv sim_in_poll, try_recv = sim_recv sim_in_poll\<rparr>"

definition sim_outbound :: "(sim, packet \<times> socket_addr) mpsc" where
  "sim_outbound = \<lparr>unbounded_channel = sim_out_channel,
     send = (\<lambda>c m w. if out_rx w c then (True, w\<lparr>out_q := (out_q w)(c := out_q w c @ [m])\<rparr>)
       else (False, w)),
     poll_recv = sim_out_poll, recv = sim_recv sim_out_poll, try_recv = sim_recv sim_out_poll\<rparr>"

definition sim_recv_from ::
  "handle \<Rightarrow> nat \<Rightarrow> sim \<Rightarrow> (io_error + bytes \<times> socket_addr) poll \<times> sim"
where
  "sim_recv_from h n w = (case arrived w h of
       [] \<Rightarrow> (Pending, w)
     | (d, a) # ds \<Rightarrow> (Ready (Inr (take n d, a)), w\<lparr>arrived := (arrived w)(h := ds)\<rparr>))"

definition sim_udp :: "sim udp_api" where
  "sim_udp = \<lparr>udp_bind = (\<lambda>a w. (Inr (sim_fresh w), w\<lparr>sim_fresh := sim_fresh w + 1\<rparr>)),
     udp_local_addr = (\<lambda>h w. (Inr (sim_addr w h), w)),
     set_nonblocking = (\<lambda>h w. (Inr (), w)), udp_from_std = (\<lambda>h w. (Inr h, w)),
     poll_send_to = (\<lambda>h d a w.
       (Ready (Inr (length d)), w\<lparr>sent := (sent w)(h := sent w h @ [(d, a)])\<rparr>)),
     poll_recv_ready = (\<lambda>h w. (if arrived w h = [] then Pending else Ready (Inr ()), w)),
     poll_recv_from = sim_recv_from\<rparr>"

definition sim_dash :: "sim dash_api" where
  "sim_dash = \<lparr>table_new = (\<lambda>w. (sim_fresh w,
       w\<lparr>tables := (tables w)(sim_fresh w := Map.empty), sim_fresh := sim_fresh w + 1\<rparr>)),
     table_get = (\<lambda>h k w. tables w h k),
     table_insert = (\<lambda>h k c w. w\<lparr>tables := (tables w)(h := (tables w h)(k \<mapsto> c))\<rparr>),
     table_remove = (\<lambda>h k w. w\<lparr>tables := (tables w)(h := (tables w h)(k := None))\<rparr>)\<rparr>"

definition sim_env :: "sim ext" where
  "sim_env = \<lparr>buf = list_buf, inbound = sim_inbound, outbound = sim_outbound, udp = sim_udp,
     table = sim_dash,
     random_u16 = (\<lambda>w. (sim_random w, w\<lparr>sim_random := sim_random w + 1\<rparr>)),
     system_now = (\<lambda>w. (max 0 (sim_clock w), w\<lparr>sim_clock := sim_clock w + 1\<rparr>)),
     lookup_host = (\<lambda>w. (Inr [sim_addr w 0], w)),
     alive = (\<lambda>h w. True)\<rparr>"

definition sim_view :: "sim \<Rightarrow> rt" where
  "sim_view w = (rt.truncate w)\<lparr>in_made := (\<lambda>c. c < sim_in_fresh w),
     out_made := (\<lambda>c. c < sim_out_fresh w)\<rparr>"

definition sim_init :: sim where
  "sim_init = \<lparr>in_made = (\<lambda>_. False), in_q = (\<lambda>_. []), in_rx = (\<lambda>_. True), in_tx = (\<lambda>_. True),
     out_made = (\<lambda>_. False), out_q = (\<lambda>_. []), out_rx = (\<lambda>_. True), out_tx = (\<lambda>_. True),
     tables = (\<lambda>_. Map.empty),
     sent = (\<lambda>_. []), arrived = (\<lambda>_. []), sim_in_fresh = 10, sim_out_fresh = 10, sim_fresh = 10,
     sim_clock = 1000, sim_random = 7,
     sim_addr = (\<lambda>h. SocketAddrV4 0x7f000001 (9000 + of_nat h))\<rparr>"

lemmas sim_defs [sim_eval] = sim_env_def sim_inbound_def sim_outbound_def sim_udp_def sim_dash_def
  sim_in_poll_def sim_out_poll_def sim_in_channel_def sim_out_channel_def sim_recv_def
  sim_recv_from_def

lemma sim_view_simps [simp]:
  "in_q (sim_view w) = in_q w" "in_rx (sim_view w) = in_rx w" "in_tx (sim_view w) = in_tx w"
  "out_q (sim_view w) = out_q w" "out_rx (sim_view w) = out_rx w" "out_tx (sim_view w) = out_tx w"
  "tables (sim_view w) = tables w" "sent (sim_view w) = sent w" "arrived (sim_view w) = arrived w"
  "in_made (sim_view w) = (\<lambda>c. c < sim_in_fresh w)"
  "out_made (sim_view w) = (\<lambda>c. c < sim_out_fresh w)"
  by (simp_all add: sim_view_def rt.defs)

lemma sim_env_simps [simp]: "buf sim_env = list_buf" "alive sim_env h w"
  by (simp_all add: sim_env_def)

lemma sim_no_udp_errors [simp]:
  "poll_send_to (udp sim_env) h d a w \<noteq> (Ready (Inl e), w')"
  "poll_recv_from (udp sim_env) h n w \<noteq> (Ready (Inl e), w')"
  by (simp_all add: sim_defs split: list.split prod.split)

declare sim_init_def [example_eval]

lemmas sim_proof = sim_defs sim_view_def rt.defs

lemma sim_inbound_channels: "inbound_channels sim_env sim_view"
  by (unfold_locales; auto simp: sim_proof Let_def fun_eq_iff split: list.splits if_splits)

lemma sim_outbound_channels: "outbound_channels sim_env sim_view"
  by (unfold_locales; auto simp: sim_proof Let_def fun_eq_iff split: list.splits if_splits)

lemma sim_routing_tables: "routing_tables sim_env sim_view"
  by (unfold_locales; auto simp: sim_proof)

lemma sim_udp_sockets: "udp_sockets sim_env sim_view"
  by (unfold_locales; auto simp: sim_proof split: list.splits prod.splits if_splits)

lemma sim_clock_and_random: "clock_and_random sim_env sim_view"
  by (unfold_locales; simp add: sim_proof)

interpretation sim_rt: prompt_runtime sim_env sim_view
proof (intro prompt_runtime.intro runtime.intro)
  show "bytes_crate (buf sim_env)"
    using lbuf.bytes_crate_axioms by (simp add: sim_env_def)
  show "prompt_runtime_axioms sim_env sim_view"
    by (unfold_locales; auto simp: sim_proof split: list.splits if_splits)
qed (fact sim_inbound_channels sim_outbound_channels sim_routing_tables sim_udp_sockets
    sim_clock_and_random)+

end
