(* ===== verification/Utp_Packet_Sender.thy ===== *)
theory Utp_Packet_Sender
  imports Runtime_Interface
begin

text \<open>
  The task of \<open>src/src/socket/packet_sender.rs\<close> that takes packets from the outgoing channel
  of a socket and hands their encodings to the UDP socket.  The lemmas show that it neither
  loses, repeats nor reorders a packet, when a poll of it returns, and that a packet which the
  UDP socket refuses holds up all the others.
\<close>

section \<open>Definitions\<close>

record packet_sender =
  ps_socket :: handle
  ps_local_addr :: socket_addr
  outgoing_rx :: handle
  outgoing_buffer :: "(packet \<times> socket_addr) list"

text \<open>
  The loop that fills the buffer from the channel; the flag tells whether the channel turned
  out to be closed.
\<close>

partial_function (option) fetch_outgoing ::
  "'w ext \<Rightarrow> packet_sender \<Rightarrow> 'w \<Rightarrow> (bool \<times> packet_sender \<times> 'w) run"
where
  "fetch_outgoing E ps w =
     (case poll_recv (outbound E) (outgoing_rx ps) w of
        (Pending, w) \<Rightarrow> ret (False, ps, w)
      | (Ready None, w) \<Rightarrow> ret (True, ps, w)
      | (Ready (Some item), w) \<Rightarrow>
          fetch_outgoing E (ps\<lparr>outgoing_buffer := outgoing_buffer ps @ [item]\<rparr>) w)"

text \<open>The loop that empties the buffer into the UDP socket; a packet is put back on failure.\<close>

partial_function (option) send_outgoing ::
  "'w ext \<Rightarrow> packet_sender \<Rightarrow> 'w \<Rightarrow> (packet_sender \<times> 'w) run"
where
  "send_outgoing E ps w =
     (case outgoing_buffer ps of
        [] \<Rightarrow> ret (ps, w)
      | (packet, remote_addr) # rest \<Rightarrow>
          let ps = ps\<lparr>outgoing_buffer := rest\<rparr> in
          (case poll_send_to (udp E) (ps_socket ps) (bytes_from_packet (buf E) packet) remote_addr w of
            (Ready (Inr bytes_written), w) \<Rightarrow> send_outgoing E ps w
          | (Ready (Inl err), w) \<Rightarrow>
              send_outgoing E
                (ps\<lparr>outgoing_buffer := (packet, remote_addr) # outgoing_buffer ps\<rparr>) w
          | (Pending, w) \<Rightarrow>
              ret (ps\<lparr>outgoing_buffer := (packet, remote_addr) # outgoing_buffer ps\<rparr>, w)))"

definition packet_sender_poll ::
  "'w ext \<Rightarrow> packet_sender \<Rightarrow> 'w \<Rightarrow> (unit poll \<times> packet_sender \<times> 'w) run"
where
  "packet_sender_poll E ps w =
     (if \<not> alive E (ps_socket ps) w then ret (Ready (), ps, w)
      else run_bind (fetch_outgoing E ps w) (\<lambda>(closed, ps, w).
        if closed then ret (Ready (), ps, w)
        else run_bind (send_outgoing E ps w) (\<lambda>(ps, w). ret (Pending, ps, w))))"

text \<open>What the sender puts on the wire for a queue of packets.\<close>

definition datagrams :: "buf_api \<Rightarrow> (packet \<times> socket_addr) list \<Rightarrow> (bytes \<times> socket_addr) list" where
  "datagrams B q = map (\<lambda>(p, a). (bytes_from_packet B p, a)) q"

section \<open>Filling the buffer\<close>

lemma same_buffer: "outgoing_buffer ps = b \<Longrightarrow> ps\<lparr>outgoing_buffer := b\<rparr> = ps"
  by (cases ps) auto

context outbound_channels
begin

lemma fetch_spec:
  "\<exists>closed b q w'.
     fetch_outgoing E ps w = ret (closed, ps\<lparr>outgoing_buffer := outgoing_buffer ps @ b\<rparr>, w') \<and>
     out_q (view w) (outgoing_rx ps) = b @ q \<and>
     view w' = upd_out_q (outgoing_rx ps) q (view w) \<and>
     (closed \<longrightarrow> q = [] \<and> \<not> out_tx (view w) (outgoing_rx ps)) \<and>
     (\<not> closed \<longrightarrow> (\<exists>w0. poll_recv (outbound E) (outgoing_rx ps) w0 = (Pending, w') \<and>
        out_q (view w0) (outgoing_rx ps) = q))"
proof (induction "length (out_q (view w) (outgoing_rx ps))" arbitrary: ps w rule: less_induct)
  case less
  obtain r w1 where poll: "poll_recv (outbound E) (outgoing_rx ps) w = (r, w1)"
    by fastforce
  consider "r = Pending" | "r = Ready None" | m where "r = Ready (Some m)"
    by (metis option.exhaust poll.exhaust)
  then show ?case
  proof cases
    case 1
    with poll out_poll_pending [of "outgoing_rx ps" w w1] show ?thesis
      by (subst fetch_outgoing.simps, intro exI [of _ False] exI [of _ "[]"]
          exI [of _ "out_q (view w) (outgoing_rx ps)"] exI [of _ w1])
        (auto simp: upd_same)
  next
    case 2
    with poll out_poll_none [of "outgoing_rx ps" w w1] show ?thesis
      by (subst fetch_outgoing.simps, intro exI [of _ True] exI [of _ "[]"]
          exI [of _ "[]"] exI [of _ w1]) (simp add: upd_same)
  next
    case (3 m)
    with poll out_poll_some obtain q where q: "out_q (view w) (outgoing_rx ps) = m # q"
      and v: "view w1 = upd_out_q (outgoing_rx ps) q (view w)" by blast
    let ?ps = "ps\<lparr>outgoing_buffer := outgoing_buffer ps @ [m]\<rparr>"
    have unfold: "fetch_outgoing E ps w = fetch_outgoing E ?ps w1"
      using poll 3 by (subst fetch_outgoing.simps) simp
    have "length (out_q (view w1) (outgoing_rx ?ps)) < length (out_q (view w) (outgoing_rx ps))"
      by (simp add: q v)
    from less [OF this] obtain closed b q' w' where
      "fetch_outgoing E ?ps w1 = ret (closed, ps\<lparr>outgoing_buffer := outgoing_buffer ps @ m # b\<rparr>, w')"
      "q = b @ q'" "view w' = upd_out_q (outgoing_rx ps) q' (view w1)"
      "closed \<longrightarrow> q' = [] \<and> \<not> out_tx (view w) (outgoing_rx ps)"
      "\<not> closed \<longrightarrow> (\<exists>w0. poll_recv (outbound E) (outgoing_rx ps) w0 = (Pending, w') \<and>
        out_q (view w0) (outgoing_rx ps) = q')"
      by (simp add: v) blast
    with unfold q v show ?thesis
      by (intro exI [of _ closed] exI [of _ "m # b"] exI [of _ q'] exI [of _ w']) simp
  qed
qed

end

section \<open>Emptying the buffer\<close>

text \<open>Induction over the rounds of the loop, for a call that returns.\<close>

lemma send_outgoing_induct [consumes 1, case_names empty ok err pend]:
  assumes returns: "send_outgoing E ps w = Some r"
    and empty: "\<And>ps w. outgoing_buffer ps = [] \<Longrightarrow> P ps w (Ret (ps, w))"
    and ok: "\<And>ps w p a rest n w1 r. outgoing_buffer ps = (p, a) # rest \<Longrightarrow>
      poll_send_to (udp E) (ps_socket ps) (bytes_from_packet (buf E) p) a w = (Ready (Inr n), w1) \<Longrightarrow>
      P (ps\<lparr>outgoing_buffer := rest\<rparr>) w1 r \<Longrightarrow> P ps w r"
    and err: "\<And>ps w p a rest e w1 r. outgoing_buffer ps = (p, a) # rest \<Longrightarrow>
      poll_send_to (udp E) (ps_socket ps) (bytes_from_packet (buf E) p) a w = (Ready (Inl e), w1) \<Longrightarrow>
      P ps w1 r \<Longrightarrow> P ps w r"
    and pend: "\<And>ps w p a rest w1. outgoing_buffer ps = (p, a) # rest \<Longrightarrow>
      poll_send_to (udp E) (ps_socket ps) (bytes_from_packet (buf E) p) a w = (Pending, w1) \<Longrightarrow>
      P ps w (Ret (ps, w1))"
  shows "P ps w r"
proof -
  have "E = E \<longrightarrow> P ps w r"
  proof (rule send_outgoing.raw_induct [where P = "\<lambda>E' ps w r. E' = E \<longrightarrow> P ps w r", OF _ returns],
      intro impI, goal_cases)
    case (1 f E' ps w r)
    show ?case
    proof (cases "outgoing_buffer ps")
      case Nil
      with 1 empty [of ps w] show ?thesis by simp
    next
      case (Cons m rest)
      obtain p a where m: "m = (p, a)" by fastforce
      obtain res w1 where
        poll: "poll_send_to (udp E) (ps_socket ps) (bytes_from_packet (buf E) p) a w = (res, w1)"
        by fastforce
      note step = 1 Cons [unfolded m] poll
      consider n where "res = Ready (Inr n)" | e where "res = Ready (Inl e)" | "res = Pending"
        by (metis poll.exhaust sum.exhaust)
      then show ?thesis
      proof cases
        case (1 n)
        with step show ?thesis by (intro ok [of ps p a rest w n w1 r]) simp_all
      next
        case (2 e)
        with step show ?thesis by (intro err [of ps p a rest w e w1 r]) (simp_all add: same_buffer)
      next
        case 3
        with step pend [of ps p a rest w w1] show ?thesis by (simp add: same_buffer)
      qed
    qed
  qed
  then show ?thesis by simp
qed

lemma send_outgoing_returns:
  assumes "\<And>d a w e w'. poll_send_to (udp E) (ps_socket ps) d a w \<noteq> (Ready (Inl e), w')"
  shows "\<exists>ps' w'. send_outgoing E ps w = ret (ps', w')"
  using assms
proof (induction "outgoing_buffer ps" arbitrary: ps w)
  case Nil
  then show ?case by (subst send_outgoing.simps) simp
next
  case (Cons m rest)
  obtain p a where m: "m = (p, a)" by fastforce
  obtain res w1 where
    poll: "poll_send_to (udp E) (ps_socket ps) (bytes_from_packet (buf E) p) a w = (res, w1)"
    by fastforce
  have IH: "\<exists>ps' w'. send_outgoing E (ps\<lparr>outgoing_buffer := rest\<rparr>) w1 = ret (ps', w')"
    using Cons.hyps(1) [of "ps\<lparr>outgoing_buffer := rest\<rparr>"] Cons.prems by simp
  consider n where "res = Ready (Inr n)" | "res = Pending"
    using Cons.prems poll by (metis poll.exhaust sum.exhaust)
  then show ?case
    using Cons.hyps(2) [symmetric] m poll IH by cases (subst send_outgoing.simps; simp)+
qed

context udp_sockets
begin

lemma send_outgoing_spec:
  assumes "send_outgoing E ps w = Some r"
  shows "\<exists>b w' out. r = Ret (ps\<lparr>outgoing_buffer := b\<rparr>, w') \<and> outgoing_buffer ps = out @ b \<and>
    view w' = upd_sent (ps_socket ps) (sent (view w) (ps_socket ps) @ datagrams (buf E) out) (view w)"
  using assms
proof (induction rule: send_outgoing_induct)
  case (empty ps w)
  then show ?case
    by (intro exI [of _ "[]"] exI [of _ w]) (simp add: same_buffer upd_same datagrams_def)
next
  case (ok ps w p a rest n w1 r)
  then obtain b w' out where "r = Ret (ps\<lparr>outgoing_buffer := b\<rparr>, w')" "rest = out @ b"
    "view w' = upd_sent (ps_socket ps)
      (sent (view w1) (ps_socket ps) @ datagrams (buf E) out) (view w1)"
    by (simp del: fun_upd_apply) blast
  moreover have "upd_sent (ps_socket ps) (sent (view w1) (ps_socket ps) @ datagrams (buf E) out) (view w1) =
      upd_sent (ps_socket ps) (sent (view w) (ps_socket ps) @ datagrams (buf E) ((p, a) # out)) (view w)"
    unfolding send_to_ok [OF ok(2)] by (simp add: datagrams_def)
  ultimately show ?case
    using ok(1) by (metis append_Cons)
next
  case (err ps w p a rest e w1 r)
  then show ?case using send_to_err [OF err(2)] by simp
next
  case (pend ps w p a rest w1)
  then show ?case
    using send_to_pending [OF pend(2)]
    by (intro exI [of _ "(p, a) # rest"], intro exI [of _ w1], intro exI [of _ "[]"])
      (simp add: same_buffer upd_same datagrams_def)
qed

end

section \<open>Properties\<close>

context outbound_channels
begin

lemma sender_returns:
  assumes "\<And>d a w e w'. poll_send_to (udp E) (ps_socket ps) d a w \<noteq> (Ready (Inl e), w')"
  shows "\<exists>r ps' w'. packet_sender_poll E ps w = ret (r, ps', w')"
proof -
  from fetch_spec [of ps w] obtain closed b w1 where
    "fetch_outgoing E ps w = ret (closed, ps\<lparr>outgoing_buffer := outgoing_buffer ps @ b\<rparr>, w1)"
    by blast
  moreover have "\<exists>ps' w'. send_outgoing E (ps\<lparr>outgoing_buffer := outgoing_buffer ps @ b\<rparr>) w1 =
      ret (ps', w')"
    using assms by (intro send_outgoing_returns) simp
  ultimately show ?thesis
    by (auto simp: packet_sender_poll_def)
qed

end

text \<open>
  The whole poll: what is handed to the UDP socket, followed by what stays in the buffer and
  in the channel, is what was in the buffer and the channel before, and nothing else changes.
\<close>

lemma packet_sender_poll_spec:
  assumes "outbound_channels E view" and "udp_sockets E view"
    and "packet_sender_poll E ps w = ret (r, ps', w')"
  obtains out b q where "ps' = ps\<lparr>outgoing_buffer := b\<rparr>"
    "outgoing_buffer ps @ out_q (view w) (outgoing_rx ps) = out @ b @ q"
    "view w' = upd_sent (ps_socket ps) (sent (view w) (ps_socket ps) @ datagrams (buf E) out)
      (upd_out_q (outgoing_rx ps) q (view w))"
proof (cases "alive E (ps_socket ps) w")
  case False
  with assms(3) have "ps' = ps" "w' = w" by (simp_all add: packet_sender_poll_def)
  then show ?thesis
    by (intro that [of "outgoing_buffer ps" "[]" "out_q (view w) (outgoing_rx ps)"])
      (simp_all add: datagrams_def same_buffer upd_same [OF refl])
next
  case True
  obtain closed b q w1 where fetch:
    "fetch_outgoing E ps w = ret (closed, ps\<lparr>outgoing_buffer := outgoing_buffer ps @ b\<rparr>, w1)"
    and q: "out_q (view w) (outgoing_rx ps) = b @ q"
    and v: "view w1 = upd_out_q (outgoing_rx ps) q (view w)"
    using outbound_channels.fetch_spec [OF assms(1), of ps w] by blast
  show ?thesis
  proof (cases closed)
    case True
    with assms(3) fetch \<open>alive E (ps_socket ps) w\<close>
    have "ps' = ps\<lparr>outgoing_buffer := outgoing_buffer ps @ b\<rparr>" "w' = w1"
      by (simp_all add: packet_sender_poll_def)
    with q v show ?thesis by (intro that [of _ "[]" q]) (simp_all add: datagrams_def upd_same)
  next
    case False
    with assms(3) fetch True have
      "send_outgoing E (ps\<lparr>outgoing_buffer := outgoing_buffer ps @ b\<rparr>) w1 = ret (ps', w')"
      by (auto simp: packet_sender_poll_def run_bind_ret_iff)
    from udp_sockets.send_outgoing_spec [OF assms(2) this] v obtain b' out where
      "ps' = ps\<lparr>outgoing_buffer := b'\<rparr>" "outgoing_buffer ps @ b = out @ b'"
      "view w' = upd_sent (ps_socket ps) (sent (view w) (ps_socket ps) @ datagrams (buf E) out)
        (upd_out_q (outgoing_rx ps) q (view w))" by auto
    with q show ?thesis by (intro that [of b' out q]) simp_all
  qed
qed

text \<open>
  C13. A poll of the sender task neither loses, repeats nor reorders a packet: the datagrams it
  hands to the UDP socket are the encodings of a prefix of the queue (buffer, then channel),
  and the rest of the queue is still there, in order.
\<close>

theorem sender_fifo:
  assumes "runtime E view" and "packet_sender_poll E ps w = ret (r, ps', w')"
  shows "\<exists>out. sent (view w') (ps_socket ps) = sent (view w) (ps_socket ps) @ datagrams (buf E) out \<and>
    outgoing_buffer ps @ out_q (view w) (outgoing_rx ps) =
      out @ outgoing_buffer ps' @ out_q (view w') (outgoing_rx ps')"
proof -
  from assms(1) have "outbound_channels E view" "udp_sockets E view"
    by (simp_all add: runtime_def)
  then show ?thesis by (rule packet_sender_poll_spec [OF _ _ assms(2)]) auto
qed

text \<open>
  C27. A poll of the sender task returns whenever the UDP socket reports no error.
\<close>

theorem sender_poll_returns:
  assumes "runtime E view"
    and "\<And>d a w e w'. poll_send_to (udp E) (ps_socket ps) d a w \<noteq> (Ready (Inl e), w')"
  shows "\<exists>r ps' w'. packet_sender_poll E ps w = ret (r, ps', w')"
proof -
  from assms(1) have "outbound_channels E view" by (simp add: runtime_def)
  then show ?thesis by (rule outbound_channels.sender_returns [OF _ assms(2)])
qed

section \<open>A packet that is refused\<close>

text \<open>
  The UDP socket answers \<open>n\<close> attempts to send a datagram with an error, and then makes the task
  wait.
\<close>

fun gives_up :: "'w ext \<Rightarrow> handle \<Rightarrow> bytes \<Rightarrow> socket_addr \<Rightarrow> nat \<Rightarrow> 'w \<Rightarrow> bool" where
  "gives_up E h d a 0 w = (case poll_send_to (udp E) h d a w of (Pending, w) \<Rightarrow> True | _ \<Rightarrow> False)"
| "gives_up E h d a (Suc n) w =
     (case poll_send_to (udp E) h d a w of (Ready (Inl e), w) \<Rightarrow> gives_up E h d a n w | _ \<Rightarrow> False)"

text \<open>The task is polled, and in between packets are queued.\<close>

inductive sender_step ::
  "'w ext \<Rightarrow> ('w \<Rightarrow> rt) \<Rightarrow> packet_sender \<times> 'w \<Rightarrow> packet_sender \<times> 'w \<Rightarrow> bool"
  for E :: "'w ext" and view :: "'w \<Rightarrow> rt"
where
  polled: "packet_sender_poll E ps w = ret (r, ps', w') \<Longrightarrow> sender_step E view (ps, w) (ps', w')"
| queues: "out_q (view w') (outgoing_rx ps) = out_q (view w) (outgoing_rx ps) @ q \<Longrightarrow>
    sent (view w') (ps_socket ps) = sent (view w) (ps_socket ps) \<Longrightarrow>
    sender_step E view (ps, w) (ps, w')"

definition stuck_behind ::
  "('w \<Rightarrow> rt) \<Rightarrow> handle \<Rightarrow> (bytes \<times> socket_addr) list \<Rightarrow> (packet \<times> socket_addr) list \<Rightarrow>
    packet_sender \<times> 'w \<Rightarrow> bool"
where
  "stuck_behind view h old items x \<longleftrightarrow> (case x of (ps, w) \<Rightarrow>
     ps_socket ps = h \<and> sent (view w) h = old \<and>
     (\<exists>q. outgoing_buffer ps @ out_q (view w) (outgoing_rx ps) = items @ q))"

locale refused_packet = runtime E view for E :: "'w ext" and view :: "'w \<Rightarrow> rt" +
  fixes h :: handle and p :: packet and a :: socket_addr
  assumes refused: "\<exists>n. gives_up E h (bytes_from_packet (buf E) p) a n w"
begin

lemma send_outgoing_refused:
  assumes "outgoing_buffer ps = (p, a) # rest" and "ps_socket ps = h"
    and "gives_up E h (bytes_from_packet (buf E) p) a n w"
  shows "\<exists>w'. send_outgoing E ps w = ret (ps, w') \<and> view w' = view w"
  using assms(3)
proof (induction n arbitrary: w)
  case 0
  then obtain w' where "poll_send_to (udp E) h (bytes_from_packet (buf E) p) a w = (Pending, w')"
    by (auto split: prod.splits poll.splits)
  with assms(1,2) send_to_pending [OF this] show ?case
    by (subst send_outgoing.simps) (simp add: same_buffer)
next
  case (Suc n)
  then obtain e w1 where
    poll: "poll_send_to (udp E) h (bytes_from_packet (buf E) p) a w = (Ready (Inl e), w1)"
    "gives_up E h (bytes_from_packet (buf E) p) a n w1"
    by (auto split: prod.splits poll.splits sum.splits)
  with assms(1,2) have "send_outgoing E ps w = send_outgoing E ps w1"
    by (subst send_outgoing.simps) (simp add: same_buffer)
  with Suc.IH [OF poll(2)] send_to_err [OF poll(1)] show ?case by simp
qed

lemma poll_refused:
  assumes "ps_socket ps = h" and "outgoing_buffer ps @ out_q (view w) (outgoing_rx ps) = (p, a) # rest"
  shows "\<exists>r b w'. packet_sender_poll E ps w = ret (r, ps\<lparr>outgoing_buffer := b\<rparr>, w') \<and>
    b @ out_q (view w') (outgoing_rx ps) = (p, a) # rest \<and> sent (view w') = sent (view w)"
proof (cases "alive E h w")
  case False
  with assms show ?thesis
    by (intro exI [of _ "Ready ()"] exI [of _ "outgoing_buffer ps"] exI [of _ w])
      (simp add: packet_sender_poll_def same_buffer)
next
  case True
  obtain closed b q w1 where fetch:
    "fetch_outgoing E ps w = ret (closed, ps\<lparr>outgoing_buffer := outgoing_buffer ps @ b\<rparr>, w1)"
    "out_q (view w) (outgoing_rx ps) = b @ q" "view w1 = upd_out_q (outgoing_rx ps) q (view w)"
    using fetch_spec [of ps w] by blast
  let ?ps = "ps\<lparr>outgoing_buffer := outgoing_buffer ps @ b\<rparr>"
  have "\<exists>w'. send_outgoing E ?ps w1 = ret (?ps, w') \<and> view w' = view w1"
  proof (cases "outgoing_buffer ps @ b")
    case Nil
    then show ?thesis by (subst send_outgoing.simps) simp
  next
    case (Cons m ms)
    with assms(2) fetch(2) have "outgoing_buffer ?ps = (p, a) # ms" by (cases "outgoing_buffer ps") auto
    with send_outgoing_refused [of ?ps ms] refused [of w1] assms(1) show ?thesis by auto
  qed
  with fetch assms True show ?thesis
    by (cases closed) (auto simp: packet_sender_poll_def intro!: exI [of _ "outgoing_buffer ps @ b"])
qed

end

sublocale refused_packet \<subseteq>
  invariant "sender_step E view" "stuck_behind view h old ((p, a) # rest)" for old rest
proof
  fix x y
  assume "sender_step E view x y" and inv: "stuck_behind view h old ((p, a) # rest) x"
  then show "stuck_behind view h old ((p, a) # rest) y"
  proof cases
    case (polled ps w r ps' w')
    with inv poll_refused [of ps w] show ?thesis by (fastforce simp: stuck_behind_def)
  next
    case (queues w' ps w q)
    from inv queues(1) obtain q0 where
      old: "outgoing_buffer ps @ out_q (view w) (outgoing_rx ps) = ((p, a) # rest) @ q0"
      by (auto simp: stuck_behind_def)
    have "outgoing_buffer ps @ out_q (view w') (outgoing_rx ps) = ((p, a) # rest) @ q0 @ q"
      unfolding queues(3) using old by (simp only: append_assoc [symmetric])
    with inv queues(1,2,4) show ?thesis by (auto simp: stuck_behind_def)
  qed
qed

context refused_packet
begin

lemmas stuck_reachable = reachable_inv

end

text \<open>
  C28. A packet that the UDP socket refuses (every series of attempts to send it ends, after some
  number of errors, with the task waiting) holds up all the packets behind it, whatever their
  destination: however often the task is polled, and whatever is queued in between, every poll
  returns, the packet is still the first of the queue, and nothing more is handed to the UDP
  socket.
\<close>

theorem refused_packet_blocks:
  assumes "runtime E view"
    and "\<And>w. \<exists>n. gives_up E (ps_socket ps) (bytes_from_packet (buf E) p) a n w"
    and "outgoing_buffer ps @ out_q (view w) (outgoing_rx ps) = (p, a) # rest"
    and "(sender_step E view)\<^sup>*\<^sup>* (ps, w) (ps', w')"
  shows "(\<exists>r ps2 w2. packet_sender_poll E ps' w' = ret (r, ps2, w2)) \<and>
    (\<exists>q. outgoing_buffer ps' @ out_q (view w') (outgoing_rx ps') = (p, a) # rest @ q) \<and>
    sent (view w') (ps_socket ps) = sent (view w) (ps_socket ps)"
proof -
  have loc: "refused_packet E view (ps_socket ps) p a"
    using assms(1,2) by (simp add: refused_packet_def refused_packet_axioms_def)
  have "stuck_behind view (ps_socket ps) (sent (view w) (ps_socket ps)) ((p, a) # rest) (ps, w)"
    using assms(3) by (simp add: stuck_behind_def)
  from refused_packet.stuck_reachable [OF loc assms(4) this] obtain q where
    now: "ps_socket ps' = ps_socket ps" "sent (view w') (ps_socket ps) = sent (view w) (ps_socket ps)"
    "outgoing_buffer ps' @ out_q (view w') (outgoing_rx ps') = (p, a) # rest @ q"
    by (auto simp: stuck_behind_def)
  with refused_packet.poll_refused [OF loc now(1,3)] show ?thesis by blast
qed

section \<open>Examples\<close>

text \<open>A sender with one packet in its buffer and one in its channel.\<close>

definition example_sender :: packet_sender where
  "example_sender = \<lparr>ps_socket = 1, ps_local_addr = SocketAddrV4 0 1, outgoing_rx = 2,
     outgoing_buffer = [(example_packet, SocketAddrV4 0 2)]\<rparr>"

definition example_out_world :: sim where
  "example_out_world = sim_init\<lparr>out_q := (\<lambda>_. [])(2 := [(example_packet, SocketAddrV4 0 3)])\<rparr>"

text \<open>
  A UDP socket that refuses one destination, with an error every other time, and takes what is
  sent to the others.
\<close>

definition refusing_ext :: "sim ext" where
  "refusing_ext = sim_env\<lparr>udp := sim_udp\<lparr>poll_send_to := \<lambda>h d a w.
     if a \<noteq> SocketAddrV4 0 2 then poll_send_to sim_udp h d a w
     else if even (sim_clock w) then (Ready (Inl (IoOs 101)), w\<lparr>sim_clock := sim_clock w + 1\<rparr>)
     else (Pending, w\<lparr>sim_clock := sim_clock w + 1\<rparr>)\<rparr>\<rparr>"

lemmas utp_packet_sender_examples [example_eval] = example_sender_def example_out_world_def refusing_ext_def

lemma refusing_runtime: "prompt_runtime refusing_ext sim_view"
  unfolding refusing_ext_def
  by (rule prompt_runtime_with_udp [OF sim_rt.prompt_runtime_axioms])
    (unfold_locales; auto simp: sim_proof split: list.splits prod.splits if_splits)

lemma refusing_gives_up: "\<exists>n. gives_up refusing_ext h d (SocketAddrV4 0 2) n w"
proof (cases "even (sim_clock w)")
  case True
  then have "gives_up refusing_ext h d (SocketAddrV4 0 2) (Suc 0) w" by (simp add: refusing_ext_def)
  then show ?thesis by blast
next
  case False
  then have "gives_up refusing_ext h d (SocketAddrV4 0 2) 0 w" by (simp add: refusing_ext_def)
  then show ?thesis by blast
qed

interpretation sim_refused: refused_packet refusing_ext sim_view 1 example_packet "SocketAddrV4 0 2"
  using refusing_runtime refusing_gives_up
  by (simp add: refused_packet_def refused_packet_axioms_def prompt_runtime_def)

theorem refused_packet_blocks_witness:
  "\<exists>r ps' w'. packet_sender_poll refusing_ext example_sender example_out_world = ret (r, ps', w') \<and>
     sent w' 1 = [] \<and> (\<exists>q. outgoing_buffer ps' @ out_q w' (outgoing_rx ps') =
       [(example_packet, SocketAddrV4 0 2), (example_packet, SocketAddrV4 0 3)] @ q)"
proof -
  have rt: "runtime refusing_ext sim_view" using refusing_runtime by (simp add: prompt_runtime_def)
  note blocks = refused_packet_blocks [where ps = example_sender and p = example_packet and a = "SocketAddrV4 0 2" and
      w = example_out_world and rest = "[(example_packet, SocketAddrV4 0 3)]", OF rt refusing_gives_up]
  from blocks [OF _ rtranclp.rtrancl_refl] obtain r ps' w' where
    run: "packet_sender_poll refusing_ext example_sender example_out_world = ret (r, ps', w')"
    by (auto simp: example_sender_def example_out_world_def)
  from blocks [OF _ r_into_rtranclp [of "sender_step refusing_ext sim_view", OF polled, OF run]] run
  show ?thesis by (auto simp: example_sender_def example_out_world_def sim_init_def)
qed

lemma example_sender_run:
  "\<exists>r ps' w'. packet_sender_poll sim_env example_sender example_out_world = ret (r, ps', w')"
  by (rule exI)+ (simp add: packet_sender_poll_def example_eval sim_eval fetch_outgoing.simps send_outgoing.simps)

theorem sender_fifo_witness:
  "\<exists>r ps' w' out. packet_sender_poll sim_env example_sender example_out_world = ret (r, ps', w') \<and>
     sent (sim_view w') 1 = datagrams list_buf out \<and>
     [(example_packet, SocketAddrV4 0 2), (example_packet, SocketAddrV4 0 3)] =
       out @ outgoing_buffer ps' @ out_q (sim_view w') (outgoing_rx ps')"
proof -
  obtain r ps' w' where run: "packet_sender_poll sim_env example_sender example_out_world = ret (r, ps', w')"
    using example_sender_run by blast
  from sender_fifo [OF sim_rt.runtime_axioms run] run show ?thesis
    by (auto simp: example_eval sim_env_def)
qed

theorem sender_poll_returns_witness:
  "\<exists>r ps' w'. packet_sender_poll sim_env example_sender example_out_world = ret (r, ps', w')"
  by (rule sender_poll_returns [OF sim_rt.runtime_axioms]) simp

end
