(* ===== verification/Utp_Packet_Receiver.thy ===== *)
theory Utp_Packet_Receiver
  imports Runtime_Interface
begin

text \<open>
  The task of \<open>src/src/socket/packet_receiver.rs\<close> that reads datagrams from the UDP socket,
  decodes them and routes each packet: a SYN to the channel of the listeners, any other packet
  to the channel that the routing table holds for its connection id and sender.
\<close>

section \<open>Definitions\<close>

definition MAX_DATAGRAM_SIZE :: nat where
  "MAX_DATAGRAM_SIZE = 1472"

record packet_receiver =
  pr_socket :: handle
  pr_local_addr :: socket_addr
  syn_tx :: handle
  pr_routing_table :: handle

text \<open>Routing of one packet; the flag tells whether the task shuts down.\<close>

definition route_packet ::
  "'w ext \<Rightarrow> packet_receiver \<Rightarrow> packet \<Rightarrow> socket_addr \<Rightarrow> 'w \<Rightarrow> bool \<times> 'w"
where
  "route_packet E pr packet remote_addr w =
     (if packet_type packet = Syn then
        (case send (outbound E) (syn_tx pr) (packet, remote_addr) w of
           (True, w) \<Rightarrow> (False, w)
         | (False, w) \<Rightarrow> (True, w))
      else if \<not> alive E (pr_routing_table pr) w then (True, w)
      else
        (let key = (connection_id packet, remote_addr) in
         case table_get (table E) (pr_routing_table pr) key w of
           None \<Rightarrow> (False, w)
         | Some sender \<Rightarrow>
             (case send (inbound E) sender packet w of
                (True, w) \<Rightarrow> (False, w)
              | (False, w) \<Rightarrow> (False, table_remove (table E) (pr_routing_table pr) key w))))"

partial_function (option) receive_loop ::
  "'w ext \<Rightarrow> packet_receiver \<Rightarrow> 'w \<Rightarrow> (unit poll \<times> 'w) run"
where
  "receive_loop E pr w =
     (case poll_recv_ready (udp E) (pr_socket pr) w of
        (Ready (Inr _), w) \<Rightarrow>
          (case poll_recv_from (udp E) (pr_socket pr) MAX_DATAGRAM_SIZE w of
             (Ready (Inr (filled, remote_addr)), w) \<Rightarrow>
               run_bind (packet_try_from (buf E) filled) (\<lambda>r. case r of
                   Inl err \<Rightarrow> receive_loop E pr w
                 | Inr packet \<Rightarrow>
                     (case route_packet E pr packet remote_addr w of
                        (shutdown, w) \<Rightarrow>
                          if shutdown then ret (Ready (), w) else receive_loop E pr w))
           | (Ready (Inl err), w) \<Rightarrow> receive_loop E pr w
           | (Pending, w) \<Rightarrow> ret (Pending, w))
      | (Ready (Inl err), w) \<Rightarrow> ret (Ready (), w)
      | (Pending, w) \<Rightarrow> ret (Pending, w))"

definition packet_receiver_poll ::
  "'w ext \<Rightarrow> packet_receiver \<Rightarrow> 'w \<Rightarrow> (unit poll \<times> 'w) run"
where
  "packet_receiver_poll E pr w =
     (if \<not> alive E (pr_socket pr) w then ret (Ready (), w) else receive_loop E pr w)"

section \<open>What should be delivered\<close>

text \<open>
  The packet in a datagram, if it holds one, after the receive buffer has cut it; the packets
  in a sequence of datagrams that belong to a connection, and the SYN packets among them.
\<close>

definition decode_datagram :: "buf_api \<Rightarrow> bytes \<Rightarrow> packet option" where
  "decode_datagram B d = decode_packet B (take MAX_DATAGRAM_SIZE d)"

fun packets_for :: "buf_api \<Rightarrow> conn_key \<Rightarrow> (bytes \<times> socket_addr) list \<Rightarrow> packet list" where
  "packets_for B k [] = []"
| "packets_for B k ((d, a) # ds) =
     (case decode_datagram B d of
        Some p \<Rightarrow> if packet_type p \<noteq> Syn \<and> (connection_id p, a) = k then p # packets_for B k ds
                  else packets_for B k ds
      | None \<Rightarrow> packets_for B k ds)"

fun syns_in :: "buf_api \<Rightarrow> (bytes \<times> socket_addr) list \<Rightarrow> (packet \<times> socket_addr) list" where
  "syns_in B [] = []"
| "syns_in B ((d, a) # ds) =
     (case decode_datagram B d of
        Some p \<Rightarrow> if packet_type p = Syn then (p, a) # syns_in B ds else syns_in B ds
      | None \<Rightarrow> syns_in B ds)"

text \<open>No two connections share a channel.\<close>

definition table_inv :: "rt \<Rightarrow> bool" where
  "table_inv v \<longleftrightarrow> (\<forall>h k c. tables v h k = Some c \<longrightarrow> in_made v c) \<and>
     (\<forall>h k h' k' c. tables v h k = Some c \<longrightarrow> tables v h' k' = Some c \<longrightarrow> h = h' \<and> k = k')"

text \<open>What a receiver task leaves alone.\<close>

definition receiver_frame :: "packet_receiver \<Rightarrow> rt \<Rightarrow> rt \<Rightarrow> bool" where
  "receiver_frame pr v v' \<longleftrightarrow> sent v' = sent v \<and> in_rx v' = in_rx v \<and> out_rx v' = out_rx v \<and>
     in_made v' = in_made v \<and> (\<forall>h. h \<noteq> pr_socket pr \<longrightarrow> arrived v' h = arrived v h) \<and>
     (\<forall>c. c \<noteq> syn_tx pr \<longrightarrow> out_q v' c = out_q v c) \<and>
     (\<forall>h. h \<noteq> pr_routing_table pr \<longrightarrow> tables v' h = tables v h) \<and>
     (\<forall>k c. tables v' (pr_routing_table pr) k = Some c \<longrightarrow> tables v (pr_routing_table pr) k = Some c) \<and>
     (\<forall>c. (\<forall>k. tables v (pr_routing_table pr) k \<noteq> Some c) \<longrightarrow> in_q v' c = in_q v c)"

lemma receiver_frame_trans:
  "receiver_frame pr v v' \<Longrightarrow> receiver_frame pr v' v'' \<Longrightarrow> receiver_frame pr v v''"
  unfolding receiver_frame_def by (intro conjI allI impI; (elim conjE)?; (simp; fail | metis))

lemma receiver_frame_table_inv: "receiver_frame pr v v' \<Longrightarrow> table_inv v \<Longrightarrow> table_inv v'"
  unfolding receiver_frame_def table_inv_def by metis

section \<open>Routing one packet\<close>

context runtime
begin

lemma route_syn:
  assumes "packet_type p = Syn" and "route_packet E pr p a w = (stop, w')"
  shows "stop = (\<not> out_rx (view w) (syn_tx pr)) \<and>
    view w' = (if stop then view w
      else upd_out_q (syn_tx pr) (out_q (view w) (syn_tx pr) @ [(p, a)]) (view w))"
proof -
  obtain ok w1 where "send (outbound E) (syn_tx pr) (p, a) w = (ok, w1)" by fastforce
  with out_send [OF this] assms show ?thesis
    by (cases ok) (auto simp: route_packet_def)
qed

lemma route_other:
  assumes "packet_type p \<noteq> Syn" and "alive E (pr_routing_table pr) w"
    and "route_packet E pr p a w = (stop, w')"
  shows "\<not> stop \<and> view w' = (case tables (view w) (pr_routing_table pr) (connection_id p, a) of
      None \<Rightarrow> view w
    | Some c \<Rightarrow> if in_rx (view w) c then upd_in_q c (in_q (view w) c @ [p]) (view w)
        else upd_table (pr_routing_table pr)
          ((tables (view w) (pr_routing_table pr))((connection_id p, a) := None)) (view w))"
proof (cases "tables (view w) (pr_routing_table pr) (connection_id p, a)")
  case None
  with assms show ?thesis by (simp add: route_packet_def get_spec Let_def)
next
  case (Some c)
  obtain ok w1 where "send (inbound E) c p w = (ok, w1)" by fastforce
  with in_send [OF this] assms Some show ?thesis
    by (cases ok) (auto simp: route_packet_def get_spec remove_spec Let_def)
qed

lemma route_frame:
  assumes "alive E (pr_routing_table pr) w" and "route_packet E pr p a w = (stop, w')"
  shows "arrived (view w') = arrived (view w)" "out_rx (view w') = out_rx (view w)"
    "in_rx (view w') = in_rx (view w)" "table_inv (view w) \<Longrightarrow> table_inv (view w')"
  using route_syn [of p pr a w stop w'] route_other [of p pr w a stop w'] assms
  by (cases "packet_type p = Syn";
      auto simp: table_inv_def split: option.splits if_splits)+

end

section \<open>The receive loop\<close>

text \<open>Induction over the rounds of the loop, for a call that returns.\<close>

lemma receive_loop_induct [consumes 1, case_names idle idle_read failed bad_read bad routed stop]:
  assumes returns: "receive_loop E pr w = Some r"
    and idle: "\<And>w res w1 r. poll_recv_ready (udp E) (pr_socket pr) w = (res, w1) \<Longrightarrow>
      r \<in> {Ready (), Pending} \<Longrightarrow> P w (Ret (r, w1))"
    and idle_read: "\<And>w u w1 w2. poll_recv_ready (udp E) (pr_socket pr) w = (Ready (Inr u), w1) \<Longrightarrow>
      poll_recv_from (udp E) (pr_socket pr) MAX_DATAGRAM_SIZE w1 = (Pending, w2) \<Longrightarrow>
      P w (Ret (Pending, w2))"
    and failed: "\<And>w u w1 e w2 r. poll_recv_ready (udp E) (pr_socket pr) w = (Ready (Inr u), w1) \<Longrightarrow>
      poll_recv_from (udp E) (pr_socket pr) MAX_DATAGRAM_SIZE w1 = (Ready (Inl e), w2) \<Longrightarrow>
      P w2 r \<Longrightarrow> P w r"
    and bad_read: "\<And>w u w1 d a w2 p. poll_recv_ready (udp E) (pr_socket pr) w = (Ready (Inr u), w1) \<Longrightarrow>
      poll_recv_from (udp E) (pr_socket pr) MAX_DATAGRAM_SIZE w1 = (Ready (Inr (d, a)), w2) \<Longrightarrow>
      packet_try_from (buf E) d = abort p \<Longrightarrow> P w (Panic p)"
    and bad: "\<And>w u w1 d a w2 e r. poll_recv_ready (udp E) (pr_socket pr) w = (Ready (Inr u), w1) \<Longrightarrow>
      poll_recv_from (udp E) (pr_socket pr) MAX_DATAGRAM_SIZE w1 = (Ready (Inr (d, a)), w2) \<Longrightarrow>
      packet_try_from (buf E) d = ret (Inl e) \<Longrightarrow> P w2 r \<Longrightarrow> P w r"
    and routed: "\<And>w u w1 d a w2 p w3 r. poll_recv_ready (udp E) (pr_socket pr) w = (Ready (Inr u), w1) \<Longrightarrow>
      poll_recv_from (udp E) (pr_socket pr) MAX_DATAGRAM_SIZE w1 = (Ready (Inr (d, a)), w2) \<Longrightarrow>
      packet_try_from (buf E) d = ret (Inr p) \<Longrightarrow> route_packet E pr p a w2 = (False, w3) \<Longrightarrow>
      P w3 r \<Longrightarrow> P w r"
    and stop: "\<And>w u w1 d a w2 p w3. poll_recv_ready (udp E) (pr_socket pr) w = (Ready (Inr u), w1) \<Longrightarrow>
      poll_recv_from (udp E) (pr_socket pr) MAX_DATAGRAM_SIZE w1 = (Ready (Inr (d, a)), w2) \<Longrightarrow>
      packet_try_from (buf E) d = ret (Inr p) \<Longrightarrow> route_packet E pr p a w2 = (True, w3) \<Longrightarrow>
      P w (Ret (Ready (), w3))"
  shows "P w r"
proof -
  have "E = E \<and> pr = pr \<longrightarrow> P w r"
  proof (rule receive_loop.raw_induct
      [where P = "\<lambda>E' pr' w r. E' = E \<and> pr' = pr \<longrightarrow> P w r", OF _ returns],
      intro impI, elim conjE, goal_cases)
    case (1 f E' pr' w r)
    note IH = 1(1) [of E pr] and eq = 1(2) [unfolded 1(3,4)]
    obtain res w1 where ready: "poll_recv_ready (udp E) (pr_socket pr) w = (res, w1)" by fastforce
    obtain got w2 where
      got: "poll_recv_from (udp E) (pr_socket pr) MAX_DATAGRAM_SIZE w1 = (got, w2)" by fastforce
    consider u where "res = Ready (Inr u)" | e where "res = Ready (Inl e)" | "res = Pending"
      by (metis poll.exhaust sum.exhaust)
    then show ?case
    proof cases
      case (1 u)
      consider d a where "got = Ready (Inr (d, a))" | e where "got = Ready (Inl e)" | "got = Pending"
        by (metis poll.exhaust sum.exhaust surj_pair)
      then show ?thesis
      proof cases
        case (1 d a)
        note now = ready [unfolded \<open>res = Ready (Inr u)\<close>] got [unfolded 1]
        show ?thesis
        proof (cases "packet_try_from (buf E) d" rule: run_sum_cases)
          case (panics p)
          with eq now bad_read [OF now panics] show ?thesis by auto
        next
          case (fails e)
          with eq now bad [OF now fails, of r] IH [of w2 r] show ?thesis by simp
        next
          case (returns p)
          obtain st w3 where "route_packet E pr p a w2 = (st, w3)" by fastforce
          with returns eq now stop [OF now returns, of w3] routed [OF now returns, of w3 r] IH [of w3 r]
          show ?thesis by (cases st) auto
        qed (use eq now in simp)
      next
        case (2 e)
        with eq ready got \<open>res = _\<close> failed [of w u w1 e w2 r] IH [of w2 r] show ?thesis by simp
      next
        case 3
        with eq ready got \<open>res = _\<close> idle_read [of w u w1 w2] show ?thesis by auto
      qed
    qed (use eq ready idle [OF ready] in auto)
  qed
  then show ?thesis by simp
qed

context runtime
begin

text \<open>What one routed packet adds to the channel of a live connection and to the SYN channel.\<close>

lemma route_step:
  assumes "alive E (pr_routing_table pr) w" and "route_packet E pr p a w = (stop, w')"
    and "table_inv (view w)" and "tables (view w) (pr_routing_table pr) k = Some c"
    and "in_rx (view w) c" and "out_rx (view w) (syn_tx pr)"
  shows "\<not> stop" "tables (view w') (pr_routing_table pr) k = Some c"
    "in_q (view w') c = in_q (view w) c @
      (if packet_type p \<noteq> Syn \<and> (connection_id p, a) = k then [p] else [])"
    "out_q (view w') (syn_tx pr) = out_q (view w) (syn_tx pr) @
      (if packet_type p = Syn then [(p, a)] else [])"
proof -
  have "\<not> stop \<and> tables (view w') (pr_routing_table pr) k = Some c \<and>
    in_q (view w') c = in_q (view w) c @
      (if packet_type p \<noteq> Syn \<and> (connection_id p, a) = k then [p] else []) \<and>
    out_q (view w') (syn_tx pr) = out_q (view w) (syn_tx pr) @
      (if packet_type p = Syn then [(p, a)] else [])"
  proof (cases "packet_type p = Syn")
    case True
    with route_syn [OF True assms(2)] assms show ?thesis by simp
  next
    case False
    note r = route_other [OF False assms(1,2)]
    show ?thesis
    proof (cases "(connection_id p, a) = k")
      case True
      with r assms False show ?thesis by simp
    next
      case other: False
      have "c' \<noteq> c" if "tables (view w) (pr_routing_table pr) (connection_id p, a) = Some c'" for c'
        using that assms(3,4) other unfolding table_inv_def by blast
      with r other False assms(4) show ?thesis
        by (cases "tables (view w) (pr_routing_table pr) (connection_id p, a)") simp_all
    qed
  qed
  then show "\<not> stop" "tables (view w') (pr_routing_table pr) k = Some c"
    "in_q (view w') c = in_q (view w) c @
      (if packet_type p \<noteq> Syn \<and> (connection_id p, a) = k then [p] else [])"
    "out_q (view w') (syn_tx pr) = out_q (view w) (syn_tx pr) @
      (if packet_type p = Syn then [(p, a)] else [])"
    by blast+
qed

lemma decode_take:
  "packet_try_from (buf E) (take MAX_DATAGRAM_SIZE d) = ret (Inr p) \<Longrightarrow>
     decode_datagram (buf E) d = Some p"
  "packet_try_from (buf E) (take MAX_DATAGRAM_SIZE d) = ret (Inl e) \<Longrightarrow>
     decode_datagram (buf E) d = None"
  by (simp_all add: decode_datagram_def decode_packet_def)

lemma take_receiver_frame:
  assumes "poll_recv_ready (udp E) (pr_socket pr) w = (r, w1)"
    and "poll_recv_from (udp E) (pr_socket pr) n w1 = (Ready (Inr (d, a)), w2)"
  shows "receiver_frame pr (view w) (view w2)"
  using recv_from_ok [OF assms(2)] recv_ready [of "pr_socket pr" w] assms(1)
  by (auto simp: receiver_frame_def)

lemma receive_loop_routes:
  assumes "receive_loop E pr w = Some r" and "\<And>h w. alive E h w"
    and "table_inv (view w)" and "tables (view w) (pr_routing_table pr) k = Some c"
    and "in_rx (view w) c" and "out_rx (view w) (syn_tx pr)"
  shows "\<exists>res w' ds. r = Ret (res, w') \<and>
    arrived (view w) (pr_socket pr) = ds @ arrived (view w') (pr_socket pr) \<and>
    in_q (view w') c = in_q (view w) c @ packets_for (buf E) k ds \<and>
    out_q (view w') (syn_tx pr) = out_q (view w) (syn_tx pr) @ syns_in (buf E) ds \<and>
    tables (view w') (pr_routing_table pr) k = Some c"
  using assms(1,3-)
proof (induction rule: receive_loop_induct)
  case (idle w res w1 r)
  then show ?case using recv_ready [of "pr_socket pr" w] by (auto intro!: exI [of _ "[]"])
next
  case (idle_read w u w1 w2)
  then show ?case
    using recv_ready [of "pr_socket pr" w] recv_from_pending [OF idle_read(2)]
    by (auto intro!: exI [of _ "[]"])
next
  case (failed w u w1 e w2 r)
  then show ?case
    using recv_ready [of "pr_socket pr" w] recv_from_err [OF failed(2)] by simp
next
  case (bad_read w u w1 d a w2 p)
  then show ?case using try_from_total [of d] by simp
next
  case (bad w u w1 d a w2 e r)
  from recv_from_ok [OF bad(2)] recv_ready [of "pr_socket pr" w] bad(1) obtain d0 ds where
    v: "arrived (view w) (pr_socket pr) = (d0, a) # ds" "d = take MAX_DATAGRAM_SIZE d0"
    "view w2 = upd_arrived (pr_socket pr) ds (view w)" by auto
  with bad decode_take(2) [of d0 e] show ?case
    by (fastforce simp: table_inv_def intro: exI [of _ "(d0, a) # _"])
next
  case (routed w u w1 d a w2 p w3 r)
  from recv_from_ok [OF routed(2)] recv_ready [of "pr_socket pr" w] routed(1) obtain d0 ds where
    v: "arrived (view w) (pr_socket pr) = (d0, a) # ds" "d = take MAX_DATAGRAM_SIZE d0"
    "view w2 = upd_arrived (pr_socket pr) ds (view w)" by auto
  have inv: "table_inv (view w2)" using routed.prems(1) v(3) by (simp add: table_inv_def)
  note step = route_step [OF assms(2) routed(4) inv, of k c] route_frame [OF assms(2) routed(4)]
  from routed.IH inv step routed.prems v(3) obtain res w' ds' where
    "r = Ret (res, w')" "arrived (view w3) (pr_socket pr) = ds' @ arrived (view w') (pr_socket pr)"
    "in_q (view w') c = in_q (view w3) c @ packets_for (buf E) k ds'"
    "out_q (view w') (syn_tx pr) = out_q (view w3) (syn_tx pr) @ syns_in (buf E) ds'"
    "tables (view w') (pr_routing_table pr) k = Some c"
    by auto
  with step routed.prems v decode_take(1) [of d0 p] routed(3) show ?case
    by (intro exI [of _ res] exI [of _ w'] exI [of _ "(d0, a) # ds'"]) auto
next
  case (stop w u w1 d a w2 p w3)
  from recv_from_ok [OF stop(2)] recv_ready [of "pr_socket pr" w] stop(1) obtain ds where
    "view w2 = upd_arrived (pr_socket pr) ds (view w)" by auto
  with route_step(1) [OF assms(2) stop(4), of k c] stop.prems show ?case
    by (simp add: table_inv_def)
qed

lemma route_receiver_frame:
  assumes "alive E (pr_routing_table pr) w" and "route_packet E pr p a w = (stop, w')"
  shows "receiver_frame pr (view w) (view w')"
  using route_syn [of p pr a w stop w'] route_other [of p pr w a stop w'] assms
  by (cases "packet_type p = Syn")
    (auto simp: receiver_frame_def split: option.splits if_splits)

lemma receive_loop_frame:
  assumes "receive_loop E pr w = Some r" and "\<And>h w. alive E h w"
  shows "\<exists>res w'. r = Ret (res, w') \<and> receiver_frame pr (view w) (view w')"
  using assms(1)
proof (induction rule: receive_loop_induct)
  case (idle w res w1 r)
  then show ?case using recv_ready [of "pr_socket pr" w] by (simp add: receiver_frame_def)
next
  case (idle_read w u w1 w2)
  then show ?case
    using recv_ready [of "pr_socket pr" w] recv_from_pending [OF idle_read(2)]
    by (simp add: receiver_frame_def)
next
  case (failed w u w1 e w2 r)
  then show ?case
    using recv_ready [of "pr_socket pr" w] recv_from_err [OF failed(2)] by simp
next
  case (bad_read w u w1 d a w2 p)
  then show ?case using try_from_total [of d] by simp
next
  case (bad w u w1 d a w2 e r)
  with take_receiver_frame [OF bad(1,2)] receiver_frame_trans show ?case by blast
next
  case (routed w u w1 d a w2 p w3 r)
  with take_receiver_frame [OF routed(1,2)] route_receiver_frame [OF assms(2) routed(4)]
  show ?case by (blast intro: receiver_frame_trans)
next
  case (stop w u w1 d a w2 p w3)
  with take_receiver_frame [OF stop(1,2)] route_receiver_frame [OF assms(2) stop(4)]
  show ?case by (blast intro: receiver_frame_trans)
qed

lemma receive_loop_returns:
  assumes "\<And>w e w'. poll_recv_from (udp E) (pr_socket pr) MAX_DATAGRAM_SIZE w \<noteq> (Ready (Inl e), w')"
    and "\<And>h w. alive E h w"
  shows "\<exists>res w'. receive_loop E pr w = ret (res, w')"
proof (induction "length (arrived (view w) (pr_socket pr))" arbitrary: w rule: less_induct)
  case less
  obtain res w1 where ready: "poll_recv_ready (udp E) (pr_socket pr) w = (res, w1)" by fastforce
  obtain got w2 where
    got: "poll_recv_from (udp E) (pr_socket pr) MAX_DATAGRAM_SIZE w1 = (got, w2)" by fastforce
  have v1: "view w1 = view w" using recv_ready [of "pr_socket pr" w] ready by simp
  note unfold = receive_loop.simps [of E pr w]
  consider u d a where "res = Ready (Inr u)" "got = Ready (Inr (d, a))"
    | u where "res = Ready (Inr u)" "got = Pending" | e where "res = Ready (Inl e)" | "res = Pending"
    using assms(1) [of w1] got by (metis poll.exhaust sum.exhaust surj_pair)
  then show ?case
  proof cases
    case (1 u d a)
    note now = ready [unfolded 1(1)] got [unfolded 1(2)]
    from recv_from_ok [OF now(2)] v1 have
      dec: "length (arrived (view w2) (pr_socket pr)) < length (arrived (view w) (pr_socket pr))"
      by auto
    obtain r where r: "packet_try_from (buf E) d = ret r" using try_from_total by blast
    show ?thesis
    proof (cases r)
      case (Inl e)
      with less [OF dec] r now show ?thesis by (simp add: unfold)
    next
      case (Inr p)
      obtain stop w3 where route: "route_packet E pr p a w2 = (stop, w3)" by fastforce
      with route_frame(1) [OF assms(2) route] dec have
        "length (arrived (view w3) (pr_socket pr)) < length (arrived (view w) (pr_socket pr))" by simp
      from less [OF this] Inr r now route show ?thesis by (cases stop) (simp_all add: unfold)
    qed
  qed (use ready got in \<open>simp_all add: unfold\<close>)
qed

end

section \<open>Properties\<close>

text \<open>
  C12. A poll of the receiver task takes a prefix of the datagrams that have arrived and
  appends to the channel of each live connection exactly the packets among them that carry its
  connection id and come from its peer, in order of arrival, and to the SYN channel exactly the
  SYN packets; datagrams that do not decode are ignored.
\<close>

theorem receiver_routes:
  assumes "runtime E view" and "\<And>h w. alive E h w"
    and "table_inv (view w)" and "tables (view w) (pr_routing_table pr) k = Some c"
    and "in_rx (view w) c" and "out_rx (view w) (syn_tx pr)"
    and "packet_receiver_poll E pr w = ret (res, w')"
  shows "\<exists>ds. arrived (view w) (pr_socket pr) = ds @ arrived (view w') (pr_socket pr) \<and>
    in_q (view w') c = in_q (view w) c @ packets_for (buf E) k ds \<and>
    out_q (view w') (syn_tx pr) = out_q (view w) (syn_tx pr) @ syns_in (buf E) ds \<and>
    tables (view w') (pr_routing_table pr) k = Some c"
proof -
  from assms(2,7) have "receive_loop E pr w = Some (Ret (res, w'))"
    by (simp add: packet_receiver_poll_def)
  from runtime.receive_loop_routes [OF assms(1) this assms(2-6)] show ?thesis by simp
qed

text \<open>
  C29. A poll of the receiver task returns whenever reading from the UDP socket reports no
  error.
\<close>

theorem receiver_poll_returns:
  assumes "runtime E view" and "\<And>h w. alive E h w"
    and "\<And>w e w'. poll_recv_from (udp E) (pr_socket pr) MAX_DATAGRAM_SIZE w \<noteq> (Ready (Inl e), w')"
  shows "\<exists>res w'. packet_receiver_poll E pr w = ret (res, w')"
  using runtime.receive_loop_returns [OF assms(1,3,2)] assms(2)
  by (simp add: packet_receiver_poll_def)

section \<open>Examples\<close>

definition example_receiver :: packet_receiver where
  "example_receiver =
     \<lparr>pr_socket = 1, pr_local_addr = SocketAddrV4 0 1, syn_tx = 4, pr_routing_table = 3\<rparr>"

definition example_in_world :: sim where
  "example_in_world = sim_init\<lparr>
     tables := (\<lambda>_. Map.empty)(3 := [(12345, SocketAddrV4 0 2) \<mapsto> 5]),
     arrived := (\<lambda>_. [])(1 := [([0], SocketAddrV4 0 2),
       (bytes_from_packet list_buf example_packet, SocketAddrV4 0 2),
       (bytes_from_packet list_buf example_packet, SocketAddrV4 0 9)])\<rparr>"

lemmas utp_packet_receiver_examples [example_eval] = example_receiver_def example_in_world_def

theorem receiver_poll_returns_witness:
  "\<exists>res w'. packet_receiver_poll sim_env example_receiver example_in_world = ret (res, w')"
  by (rule receiver_poll_returns [OF sim_rt.runtime_axioms]) simp_all

lemma example_table_inv: "table_inv (sim_view example_in_world)"
  by (auto simp: table_inv_def example_eval split: if_splits)

theorem receiver_routes_witness:
  "\<exists>res w' ds. packet_receiver_poll sim_env example_receiver example_in_world = ret (res, w') \<and>
     arrived (sim_view example_in_world) 1 = ds @ arrived (sim_view w') 1 \<and>
     in_q (sim_view w') 5 = packets_for list_buf (12345, SocketAddrV4 0 2) ds"
proof -
  obtain res w' where
    run: "packet_receiver_poll sim_env example_receiver example_in_world = ret (res, w')"
    using sim_rt.receive_loop_returns [of example_receiver example_in_world]
    by (auto simp: packet_receiver_poll_def)
  have "\<exists>ds. arrived (sim_view example_in_world) (pr_socket example_receiver) =
      ds @ arrived (sim_view w') (pr_socket example_receiver) \<and>
    in_q (sim_view w') 5 = in_q (sim_view example_in_world) 5 @
      packets_for (buf sim_env) (12345, SocketAddrV4 0 2) ds \<and>
    out_q (sim_view w') (syn_tx example_receiver) =
      out_q (sim_view example_in_world) (syn_tx example_receiver) @ syns_in (buf sim_env) ds \<and>
    tables (sim_view w') (pr_routing_table example_receiver) (12345, SocketAddrV4 0 2) = Some 5"
    by (rule receiver_routes [OF sim_rt.runtime_axioms _ example_table_inv _ _ _ run])
      (simp_all add: sim_env_def example_eval)
  with run show ?thesis
    by (auto simp: sim_env_def example_eval)
qed

end
