(* ===== verification/Utp_Socket.thy ===== *)
theory Utp_Socket
  imports Utp_Packet_Sender Utp_Packet_Receiver
begin

text \<open>
  The socket of \<open>src/src/socket.rs\<close>: creation together with its two tasks, the outgoing queue,
  and the routing table in which connections are registered.
\<close>

section \<open>Definitions\<close>

record utp_socket =
  socket :: handle
  local_addr :: socket_addr
  routing_table :: handle
  syn_rx :: handle
  outgoing_tx :: handle

definition spawn_sender :: "utp_socket \<Rightarrow> handle \<Rightarrow> packet_sender" where
  "spawn_sender s rx =
     \<lparr>ps_socket = socket s, ps_local_addr = local_addr s, outgoing_rx = rx, outgoing_buffer = []\<rparr>"

definition spawn_receiver :: "utp_socket \<Rightarrow> handle \<Rightarrow> packet_receiver" where
  "spawn_receiver s tx =
     \<lparr>pr_socket = socket s, pr_local_addr = local_addr s, syn_tx = tx,
      pr_routing_table = routing_table s\<rparr>"

text \<open>The two futures handed to \<open>tokio::spawn\<close> are part of the result.\<close>

definition utp_socket_try_from ::
  "'w ext \<Rightarrow> handle \<Rightarrow> 'w \<Rightarrow> (io_error + utp_socket \<times> packet_sender \<times> packet_receiver) \<times> 'w"
where
  "utp_socket_try_from E udp_socket w =
     (let (outgoing, w) = unbounded_channel (outbound E) w;
          (syn, w) = unbounded_channel (outbound E) w
      in case udp_local_addr (udp E) udp_socket w of
           (Inl e, w) \<Rightarrow> (Inl e, w)
         | (Inr addr, w) \<Rightarrow>
             let (rt_table, w) = table_new (table E) w;
                 s = \<lparr>socket = udp_socket, local_addr = addr, routing_table = rt_table,
                      syn_rx = syn, outgoing_tx = outgoing\<rparr>
             in (Inr (s, spawn_sender s outgoing, spawn_receiver s syn), w))"

text \<open>The conversion of a \<open>std::net::UdpSocket\<close>.\<close>

definition utp_socket_try_from_std ::
  "'w ext \<Rightarrow> handle \<Rightarrow> 'w \<Rightarrow> (io_error + utp_socket \<times> packet_sender \<times> packet_receiver) \<times> 'w"
where
  "utp_socket_try_from_std E std_socket w =
     (case set_nonblocking (udp E) std_socket w of
        (Inl e, w) \<Rightarrow> (Inl e, w)
      | (Inr _, w) \<Rightarrow>
          (case udp_from_std (udp E) std_socket w of
             (Inl e, w) \<Rightarrow> (Inl e, w)
           | (Inr h, w) \<Rightarrow> utp_socket_try_from E h w))"

text \<open>
  The argument of \<open>trace!\<close> is evaluated only when that log level is enabled; the model is the
  program with it disabled.
\<close>

definition utp_socket_bind ::
  "'w ext \<Rightarrow> socket_addr \<Rightarrow> 'w \<Rightarrow> (io_error + utp_socket \<times> packet_sender \<times> packet_receiver) \<times> 'w"
where
  "utp_socket_bind E addr w =
     (case udp_bind (udp E) addr w of
        (Inl e, w) \<Rightarrow> (Inl e, w)
      | (Inr h, w) \<Rightarrow> utp_socket_try_from E h w)"

definition send_to ::
  "'w ext \<Rightarrow> utp_socket \<Rightarrow> packet \<Rightarrow> socket_addr \<Rightarrow> 'w \<Rightarrow> (io_error + unit) \<times> 'w"
where
  "send_to E s packet remote_addr w =
     (case send (outbound E) (outgoing_tx s) (packet, remote_addr) w of
        (True, w) \<Rightarrow> (Inr (), w)
      | (False, w) \<Rightarrow> (Inl (IoSend KindOther), w))"

partial_function (option) register_connection ::
  "'w ext \<Rightarrow> utp_socket \<Rightarrow> socket_addr \<Rightarrow> 'w \<Rightarrow> ((u16 \<times> handle) \<times> 'w) run"
where
  "register_connection E s remote_addr w =
     (case random_u16 E w of
        (conn_id, w) \<Rightarrow>
          (case table_get (table E) (routing_table s) (conn_id, remote_addr) w of
             Some _ \<Rightarrow> register_connection E s remote_addr w
           | None \<Rightarrow>
               let (packet_chan, w) = unbounded_channel (inbound E) w;
                   w = table_insert (table E) (routing_table s) (conn_id, remote_addr) packet_chan w
               in ret ((conn_id, packet_chan), w)))"

definition insert_connection ::
  "'w ext \<Rightarrow> utp_socket \<Rightarrow> u16 \<Rightarrow> socket_addr \<Rightarrow> 'w \<Rightarrow> (io_error + handle) \<times> 'w"
where
  "insert_connection E s conn_id remote_addr w =
     (case table_get (table E) (routing_table s) (conn_id, remote_addr) w of
        Some _ \<Rightarrow>
          (Inl (IoConnection KindAlreadyExists (AlreadyExists conn_id remote_addr)), w)
      | None \<Rightarrow>
          let (packet_chan, w) = unbounded_channel (inbound E) w;
              w = table_insert (table E) (routing_table s) (conn_id, remote_addr) packet_chan w
          in (Inr packet_chan, w))"

definition get_syn ::
  "'w ext \<Rightarrow> utp_socket \<Rightarrow> 'w \<Rightarrow> (packet \<times> socket_addr) option \<times> 'w"
where
  "get_syn E s w = recv (outbound E) (syn_rx s) w"

section \<open>Registering connections\<close>

text \<open>A connection enters the routing table together with a new, empty channel.\<close>

definition added_connection :: "handle \<Rightarrow> conn_key \<Rightarrow> handle \<Rightarrow> rt \<Rightarrow> rt" where
  "added_connection h k c v = upd_table h ((tables v h)(k \<mapsto> c)) (make_channel c v)"

lemma added_connection_inv:
  "table_inv v \<Longrightarrow> \<not> in_made v c \<Longrightarrow> table_inv (added_connection h k c v)"
  unfolding table_inv_def added_connection_def by (auto split: if_splits)

text \<open>The random draws of the loop: the world after some draws, and the next id drawn.\<close>

definition after_draws :: "'w ext \<Rightarrow> nat \<Rightarrow> 'w \<Rightarrow> 'w" where
  "after_draws E n w = ((\<lambda>w. snd (random_u16 E w)) ^^ n) w"

context runtime
begin

lemma insert_new_channel:
  assumes "unbounded_channel (inbound E) w = (c, w1)"
  shows "\<not> in_made (view w) c"
    "view (table_insert (table E) h k c w1) = added_connection h k c (view w)"
  using in_channel [OF assms] by (simp_all add: insert_spec added_connection_def)

lemma register_spec:
  assumes "register_connection E s a w = Some r"
  shows "\<exists>i c w'. r = Ret ((i, c), w') \<and> tables (view w) (routing_table s) (i, a) = None \<and>
    \<not> in_made (view w) c \<and> view w' = added_connection (routing_table s) (i, a) c (view w)"
proof -
  let ?P = "\<lambda>E' s' a' w r. E' = E \<and> s' = s \<and> a' = a \<longrightarrow> (\<exists>i c w'. r = Ret ((i, c), w') \<and>
    tables (view w) (routing_table s) (i, a) = None \<and> \<not> in_made (view w) c \<and>
    view w' = added_connection (routing_table s) (i, a) c (view w))"
  have "?P E s a w r"
  proof (rule register_connection.raw_induct [where P = ?P, OF _ assms], intro impI, elim conjE,
      goal_cases)
    case (1 f E' s' a' w r)
    obtain i w1 where draw: "random_u16 E w = (i, w1)" by fastforce
    have v: "view w1 = view w" using random_view [of w] draw by simp
    obtain c w2 where chan: "unbounded_channel (inbound E) w1 = (c, w2)" by fastforce
    show ?case
    proof (cases "tables (view w) (routing_table s) (i, a)")
      case None
      with 1 draw chan v insert_new_channel [OF chan] show ?thesis
        by (auto simp: get_spec)
    next
      case (Some d)
      with 1 draw v 1(1) [of E s a w1 r] show ?thesis by (simp add: get_spec)
    qed
  qed
  then show ?thesis by simp
qed

lemma register_full:
  assumes "\<And>i. tables (view w) (routing_table s) (i, a) \<noteq> None"
  shows "register_connection E s a w = None"
  using register_spec [of s a w] assms by (metis option.exhaust)

lemma register_returns:
  assumes "tables (view w) (routing_table s) (fst (random_u16 E (after_draws E n w)), a) = None"
  shows "\<exists>i c w'. register_connection E s a w = ret ((i, c), w')"
  using assms
proof (induction n arbitrary: w)
  case 0
  then show ?case
    using random_view [of w]
    by (subst register_connection.simps)
      (auto simp: after_draws_def get_spec Let_def split: prod.splits)
next
  case (Suc n)
  obtain i w1 where draw: "random_u16 E w = (i, w1)" by fastforce
  have v: "view w1 = view w" using random_view [of w] draw by simp
  have "after_draws E (Suc n) w = after_draws E n w1"
    using draw by (simp add: after_draws_def funpow_Suc_right del: funpow.simps)
  with Suc v have "\<exists>i c w'. register_connection E s a w1 = ret ((i, c), w')" by simp
  with draw v show ?case
    by (subst register_connection.simps) (auto simp: get_spec Let_def split: prod.splits option.splits)
qed

lemma insert_connection_spec:
  assumes "insert_connection E s i a w = (r, w')"
  shows "case tables (view w) (routing_table s) (i, a) of
      Some _ \<Rightarrow> r = Inl (IoConnection KindAlreadyExists (AlreadyExists i a)) \<and> view w' = view w
    | None \<Rightarrow> \<exists>c. r = Inr c \<and> \<not> in_made (view w) c \<and>
        view w' = added_connection (routing_table s) (i, a) c (view w)"
proof (cases "tables (view w) (routing_table s) (i, a)")
  case None
  obtain c w1 where "unbounded_channel (inbound E) w = (c, w1)" by fastforce
  with None assms insert_new_channel [OF this] show ?thesis
    by (auto simp: insert_connection_def get_spec)
next
  case (Some c)
  with assms show ?thesis by (simp add: insert_connection_def get_spec)
qed

lemma send_to_spec:
  assumes "send_to E s p a w = (r, w')"
  shows "if out_rx (view w) (outgoing_tx s)
    then r = Inr () \<and>
      view w' = upd_out_q (outgoing_tx s) (out_q (view w) (outgoing_tx s) @ [(p, a)]) (view w)
    else r = Inl (IoSend KindOther) \<and> view w' = view w"
proof -
  obtain ok w1 where "send (outbound E) (outgoing_tx s) (p, a) w = (ok, w1)" by fastforce
  with assms out_send [OF this] show ?thesis by (cases ok) (auto simp: send_to_def)
qed

lemma new_socket:
  assumes "utp_socket_try_from E h w = (Inr (s, ps, pr), w')"
  shows "socket s = h" "ps = spawn_sender s (outgoing_tx s)" "pr = spawn_receiver s (syn_rx s)"
    "\<not> out_made (view w) (outgoing_tx s)" "\<not> out_made (view w) (syn_rx s)"
    "outgoing_tx s \<noteq> syn_rx s"
    "view w' = upd_table (routing_table s) Map.empty
      (make_out_channel (syn_rx s) (make_out_channel (outgoing_tx s) (view w)))"
proof -
  obtain o1 w1 where c1: "unbounded_channel (outbound E) w = (o1, w1)" by fastforce
  obtain s1 w2 where c2: "unbounded_channel (outbound E) w1 = (s1, w2)" by fastforce
  obtain ra w3 where la: "udp_local_addr (udp E) h w2 = (ra, w3)" by fastforce
  obtain t w4 where tn: "table_new (table E) w3 = (t, w4)" by fastforce
  have "view w3 = view w2" using local_addr_view [of h w2] la by simp
  then show "socket s = h" "ps = spawn_sender s (outgoing_tx s)" "pr = spawn_receiver s (syn_rx s)"
    "\<not> out_made (view w) (outgoing_tx s)" "\<not> out_made (view w) (syn_rx s)"
    "outgoing_tx s \<noteq> syn_rx s"
    "view w' = upd_table (routing_table s) Map.empty
      (make_out_channel (syn_rx s) (make_out_channel (outgoing_tx s) (view w)))"
    using assms c1 c2 la tn out_channel [OF c1] out_channel [OF c2] new_spec [OF tn]
    by (auto simp: utp_socket_try_from_def Let_def split: sum.splits if_splits)
qed

lemma get_syn_next:
  assumes "out_q (view w) (syn_rx s) = m # q" and "get_syn E s w = (r, w')"
  shows "r = Some m \<and> view w' = upd_out_q (syn_rx s) q (view w)"
  using out_recv [OF assms(1)] assms(2) by (simp add: get_syn_def)

end

section \<open>Properties\<close>

text \<open>
  C15. A registered connection gets an id that was not in use with the remote address, and a
  new, empty channel; every other entry of every routing table stays as it was, and still no
  two connections share a channel.
\<close>

theorem register_connection_fresh:
  assumes "runtime E view" and "table_inv (view w)"
    and "register_connection E s a w = ret ((i, c), w')"
  shows "tables (view w) (routing_table s) (i, a) = None \<and>
    tables (view w') = (tables (view w))(routing_table s :=
      (tables (view w) (routing_table s))((i, a) \<mapsto> c)) \<and>
    \<not> in_made (view w) c \<and> in_q (view w') c = [] \<and> in_rx (view w') c \<and> table_inv (view w')"
  using runtime.register_spec [OF assms(1,3)] added_connection_inv [OF assms(2), of c]
  by (auto simp: added_connection_def)

text \<open>
  C30. Registering a connection returns as soon as one of the random ids it draws is free for
  the remote address.
\<close>

theorem register_connection_returns:
  assumes "runtime E view"
    and "tables (view w) (routing_table s) (fst (random_u16 E (after_draws E n w)), a) = None"
  shows "\<exists>i c w'. register_connection E s a w = ret ((i, c), w')"
  using runtime.register_returns [OF assms] .

text \<open>
  C31. When all 65536 ids are in use with the remote address, registering another connection
  never returns.
\<close>

theorem register_connection_full:
  assumes "runtime E view" and "\<And>i. tables (view w) (routing_table s) (i, a) \<noteq> None"
  shows "register_connection E s a w = None"
  using runtime.register_full [OF assms] .

text \<open>
  C21. Inserting a connection under an id that is in use with the remote address is an
  \<open>AlreadyExists\<close> error that changes nothing; otherwise the connection is entered with a new,
  empty channel, the other entries stay, and no two connections share a channel.
\<close>

theorem insert_connection_cases:
  assumes "runtime E view" and "table_inv (view w)"
    and "insert_connection E s i a w = (r, w')"
  shows "case tables (view w) (routing_table s) (i, a) of
      Some _ \<Rightarrow> r = Inl (IoConnection KindAlreadyExists (AlreadyExists i a)) \<and> view w' = view w
    | None \<Rightarrow> \<exists>c. r = Inr c \<and> \<not> in_made (view w) c \<and> in_q (view w') c = [] \<and> in_rx (view w') c \<and>
        tables (view w') = (tables (view w))(routing_table s :=
          (tables (view w) (routing_table s))((i, a) \<mapsto> c)) \<and> table_inv (view w')"
  using runtime.insert_connection_spec [OF assms(1,3)] added_connection_inv [OF assms(2)]
  by (auto simp: added_connection_def split: option.splits)

section \<open>A new socket in use\<close>

text \<open>Packets are sent one after the other, until one call fails.\<close>

fun send_each :: "'w ext \<Rightarrow> utp_socket \<Rightarrow> (packet \<times> socket_addr) list \<Rightarrow> 'w \<Rightarrow> (io_error + unit) \<times> 'w" where
  "send_each E s [] w = (Inr (), w)"
| "send_each E s ((p, a) # ms) w =
     (case send_to E s p a w of (Inl e, w) \<Rightarrow> (Inl e, w) | (Inr _, w) \<Rightarrow> send_each E s ms w)"

context runtime
begin

lemma send_each_queues:
  assumes "out_rx (view w) (outgoing_tx s)" and "send_each E s ms w = (r, w')"
  shows "r = Inr () \<and>
    view w' = upd_out_q (outgoing_tx s) (out_q (view w) (outgoing_tx s) @ ms) (view w)"
  using assms
proof (induction ms arbitrary: w)
  case Nil
  then show ?case by (simp add: upd_same)
next
  case (Cons m ms)
  obtain p a where m: "m = (p, a)" by fastforce
  obtain r1 w1 where one: "send_to E s p a w = (r1, w1)" by fastforce
  from send_to_spec [OF one] Cons.prems(1) have "r1 = Inr ()"
    "view w1 = upd_out_q (outgoing_tx s) (out_q (view w) (outgoing_tx s) @ [m]) (view w)"
    by (simp_all add: m)
  with Cons.IH [of w1] Cons.prems one show ?case by (auto simp: m fun_eq_iff)
qed

end


section \<open>Examples\<close>

definition example_socket :: utp_socket where
  "example_socket = \<lparr>socket = 1, local_addr = SocketAddrV4 0 1, routing_table = 3, syn_rx = 4,
     outgoing_tx = 2\<rparr>"

definition example_full_world :: sim where
  "example_full_world = sim_init\<lparr>tables := \<lambda>_ _. Some 0\<rparr>"

theorem register_connection_full_witness:
  "register_connection sim_env example_socket (SocketAddrV4 0 2) example_full_world = None"
  by (rule register_connection_full [OF sim_rt.runtime_axioms]) (simp add: example_full_world_def)

text \<open>The generator draws 7, which is in use, then 8.\<close>

definition example_table_world :: sim where
  "example_table_world = sim_init\<lparr>tables := (\<lambda>_. Map.empty)(3 := [(7, SocketAddrV4 0 2) \<mapsto> 5])\<rparr>"

lemmas utp_socket_examples [example_eval] = example_socket_def example_full_world_def example_table_world_def

lemma example_table_world_inv: "table_inv (sim_view example_table_world)"
  by (auto simp: table_inv_def example_eval split: if_splits)

theorem register_connection_returns_witness:
  "\<exists>i c w'. register_connection sim_env example_socket (SocketAddrV4 0 2) example_table_world =
     ret ((i, c), w')"
  by (rule register_connection_returns [OF sim_rt.runtime_axioms, where n = 1])
    (simp add: after_draws_def sim_env_def example_eval)

lemma example_register:
  "\<exists>w'. register_connection sim_env example_socket (SocketAddrV4 0 2) example_table_world =
     ret ((8, 10), w')"
  by (rule exI) (simp add: register_connection.simps sim_eval example_eval)

theorem register_connection_fresh_witness:
  "\<exists>w'. register_connection sim_env example_socket (SocketAddrV4 0 2) example_table_world =
     ret ((8, 10), w') \<and> tables (sim_view w') 3 (8, SocketAddrV4 0 2) = Some 10 \<and>
     table_inv (sim_view w')"
proof -
  obtain w' where run: "register_connection sim_env example_socket (SocketAddrV4 0 2)
      example_table_world = ret ((8, 10), w')" using example_register by blast
  from register_connection_fresh [OF sim_rt.runtime_axioms example_table_world_inv run] run
  show ?thesis by (simp add: example_eval)
qed

theorem insert_connection_cases_witness:
  "fst (insert_connection sim_env example_socket 7 (SocketAddrV4 0 2) example_table_world) =
     Inl (IoConnection KindAlreadyExists (AlreadyExists 7 (SocketAddrV4 0 2)))"
  using insert_connection_cases [OF sim_rt.runtime_axioms example_table_world_inv surjective_pairing,
      of example_socket 7 "SocketAddrV4 0 2"]
  by (simp add: example_eval)


end
