(* ===== verification/Utp_Stream.thy ===== *)
theory Utp_Stream
  imports Utp_Socket
begin

text \<open>
  The connection of \<open>src/src/stream.rs\<close>: establishing it, filtering and handling the packets
  that arrive, reassembling their data in order, sending data and acknowledgements, and the
  \<open>AsyncRead\<close> and \<open>AsyncWrite\<close> operations.  A stream is a record; an operation takes it
  together with the world and returns both updated.  The lemmas on sending
  a single packet, which reading and writing share, are here; the others are in the
  theories \<open>Utp_Stream_Receive\<close> and \<open>Utp_Stream_Send\<close>.
\<close>

section \<open>State\<close>

definition MAX_DATA_SEGMENT_SIZE :: nat where
  "MAX_DATA_SEGMENT_SIZE = MAX_DATAGRAM_SIZE - PACKET_HEADER_LEN"

record utp_stream =
  stream_socket :: utp_socket
  stream_congestion :: congestion_controller
  connection_id_recv :: u16
  connection_id_send :: u16
  remote_addr :: socket_addr
  inbound_packets :: handle
  stream_seq :: u16
  stream_ack :: u16
  inbound_data :: "u16 \<rightharpoonup> bytes"
  received_data :: bytes
  unacked_data :: "(u16 \<times> bytes) list"
  is_shutdown :: bool

definition utp_stream_new ::
  "utp_socket \<Rightarrow> u16 \<Rightarrow> u16 \<Rightarrow> socket_addr \<Rightarrow> handle \<Rightarrow> u16 \<Rightarrow> u16 \<Rightarrow> (u16 \<rightharpoonup> bytes) \<Rightarrow> bytes \<Rightarrow>
    (u16 \<times> bytes) list \<Rightarrow> utp_stream"
where
  "utp_stream_new s id_recv id_send addr rx seq ack inb received unacked =
     \<lparr>stream_socket = s, stream_congestion = congestion_controller_new,
      connection_id_recv = id_recv, connection_id_send = id_send, remote_addr = addr,
      inbound_packets = rx, stream_seq = seq, stream_ack = ack, inbound_data = inb,
      received_data = received, unacked_data = unacked, is_shutdown = False\<rparr>"

definition stream_local_addr :: "utp_stream \<Rightarrow> socket_addr" where
  "stream_local_addr st = local_addr (stream_socket st)"

section \<open>Connecting\<close>

text \<open>
  \<open>lookup_host\<close> stands for the lookup of the address that the caller gives.  \<open>connect_begin\<close> is
  the part before the response is awaited, \<open>connect_finish\<close> the part after it.
\<close>

definition connect_begin ::
  "'w ext \<Rightarrow> utp_socket \<Rightarrow> 'w \<Rightarrow> ((io_error + socket_addr \<times> u16 \<times> handle \<times> u16) \<times> 'w) run"
where
  "connect_begin E s w =
     (case lookup_host E w of
        (Inl e, w) \<Rightarrow> ret (Inl e, w)
      | (Inr [], w) \<Rightarrow> ret (Inl (IoConnection KindOther NoAddress), w)
      | (Inr (addr # _), w) \<Rightarrow>
          run_bind (register_connection E s addr w) (\<lambda>((id_recv, receiver), w).
            let seq = 1;
                ack = 0;
                syn = packet_new Syn 1 id_recv 0 0 0 seq ack [] [];
                seq = seq + 1
            in case send_to E s syn addr w of
                 (Inl e, w) \<Rightarrow> ret (Inl e, w)
               | (Inr _, w) \<Rightarrow> ret (Inr (addr, id_recv, receiver, seq), w)))"

definition connect_finish ::
  "utp_socket \<Rightarrow> socket_addr \<times> u16 \<times> handle \<times> u16 \<Rightarrow> packet option \<Rightarrow> utp_stream outcome"
where
  "connect_finish s c response =
     (case c of (addr, id_recv, receiver, seq) \<Rightarrow>
       (case response of
          None \<Rightarrow> Panic Unwrap
        | Some response_packet \<Rightarrow>
            if packet_type response_packet = State
            then Ret (utp_stream_new s id_recv (id_recv + 1) addr receiver seq
              (seq_number response_packet) Map.empty [] [])
            else Panic Todo))"

definition connect :: "'w ext \<Rightarrow> utp_socket \<Rightarrow> 'w \<Rightarrow> ((io_error + utp_stream) \<times> 'w) run" where
  "connect E s w =
     run_bind (connect_begin E s w) (\<lambda>(r, w).
       case r of
         Inl e \<Rightarrow> ret (Inl e, w)
       | Inr (addr, id_recv, receiver, seq) \<Rightarrow>
           (case recv (inbound E) receiver w of
              (response, w) \<Rightarrow>
                run_bind (Some (connect_finish s (addr, id_recv, receiver, seq) response))
                  (\<lambda>st. ret (Inr st, w))))"

section \<open>Inbound packets\<close>

definition is_suspicious :: "utp_stream \<Rightarrow> packet \<Rightarrow> bool outcome" where
  "is_suspicious st packet =
     (case packet_type packet of
        Data \<Rightarrow>
          let acceptable_distance = 128;
              left_distance = stream_ack st - seq_number packet;
              right_distance = seq_number packet - stream_ack st
          in Ret (left_distance > acceptable_distance \<and> right_distance > acceptable_distance)
      | State \<Rightarrow>
          let acceptable_distance = length (unacked_data st) + 3;
              left_distance = unat (stream_seq st - ack_number packet)
          in Ret (left_distance = 0 \<or> left_distance > acceptable_distance)
      | _ \<Rightarrow> Panic Todo)"

partial_function (option) poll_read_packet ::
  "'w ext \<Rightarrow> utp_stream \<Rightarrow> 'w \<Rightarrow> (packet option poll \<times> utp_stream \<times> 'w) run"
where
  "poll_read_packet E st w =
     (case poll_recv (inbound E) (inbound_packets st) w of
        (Pending, w) \<Rightarrow> ret (Pending, st, w)
      | (Ready None, w) \<Rightarrow> ret (Ready None, st\<lparr>is_shutdown := True\<rparr>, w)
      | (Ready (Some packet), w) \<Rightarrow>
          (case system_now E w of
             (now, w) \<Rightarrow>
               run_bind (Some (current_micros now)) (\<lambda>received_at.
               run_bind (Some (is_suspicious st packet)) (\<lambda>suspicious.
                 if suspicious then poll_read_packet E st w
                 else ret (Ready (Some packet),
                   st\<lparr>stream_congestion := update_state (stream_congestion st) received_at packet\<rparr>,
                   w)))))"

text \<open>The loop that removes acknowledged data from the front of the queue.\<close>

fun pop_acked :: "u16 \<Rightarrow> (u16 \<times> bytes) list \<Rightarrow> (u16 \<times> bytes) list" where
  "pop_acked ack [] = []"
| "pop_acked ack ((oldest_seq_num, d) # rest) =
     (if oldest_seq_num \<le> ack then pop_acked ack rest else (oldest_seq_num, d) # rest)"

definition handle_packet :: "utp_stream \<Rightarrow> packet \<Rightarrow> utp_stream outcome" where
  "handle_packet st packet =
     (case packet_type packet of
        Data \<Rightarrow> Ret (st\<lparr>inbound_data := (inbound_data st)(seq_number packet \<mapsto> data packet)\<rparr>)
      | State \<Rightarrow> Ret (st\<lparr>unacked_data := pop_acked (ack_number packet) (unacked_data st)\<rparr>)
      | _ \<Rightarrow> Panic Todo)"

text \<open>
  The first loop of \<open>poll_read\<close> and of \<open>poll_flush\<close>; the flag tells whether the packet stream
  has terminated.
\<close>

partial_function (option) process_packets ::
  "'w ext \<Rightarrow> utp_stream \<Rightarrow> 'w \<Rightarrow> (bool \<times> utp_stream \<times> 'w) run"
where
  "process_packets E st w =
     run_bind (poll_read_packet E st w) (\<lambda>(r, st, w).
       case r of
         Pending \<Rightarrow> ret (False, st, w)
       | Ready None \<Rightarrow> ret (True, st, w)
       | Ready (Some packet) \<Rightarrow>
           run_bind (Some (handle_packet st packet)) (\<lambda>st. process_packets E st w))"

section \<open>Outbound packets\<close>

definition send_packet ::
  "'w ext \<Rightarrow> utp_stream \<Rightarrow> packet_type \<Rightarrow> u16 \<Rightarrow> u16 \<Rightarrow> extension list \<Rightarrow> bytes \<Rightarrow> 'w \<Rightarrow>
    ((io_error + unit) \<times> 'w) run"
where
  "send_packet E st t seq ack exts d w =
     (case system_now E w of
        (now, w) \<Rightarrow>
          run_bind (Some (current_micros now)) (\<lambda>micros.
            let packet = packet_new t 1 (connection_id_send st) micros 0 0 seq ack exts d
            in ret (send_to E (stream_socket st) packet (remote_addr st) w)))"

definition send_ack :: "'w ext \<Rightarrow> utp_stream \<Rightarrow> 'w \<Rightarrow> ((io_error + unit) \<times> 'w) run" where
  "send_ack E st w = send_packet E st State (stream_seq st) (stream_ack st) [] [] w"

definition send_data ::
  "'w ext \<Rightarrow> utp_stream \<Rightarrow> bytes \<Rightarrow> 'w \<Rightarrow> ((io_error + unit) \<times> utp_stream \<times> 'w) run"
where
  "send_data E st d w =
     run_bind (send_packet E st Data (stream_seq st) (stream_ack st) [] d w) (\<lambda>(r, w).
       case r of
         Inl e \<Rightarrow> ret (Inl e, st, w)
       | Inr _ \<Rightarrow>
           let st = st\<lparr>unacked_data := unacked_data st @ [(stream_seq st, d)]\<rparr>;
               st = st\<lparr>stream_seq := stream_seq st + 1\<rparr>
           in ret (Inr (), st, w))"

section \<open>Reading\<close>

text \<open>The loop that moves data in order into the buffer of received data.\<close>

function assemble :: "buf_api \<Rightarrow> u16 \<Rightarrow> utp_stream \<Rightarrow> utp_stream" where
  "assemble B next_seq_num st =
     (case inbound_data st next_seq_num of
        None \<Rightarrow> st
      | Some d \<Rightarrow>
          let st = st\<lparr>inbound_data := (inbound_data st)(next_seq_num := None)\<rparr>;
              st = st\<lparr>received_data := extend_from_slice B (received_data st) d\<rparr>;
              st = st\<lparr>stream_ack := next_seq_num\<rparr>
          in assemble B (next_seq_num + 1) st)"
  by pat_completeness auto
termination
  by (relation "measure (\<lambda>(B, n, st). card (dom (inbound_data st)))")
    (auto intro!: psubset_card_mono)

declare assemble.simps [simp del]

text \<open>
  \<open>remaining\<close> is the space left in the caller's buffer; the bytes written to it are the result.
\<close>

definition poll_read ::
  "'w ext \<Rightarrow> utp_stream \<Rightarrow> nat \<Rightarrow> 'w \<Rightarrow> ((io_error + bytes) poll \<times> utp_stream \<times> 'w) run"
where
  "poll_read E st remaining w =
     run_bind (process_packets E st w) (\<lambda>(terminated, st, w).
       if terminated then ret (Ready (Inr []), st, w)
       else
         let st = assemble (buf E) (stream_ack st + 1) st in
         run_bind (send_ack E st w) (\<lambda>(r, w).
           case r of
             Inl e \<Rightarrow> ret (Ready (Inl e), st, w)
           | Inr _ \<Rightarrow>
               if received_data st = [] then ret (Pending, st, w)
               else
                 run_bind
                   (Some (if length (received_data st) > remaining
                     then split_to (buf E) (received_data st) remaining
                     else Ret (split_all (buf E) (received_data st))))
                   (\<lambda>(chunk, left).
                     ret (Ready (Inr chunk), st\<lparr>received_data := left\<rparr>, w))))"

section \<open>Writing\<close>

fun write_chunks ::
  "'w ext \<Rightarrow> utp_stream \<Rightarrow> nat \<Rightarrow> bytes list \<Rightarrow> 'w \<Rightarrow> ((io_error + nat) \<times> utp_stream \<times> 'w) run"
where
  "write_chunks E st bytes_written [] w = ret (Inr bytes_written, st, w)"
| "write_chunks E st bytes_written (chunk # cs) w =
     run_bind (send_data E st chunk w) (\<lambda>(r, st, w).
       case r of
         Inr _ \<Rightarrow> write_chunks E st (bytes_written + length chunk) cs w
       | Inl err \<Rightarrow> ret (Inl err, st, w))"

definition poll_write ::
  "'w ext \<Rightarrow> utp_stream \<Rightarrow> bytes \<Rightarrow> 'w \<Rightarrow> ((io_error + nat) poll \<times> utp_stream \<times> 'w) run"
where
  "poll_write E st b w =
     (if is_shutdown st then ret (Ready (Inr 0), st, w)
      else run_bind (write_chunks E st 0 (chunks MAX_DATA_SEGMENT_SIZE b) w)
        (\<lambda>(r, st, w). ret (Ready r, st, w)))"

definition poll_flush ::
  "'w ext \<Rightarrow> utp_stream \<Rightarrow> 'w \<Rightarrow> ((io_error + unit) poll \<times> utp_stream \<times> 'w) run"
where
  "poll_flush E st w =
     run_bind (process_packets E st w) (\<lambda>(terminated, st, w).
       if unacked_data st = [] then ret (Ready (Inr ()), st, w)
       else if is_shutdown st then abort Todo
       else ret (Pending, st, w))"

definition poll_shutdown ::
  "'w ext \<Rightarrow> utp_stream \<Rightarrow> 'w \<Rightarrow> ((io_error + unit) poll \<times> utp_stream \<times> 'w) run"
where
  "poll_shutdown E st w =
     run_bind (poll_flush E (st\<lparr>is_shutdown := True\<rparr>) w) (\<lambda>(r, st, w).
       case r of
         Pending \<Rightarrow> ret (Pending, st, w)
       | Ready (Inl e) \<Rightarrow> ret (Ready (Inl e), st, w)
       | Ready (Inr _) \<Rightarrow> abort Todo)"

section \<open>Sending a packet\<close>

abbreviation stream_packet :: "utp_stream \<Rightarrow> packet_type \<Rightarrow> u32 \<Rightarrow> u16 \<Rightarrow> bytes \<Rightarrow> packet" where
  "stream_packet st t micros seq d \<equiv>
     packet_new t 1 (connection_id_send st) micros 0 0 seq (stream_ack st) [] d"

abbreviation stream_out :: "utp_stream \<Rightarrow> handle" where
  "stream_out st \<equiv> outgoing_tx (stream_socket st)"

context runtime
begin

lemma clock_reading:
  assumes "system_now E w = (now, w')"
  shows "current_micros now = Ret (of_int now)" "view w' = view w"
  using now_after_epoch [of w] now_view [of w] assms by (simp_all add: current_micros_eq)

lemma send_packet_spec:
  "\<exists>micros w'. send_packet E st t seq (stream_ack st) [] d w =
      ret (if out_rx (view w) (stream_out st) then Inr () else Inl (IoSend KindOther), w') \<and>
    view w' = (if out_rx (view w) (stream_out st)
      then upd_out_q (stream_out st) (out_q (view w) (stream_out st) @
        [(stream_packet st t micros seq d, remote_addr st)]) (view w)
      else view w)"
proof -
  obtain now w1 where now: "system_now E w = (now, w1)" by fastforce
  let ?p = "stream_packet st t (of_int now) seq d"
  obtain r w2 where "send_to E (stream_socket st) ?p (remote_addr st) w1 = (r, w2)" by fastforce
  with send_to_spec [OF this] clock_reading [OF now] now show ?thesis
    by (intro exI [of _ "of_int now"] exI [of _ w2]) (auto simp: send_packet_def split: if_splits)
qed

end

end
