(* ===== verification/Utp_Stream_Receive.thy ===== *)
theory Utp_Stream_Receive
  imports Utp_Stream
begin

text \<open>
  The receiving side of a stream.  The polling loops refine a pure function over the packets
  they take from the channel (\<open>absorb\<close>); on top of it are the reassembly of data, the
  invariant that what a reader gets is a prefix of what the peer sent, under loss,
  duplication and reordering, and when all of it is delivered.
\<close>

section \<open>The packet loop as a pure function\<close>

text \<open>What one packet, received at a time, does to the stream.\<close>

definition absorb_packet :: "utp_stream \<Rightarrow> u32 \<times> packet \<Rightarrow> utp_stream outcome" where
  "absorb_packet st tp =
     (case is_suspicious st (snd tp) of
        Panic e \<Rightarrow> Panic e
      | Ret True \<Rightarrow> Ret st
      | Ret False \<Rightarrow> handle_packet
          (st\<lparr>stream_congestion := update_state (stream_congestion st) (fst tp) (snd tp)\<rparr>) (snd tp))"

fun absorb :: "utp_stream \<Rightarrow> (u32 \<times> packet) list \<Rightarrow> utp_stream outcome" where
  "absorb st [] = Ret st"
| "absorb st (tp # tps) = (case absorb_packet st tp of Panic e \<Rightarrow> Panic e | Ret st \<Rightarrow> absorb st tps)"

lemma process_packets_step:
  "process_packets E st w =
     (case poll_recv (inbound E) (inbound_packets st) w of
        (Pending, w) \<Rightarrow> ret (False, st, w)
      | (Ready None, w) \<Rightarrow> ret (True, st\<lparr>is_shutdown := True\<rparr>, w)
      | (Ready (Some packet), w) \<Rightarrow>
          (case system_now E w of
             (now, w) \<Rightarrow>
               run_bind (Some (current_micros now)) (\<lambda>received_at.
               run_bind (Some (absorb_packet st (received_at, packet))) (\<lambda>st.
                 process_packets E st w))))"
proof -
  obtain r w1 where poll: "poll_recv (inbound E) (inbound_packets st) w = (r, w1)" by fastforce
  show ?thesis
  proof (cases "\<exists>p. r = Ready (Some p)")
    case False
    with poll show ?thesis
      by (cases r; cases "case r of Ready x \<Rightarrow> x | Pending \<Rightarrow> None")
        (simp_all add: process_packets.simps [of E st w] poll_read_packet.simps [of E st w])
  next
    case True
    then obtain p where r: "r = Ready (Some p)" by blast
    obtain now w2 where now: "system_now E w1 = (now, w2)" by fastforce
    show ?thesis
    proof (cases "current_micros now")
      case (Panic e)
      with poll r now show ?thesis
        by (simp add: process_packets.simps [of E st w] poll_read_packet.simps [of E st w])
    next
      case (Ret t)
      show ?thesis
      proof (cases "is_suspicious st p = Ret True")
        case True
        with poll r now Ret have "poll_read_packet E st w = poll_read_packet E st w2"
          by (simp add: poll_read_packet.simps [of E st w])
        then have "process_packets E st w = process_packets E st w2"
          by (simp add: process_packets.simps [of E st w] process_packets.simps [of E st w2])
        with poll r now Ret True show ?thesis by (simp add: absorb_packet_def)
      next
        case False
        with poll r now Ret show ?thesis
          by (cases "is_suspicious st p")
            (auto simp: process_packets.simps [of E st w] poll_read_packet.simps [of E st w]
              absorb_packet_def)
      qed
    qed
  qed
qed

lemma absorb_packet_frame:
  assumes "absorb_packet st tp = Ret st'"
  shows "inbound_packets st' = inbound_packets st" "stream_ack st' = stream_ack st"
    "stream_seq st' = stream_seq st" "received_data st' = received_data st"
    "is_shutdown st' = is_shutdown st" "stream_socket st' = stream_socket st"
    "connection_id_send st' = connection_id_send st" "remote_addr st' = remote_addr st"
    "connection_id_recv st' = connection_id_recv st"
  using assms
  by (auto simp: absorb_packet_def handle_packet_def is_suspicious_def Let_def
      split: outcome.splits bool.splits packet_type.splits)

lemma absorb_frame:
  assumes "absorb st tps = Ret st'"
  shows "inbound_packets st' = inbound_packets st \<and> stream_ack st' = stream_ack st \<and>
    stream_seq st' = stream_seq st \<and> received_data st' = received_data st \<and>
    is_shutdown st' = is_shutdown st \<and> stream_socket st' = stream_socket st \<and>
    connection_id_send st' = connection_id_send st \<and> remote_addr st' = remote_addr st \<and>
    connection_id_recv st' = connection_id_recv st"
  using assms
  by (induction tps arbitrary: st) (auto split: outcome.splits dest: absorb_packet_frame)

lemma absorb_packet_total:
  "packet_type (snd tp) \<in> {Data, State} \<Longrightarrow> \<exists>st'. absorb_packet st tp = Ret st'"
  by (auto simp: absorb_packet_def handle_packet_def is_suspicious_def Let_def split: bool.splits)

lemma absorb_total:
  "\<forall>p\<in>set (map snd tps). packet_type p \<in> {Data, State} \<Longrightarrow> \<exists>st'. absorb st tps = Ret st'"
proof (induction tps arbitrary: st)
  case (Cons tp tps)
  then obtain st1 where "absorb_packet st tp = Ret st1" using absorb_packet_total [of tp st] by auto
  with Cons show ?case by simp
qed simp

text \<open>
  The loop takes some packets from the channel, in order, and has the effect of \<open>absorb\<close> on
  them.  In particular it always ends.
\<close>

definition loop_ends ::
  "'w ext \<Rightarrow> ('w \<Rightarrow> rt) \<Rightarrow> handle \<Rightarrow> rt \<Rightarrow> packet list \<Rightarrow> utp_stream \<Rightarrow>
    (bool \<times> utp_stream \<times> 'w) run \<Rightarrow> bool"
where
  "loop_ends E view c v rest st r \<longleftrightarrow>
     (\<exists>w'. r = ret (True, st\<lparr>is_shutdown := True\<rparr>, w') \<and> view w' = upd_in_q c rest v \<and>
        rest = [] \<and> \<not> in_tx v c) \<or>
     (\<exists>w' w0. r = ret (False, st, w') \<and> view w' = upd_in_q c rest v \<and>
        poll_recv (inbound E) c w0 = (Pending, w') \<and> in_q (view w0) c = rest \<and>
        in_tx (view w0) = in_tx v)"

definition absorbed ::
  "'w ext \<Rightarrow> ('w \<Rightarrow> rt) \<Rightarrow> utp_stream \<Rightarrow> 'w \<Rightarrow> (u32 \<times> packet) list \<Rightarrow> packet list \<Rightarrow> bool"
where
  "absorbed E view st w tps rest \<longleftrightarrow>
     in_q (view w) (inbound_packets st) = map snd tps @ rest \<and>
     (case absorb st tps of
        Panic e \<Rightarrow> process_packets E st w = abort e
      | Ret st1 \<Rightarrow>
          loop_ends E view (inbound_packets st) (view w) rest st1 (process_packets E st w))"

lemma loop_ends_upd [simp]:
  "loop_ends E view c (upd_in_q c q v) rest st r = loop_ends E view c v rest st r"
  by (simp add: loop_ends_def)

lemma absorbed_Cons:
  assumes "absorb_packet st tp = Ret st1" and "process_packets E st w = process_packets E st1 w2"
    and "in_q (view w) (inbound_packets st) = snd tp # q"
    and "view w2 = upd_in_q (inbound_packets st) q (view w)"
    and "absorbed E view st1 w2 tps rest"
  shows "absorbed E view st w (tp # tps) rest"
  using assms absorb_packet_frame(1) [OF assms(1)]
  by (cases "absorb st1 tps") (simp_all add: absorbed_def)

context runtime
begin

lemma process_packets_absorbs: "\<exists>tps rest. absorbed E view st w tps rest"
proof (induction "length (in_q (view w) (inbound_packets st))" arbitrary: st w rule: less_induct)
  case less
  let ?c = "inbound_packets st"
  obtain r w1 where poll: "poll_recv (inbound E) ?c w = (r, w1)" by fastforce
  consider "r = Pending" | "r = Ready None" | p where "r = Ready (Some p)"
    by (metis option.exhaust poll.exhaust)
  then show ?case
  proof cases
    case 1
    with poll have "process_packets E st w = ret (False, st, w1)"
      by (simp add: process_packets_step [of E st w])
    with 1 poll in_poll_pending [of ?c w w1] have "absorbed E view st w [] (in_q (view w) ?c)"
      unfolding absorbed_def loop_ends_def by (auto simp: upd_same)
    then show ?thesis by blast
  next
    case 2
    with poll have "process_packets E st w = ret (True, st\<lparr>is_shutdown := True\<rparr>, w1)"
      by (simp add: process_packets_step [of E st w])
    with 2 poll in_poll_none [of ?c w w1] have "absorbed E view st w [] []"
      unfolding absorbed_def loop_ends_def by (auto simp: upd_same)
    then show ?thesis by blast
  next
    case (3 p)
    obtain now w2 where now: "system_now E w1 = (now, w2)" by fastforce
    note clock = clock_reading [OF now]
    let ?t = "of_int now :: u32"
    from in_poll_some [of ?c w p w1] poll 3 obtain q where
      q: "in_q (view w) ?c = p # q" "view w1 = upd_in_q ?c q (view w)" by blast
    show ?thesis
    proof (cases "absorb_packet st (?t, p)")
      case (Panic e)
      with poll 3 now clock q show ?thesis
        by (intro exI [of _ "[(?t, p)]"] exI [of _ q])
          (simp add: absorbed_def process_packets_step [of E st w])
    next
      case (Ret st1)
      have c: "inbound_packets st1 = ?c" using absorb_packet_frame [OF Ret] by simp
      with less [of w2 st1] q clock obtain tps rest where
        IH: "absorbed E view st1 w2 tps rest" by auto
      have step: "process_packets E st w = process_packets E st1 w2"
        using poll 3 now clock Ret by (simp add: process_packets_step [of E st w])
      from absorbed_Cons [OF Ret step _ _ IH, of q] q clock show ?thesis by auto
    qed
  qed
qed

end

context prompt_runtime
begin

text \<open>Without spurious wake-ups the loop empties the channel.\<close>

lemma process_packets_absorbs_all:
  obtains tps rest where "absorbed E view st w tps rest"
    and "\<And>st1. absorb st tps = Ret st1 \<Longrightarrow> rest = [] \<and> map snd tps = in_q (view w) (inbound_packets st) \<and>
      (\<exists>w'. view w' = upd_in_q (inbound_packets st) [] (view w) \<and> process_packets E st w =
        (if in_tx (view w) (inbound_packets st) then ret (False, st1, w')
         else ret (True, st1\<lparr>is_shutdown := True\<rparr>, w')))"
proof -
  obtain tps rest where abs: "absorbed E view st w tps rest"
    using process_packets_absorbs by blast
  have "rest = [] \<and> map snd tps = in_q (view w) (inbound_packets st) \<and>
      (\<exists>w'. view w' = upd_in_q (inbound_packets st) [] (view w) \<and> process_packets E st w =
        (if in_tx (view w) (inbound_packets st) then ret (False, st1, w')
         else ret (True, st1\<lparr>is_shutdown := True\<rparr>, w')))" if "absorb st tps = Ret st1" for st1
  proof -
    from abs that have ends: "loop_ends E view (inbound_packets st) (view w) rest st1
        (process_packets E st w)"
      and q: "in_q (view w) (inbound_packets st) = map snd tps @ rest" by (simp_all add: absorbed_def)
    from ends in_poll_prompt have "rest = []" unfolding loop_ends_def by auto
    with ends q in_poll_prompt show ?thesis unfolding loop_ends_def by fastforce
  qed
  with abs that show ?thesis by blast
qed

end

section \<open>Reassembly\<close>

text \<open>
  The keys \<open>s, s + 1, ...\<close> that are present without a gap, and the data under them.
\<close>

definition present_run :: "(u16 \<rightharpoonup> bytes) \<Rightarrow> u16 \<Rightarrow> nat \<Rightarrow> bool" where
  "present_run m s k \<longleftrightarrow> (\<forall>i<k. m (s + of_nat i) \<noteq> None)"

definition run_data :: "(u16 \<rightharpoonup> bytes) \<Rightarrow> u16 \<Rightarrow> nat \<Rightarrow> bytes" where
  "run_data m s k = concat (map (\<lambda>q. the (m q)) (seq_from s k))"

lemma present_run_Suc:
  "present_run m s (Suc k) \<longleftrightarrow> m s \<noteq> None \<and> present_run m (s + 1) k"
  unfolding present_run_def by (auto simp: less_Suc_eq_0_disj algebra_simps)

lemma in_seq_from: "q \<in> set (seq_from s k) \<longleftrightarrow> (\<exists>i<k. q = s + of_nat i)"
  by (metis in_set_conv_nth length_seq_from nth_seq_from)

definition drop_keys :: "u16 list \<Rightarrow> (u16 \<rightharpoonup> bytes) \<Rightarrow> u16 \<rightharpoonup> bytes" where
  "drop_keys qs m = (\<lambda>q. if q \<in> set qs then None else m q)"

text \<open>Reassembly takes the longest run without a gap, and nothing else.\<close>

definition reassembled :: "nat \<Rightarrow> utp_stream \<Rightarrow> utp_stream" where
  "reassembled k st = st\<lparr>
     inbound_data := drop_keys (seq_from (stream_ack st + 1) k) (inbound_data st),
     received_data := received_data st @ run_data (inbound_data st) (stream_ack st + 1) k,
     stream_ack := stream_ack st + of_nat k\<rparr>"

lemma reassembled_Suc:
  assumes "inbound_data st (stream_ack st + 1) = Some d"
    and "present_run ((inbound_data st)(stream_ack st + 1 := None)) (2 + stream_ack st) k"
  shows "present_run (inbound_data st) (stream_ack st + 1) (Suc k)"
    "reassembled k (st\<lparr>inbound_data := (inbound_data st)(stream_ack st + 1 := None),
       received_data := received_data st @ d, stream_ack := stream_ack st + 1\<rparr>) = reassembled (Suc k) st"
proof -
  let ?n = "stream_ack st + 1" and ?m = "inbound_data st"
  have two: "?n + 1 = 2 + stream_ack st" by simp
  show "present_run ?m ?n (Suc k)"
    using assms unfolding present_run_Suc two by (auto simp: present_run_def split: if_splits)
  have notin: "?n \<notin> set (seq_from (2 + stream_ack st) k)"
    using assms(2) unfolding present_run_def in_seq_from by auto
  have "run_data ?m ?n (Suc k) = d @ run_data (?m(?n := None)) (2 + stream_ack st) k"
    using assms(1) notin unfolding run_data_def seq_from.simps two
    by (auto intro!: arg_cong [where f = concat])
  moreover have "drop_keys (seq_from (2 + stream_ack st) k) (?m(?n := None)) =
    drop_keys (seq_from ?n (Suc k)) ?m"
    unfolding seq_from.simps two by (auto simp: drop_keys_def)
  ultimately show "reassembled k (st\<lparr>inbound_data := ?m(?n := None),
       received_data := received_data st @ d, stream_ack := ?n\<rparr>) = reassembled (Suc k) st"
    unfolding reassembled_def by (simp add: two algebra_simps del: seq_from.simps)
qed

lemma assemble_spec:
  assumes "bytes_crate B"
  shows "\<exists>k. present_run (inbound_data st) (stream_ack st + 1) k \<and>
    assemble B (stream_ack st + 1) st = reassembled k st \<and>
    inbound_data (reassembled k st) (stream_ack (reassembled k st) + 1) = None"
proof (induction "card (dom (inbound_data st))" arbitrary: st rule: less_induct)
  case less
  let ?n = "stream_ack st + 1"
  show ?case
  proof (cases "inbound_data st ?n")
    case None
    then have "assemble B ?n st = st" by (simp add: assemble.simps)
    with None show ?thesis
      by (intro exI [of _ 0]) (simp add: present_run_def run_data_def reassembled_def drop_keys_def)
  next
    case (Some d)
    let ?st = "st\<lparr>inbound_data := (inbound_data st)(?n := None),
      received_data := received_data st @ d, stream_ack := ?n\<rparr>"
    have "card (dom (inbound_data ?st)) < card (dom (inbound_data st))"
      using Some by (auto intro!: psubset_card_mono)
    from less [OF this] obtain k where
      k: "present_run (inbound_data ?st) (stream_ack ?st + 1) k"
      "assemble B (stream_ack ?st + 1) ?st = reassembled k ?st"
      "inbound_data (reassembled k ?st) (stream_ack (reassembled k ?st) + 1) = None" by blast
    have "assemble B ?n st = assemble B (stream_ack ?st + 1) ?st"
      using Some assms by (simp add: assemble.simps [of B ?n st] bytes_crate.buf_laws)
    with k reassembled_Suc [OF Some, of k] show ?thesis
      by (intro exI [of _ "Suc k"]) simp
  qed
qed

section \<open>One call of poll_read\<close>

text \<open>
  What a call does after the packet loop, on a stream \<open>st\<close>: reassembly of \<open>k\<close> packets, an
  acknowledgement, and the data that fits the caller's buffer.
\<close>

definition read_result :: "utp_stream \<Rightarrow> nat \<Rightarrow> (io_error + bytes) poll \<times> utp_stream" where
  "read_result st n =
     (if received_data st = [] then Pending else Ready (Inr (take n (received_data st))),
      st\<lparr>received_data := drop n (received_data st)\<rparr>)"

definition read_ends ::
  "'w ext \<Rightarrow> ('w \<Rightarrow> rt) \<Rightarrow> rt \<Rightarrow> utp_stream \<Rightarrow> nat \<Rightarrow>
    ((io_error + bytes) poll \<times> utp_stream \<times> 'w) run \<Rightarrow> bool"
where
  "read_ends E view v st n r \<longleftrightarrow>
     (\<exists>w'. if out_rx v (stream_out st) then
        r = ret (fst (read_result st n), snd (read_result st n), w') \<and>
        (\<exists>micros. view w' = upd_out_q (stream_out st) (out_q v (stream_out st) @
          [(stream_packet st State micros (stream_seq st) [], remote_addr st)]) v)
      else r = ret (Ready (Inl (IoSend KindOther)), st, w') \<and> view w' = v)"

text \<open>
  The whole call: it takes some packets from the channel, absorbs them, and either finds the
  packet stream terminated or goes on with the packets reassembled.
\<close>

definition read_absorbs ::
  "'w ext \<Rightarrow> ('w \<Rightarrow> rt) \<Rightarrow> utp_stream \<Rightarrow> nat \<Rightarrow> 'w \<Rightarrow> (u32 \<times> packet) list \<Rightarrow> packet list \<Rightarrow> bool"
where
  "read_absorbs E view st n w tps rest \<longleftrightarrow>
     in_q (view w) (inbound_packets st) = map snd tps @ rest \<and>
     (case absorb st tps of
        Panic e \<Rightarrow> poll_read E st n w = abort e
      | Ret st1 \<Rightarrow>
          (\<exists>w'. poll_read E st n w = ret (Ready (Inr []), st1\<lparr>is_shutdown := True\<rparr>, w') \<and>
             rest = [] \<and> \<not> in_tx (view w) (inbound_packets st) \<and>
             view w' = upd_in_q (inbound_packets st) [] (view w)) \<or>
          (\<exists>k w0 w1. poll_recv (inbound E) (inbound_packets st) w0 = (Pending, w1) \<and>
             in_q (view w0) (inbound_packets st) = rest \<and> in_tx (view w0) = in_tx (view w) \<and>
             present_run (inbound_data st1) (stream_ack st1 + 1) k \<and>
             inbound_data (reassembled k st1) (stream_ack (reassembled k st1) + 1) = None \<and>
             read_ends E view (upd_in_q (inbound_packets st) rest (view w)) (reassembled k st1) n
               (poll_read E st n w)))"

context runtime
begin

lemma send_ack_ends:
  "read_ends E view (view w) st n
    (run_bind (send_ack E st w) (\<lambda>(r, w).
       case r of
         Inl e \<Rightarrow> ret (Ready (Inl e), st, w)
       | Inr _ \<Rightarrow>
           if received_data st = [] then ret (Pending, st, w)
           else
             run_bind
               (Some (if length (received_data st) > n
                 then split_to (buf E) (received_data st) n
                 else Ret (split_all (buf E) (received_data st))))
               (\<lambda>(chunk, left). ret (Ready (Inr chunk), st\<lparr>received_data := left\<rparr>, w))))"
proof -
  from send_packet_spec [of st State "stream_seq st" "[]" w] obtain micros w' where
    ack: "send_ack E st w =
      ret (if out_rx (view w) (stream_out st) then Inr () else Inl (IoSend KindOther), w')"
    "view w' = (if out_rx (view w) (stream_out st)
      then upd_out_q (stream_out st) (out_q (view w) (stream_out st) @
        [(stream_packet st State micros (stream_seq st) [], remote_addr st)]) (view w)
      else view w)" by (auto simp: send_ack_def)
  have same: "received_data st = [] \<Longrightarrow> st\<lparr>received_data := []\<rparr> = st" by simp
  show ?thesis
    unfolding read_ends_def using ack same
    by (intro exI [of _ w']) (auto simp: read_result_def buf_laws)
qed

lemma poll_read_spec: "\<exists>tps rest. read_absorbs E view st n w tps rest"
proof -
  obtain tps rest where abs: "absorbed E view st w tps rest"
    using process_packets_absorbs by blast
  have "read_absorbs E view st n w tps rest"
  proof (cases "absorb st tps")
    case (Panic e)
    with abs show ?thesis by (simp add: absorbed_def read_absorbs_def poll_read_def)
  next
    case (Ret st1)
    with abs have "loop_ends E view (inbound_packets st) (view w) rest st1 (process_packets E st w)"
      by (simp add: absorbed_def)
    then consider w' where "process_packets E st w = ret (True, st1\<lparr>is_shutdown := True\<rparr>, w')"
        "view w' = upd_in_q (inbound_packets st) rest (view w)" "rest = []"
        "\<not> in_tx (view w) (inbound_packets st)"
      | w' w0 where "process_packets E st w = ret (False, st1, w')"
        "view w' = upd_in_q (inbound_packets st) rest (view w)"
        "poll_recv (inbound E) (inbound_packets st) w0 = (Pending, w')"
        "in_q (view w0) (inbound_packets st) = rest" "in_tx (view w0) = in_tx (view w)"
      unfolding loop_ends_def by blast
    then show ?thesis
    proof cases
      case 1
      with Ret abs show ?thesis by (simp add: absorbed_def read_absorbs_def poll_read_def)
    next
      case (2 w' w0)
      from assemble_spec [OF bytes_crate_axioms, of st1] obtain k where
        k: "present_run (inbound_data st1) (stream_ack st1 + 1) k"
        "assemble (buf E) (stream_ack st1 + 1) st1 = reassembled k st1"
        "inbound_data (reassembled k st1) (stream_ack (reassembled k st1) + 1) = None" by blast
      from send_ack_ends [of w' "reassembled k st1" n]
      have "read_ends E view (upd_in_q (inbound_packets st) rest (view w)) (reassembled k st1) n
            (poll_read E st n w)"
        by (simp only: poll_read_def Let_def 2(1,2) k(2) run_bind_simps prod.case if_False)
      with k Ret abs 2(3-) show ?thesis unfolding read_absorbs_def absorbed_def by auto
    qed
  qed
  then show ?thesis by blast
qed

end

section \<open>Delivery in order\<close>

text \<open>
  The peer has cut its data into the segments \<open>msgs\<close>, numbered from \<open>s\<close> on.  A packet from it
  carries one of them under its number, or is an acknowledgement.  The invariant of the
  receiving side: the data handed to the reader so far (\<open>out\<close>) and the data waiting for it are
  the first \<open>k\<close> segments, and the buffer of segments received out of order holds segments
  under their numbers.
\<close>

definition genuine :: "u16 \<Rightarrow> bytes list \<Rightarrow> packet \<Rightarrow> bool" where
  "genuine s msgs p \<longleftrightarrow> packet_type p = State \<or>
     packet_type p = Data \<and> (\<exists>i<length msgs. seq_number p = s + of_nat i \<and> data p = msgs ! i)"

definition segments_at :: "u16 \<Rightarrow> bytes list \<Rightarrow> (u16 \<rightharpoonup> bytes) \<Rightarrow> bool" where
  "segments_at s msgs m \<longleftrightarrow> (\<forall>q d. m q = Some d \<longrightarrow> (\<exists>i<length msgs. q = s + of_nat i \<and> d = msgs ! i))"

definition rx_at :: "u16 \<Rightarrow> bytes list \<Rightarrow> bytes \<Rightarrow> nat \<Rightarrow> utp_stream \<Rightarrow> bool" where
  "rx_at s msgs out k st \<longleftrightarrow> k \<le> length msgs \<and> stream_ack st + 1 = s + of_nat k \<and>
     out @ received_data st = concat (take k msgs) \<and> segments_at s msgs (inbound_data st)"

definition rx_inv :: "u16 \<Rightarrow> bytes list \<Rightarrow> bytes \<Rightarrow> utp_stream \<Rightarrow> bool" where
  "rx_inv s msgs out st \<longleftrightarrow> (\<exists>k. rx_at s msgs out k st)"

lemma segments_at_upd:
  "segments_at s msgs m \<Longrightarrow> i < length msgs \<Longrightarrow> segments_at s msgs (m(s + of_nat i \<mapsto> msgs ! i))"
  unfolding segments_at_def by auto

lemma segments_at_drop: "segments_at s msgs m \<Longrightarrow> segments_at s msgs (drop_keys qs m)"
  unfolding segments_at_def drop_keys_def by (auto split: if_splits)

lemma absorb_packet_genuine:
  assumes "genuine s msgs (snd tp)"
  obtains st' where "absorb_packet st tp = Ret st'"
    "segments_at s msgs (inbound_data st) \<Longrightarrow> segments_at s msgs (inbound_data st')"
    "dom (inbound_data st) \<subseteq> dom (inbound_data st')"
    "packet_type (snd tp) = Data \<Longrightarrow> is_suspicious st (snd tp) = Ret False \<Longrightarrow>
      inbound_data st' (seq_number (snd tp)) \<noteq> None"
proof -
  have "\<exists>b. is_suspicious st (snd tp) = Ret b"
    using assms by (auto simp: genuine_def is_suspicious_def Let_def)
  then obtain b where b: "is_suspicious st (snd tp) = Ret b" by blast
  from assms consider "packet_type (snd tp) = State"
    | i where "packet_type (snd tp) = Data" "i < length msgs" "seq_number (snd tp) = s + of_nat i"
      "data (snd tp) = msgs ! i"
    unfolding genuine_def by blast
  then show ?thesis
  proof cases
    case 1
    with b that show ?thesis by (cases b) (auto simp: absorb_packet_def handle_packet_def)
  next
    case (2 i)
    with b that segments_at_upd [of s msgs "inbound_data st" i] show ?thesis
      by (cases b) (auto simp: absorb_packet_def handle_packet_def)
  qed
qed

lemma data_suspicion:
  "packet_type p = Data \<Longrightarrow> is_suspicious st p =
     Ret (128 < stream_ack st - seq_number p \<and> 128 < seq_number p - stream_ack st)"
  by (simp add: is_suspicious_def Let_def)

lemma absorb_genuine:
  assumes "\<forall>p\<in>set (map snd tps). genuine s msgs p"
  shows "\<exists>st'. absorb st tps = Ret st' \<and>
    (segments_at s msgs (inbound_data st) \<longrightarrow> segments_at s msgs (inbound_data st')) \<and>
    dom (inbound_data st) \<subseteq> dom (inbound_data st') \<and>
    (\<forall>p\<in>set (map snd tps). packet_type p = Data \<longrightarrow> is_suspicious st p = Ret False \<longrightarrow>
      inbound_data st' (seq_number p) \<noteq> None)"
  using assms
proof (induction tps arbitrary: st)
  case Nil
  then show ?case by simp
next
  case (Cons tp tps)
  from Cons.prems have "genuine s msgs (snd tp)" by simp
  then obtain st1 where
    one: "absorb_packet st tp = Ret st1"
    "segments_at s msgs (inbound_data st) \<Longrightarrow> segments_at s msgs (inbound_data st1)"
    "dom (inbound_data st) \<subseteq> dom (inbound_data st1)"
    "packet_type (snd tp) = Data \<Longrightarrow> is_suspicious st (snd tp) = Ret False \<Longrightarrow>
      inbound_data st1 (seq_number (snd tp)) \<noteq> None"
    by (rule absorb_packet_genuine [where st = st]) blast
  from Cons.IH [of st1] Cons.prems obtain st2 where
    two: "absorb st1 tps = Ret st2"
    "segments_at s msgs (inbound_data st1) \<longrightarrow> segments_at s msgs (inbound_data st2)"
    "dom (inbound_data st1) \<subseteq> dom (inbound_data st2)"
    "\<forall>p\<in>set (map snd tps). packet_type p = Data \<longrightarrow> is_suspicious st1 p = Ret False \<longrightarrow>
      inbound_data st2 (seq_number p) \<noteq> None" by auto
  have same: "is_suspicious st1 p = is_suspicious st p" if "packet_type p = Data" for p
    using that absorb_packet_frame(2) [OF one(1)] by (simp add: data_suspicion)
  have "inbound_data st2 (seq_number (snd tp)) \<noteq> None"
    if "packet_type (snd tp) = Data" "is_suspicious st (snd tp) = Ret False"
    using one(4) [OF that] two(3) by blast
  with one two same show ?case by auto
qed

lemma run_of_segments:
  assumes "segments_at s msgs m" and "length msgs < 2 ^ 16" and "j \<le> length msgs"
    and "present_run m (s + of_nat j) k"
  shows "j + k \<le> length msgs \<and> run_data m (s + of_nat j) k = concat (take k (drop j msgs))"
  using assms(3,4)
proof (induction k arbitrary: j)
  case 0
  then show ?case by (simp add: run_data_def)
next
  case (Suc k)
  from Suc.prems(2) obtain d where d: "m (s + of_nat j) = Some d"
    and rest: "present_run m (s + of_nat (Suc j)) k"
    by (auto simp: present_run_Suc algebra_simps)
  from d assms(1) obtain i where i: "i < length msgs" "(of_nat j :: u16) = of_nat i" "d = msgs ! i"
    unfolding segments_at_def by force
  with assms(2) Suc.prems(1) of_nat_u16_eq_iff [of j i] have "j = i" by simp
  with i d Suc.IH [OF _ rest] Cons_nth_drop_Suc [of j msgs, symmetric] show ?case
    by (simp add: run_data_def algebra_simps)
qed

lemma reassembled_rx:
  assumes "rx_at s msgs out j st" and "length msgs < 2 ^ 16"
    and "present_run (inbound_data st) (stream_ack st + 1) k"
  shows "rx_at s msgs out (j + k) (reassembled k st)"
proof -
  from assms(1) have at: "stream_ack st + 1 = s + of_nat j" "j \<le> length msgs"
    "segments_at s msgs (inbound_data st)" "out @ received_data st = concat (take j msgs)"
    by (simp_all add: rx_at_def)
  have ack: "stream_ack st + of_nat k + 1 = s + of_nat (j + k)"
    using at(1) by (simp add: algebra_simps)
  from run_of_segments [OF at(3) assms(2) at(2)] assms(3) at(1)
  have "j + k \<le> length msgs"
    "run_data (inbound_data st) (stream_ack st + 1) k = concat (take k (drop j msgs))" by simp_all
  with at ack show ?thesis
    by (simp add: rx_at_def reassembled_def segments_at_drop take_add flip: append_assoc)
qed

text \<open>The bytes that a call of \<open>poll_read\<close> hands over.\<close>

definition bytes_read :: "(io_error + bytes) poll \<Rightarrow> bytes" where
  "bytes_read r = (case r of Ready (Inr bs) \<Rightarrow> bs | _ \<Rightarrow> [])"

lemma read_result_fields [simp]:
  "bytes_read (fst (read_result st n)) = take n (received_data st)"
  "received_data (snd (read_result st n)) = drop n (received_data st)"
  "stream_ack (snd (read_result st n)) = stream_ack st"
  "stream_seq (snd (read_result st n)) = stream_seq st"
  "connection_id_send (snd (read_result st n)) = connection_id_send st"
  "inbound_data (snd (read_result st n)) = inbound_data st"
  "unacked_data (snd (read_result st n)) = unacked_data st"
  by (simp_all add: read_result_def bytes_read_def)

lemma read_result_rx:
  "rx_at s msgs out k st \<Longrightarrow>
     rx_at s msgs (out @ bytes_read (fst (read_result st n))) k (snd (read_result st n))"
  by (auto simp: rx_at_def read_result_def bytes_read_def)

lemma read_ends_rx:
  assumes "read_ends E view v st n r" and "rx_at s msgs out k st"
  shows "\<exists>res st' w'. r = ret (res, st', w') \<and> rx_at s msgs (out @ bytes_read res) k st' \<and>
    in_q (view w') = in_q v \<and> inbound_packets st' = inbound_packets st"
  using assms read_result_rx [OF assms(2), of n]
  by (auto simp: read_ends_def bytes_read_def read_result_def split: if_splits)

lemma absorb_rx:
  assumes "\<forall>p\<in>set (map snd tps). genuine s msgs p" and "rx_at s msgs out k st"
  obtains st1 where "absorb st tps = Ret st1" "rx_at s msgs out k st1"
    "inbound_packets st1 = inbound_packets st"
proof -
  from absorb_genuine [OF assms(1), of st] obtain st1 where
    "absorb st tps = Ret st1"
    "segments_at s msgs (inbound_data st) \<longrightarrow> segments_at s msgs (inbound_data st1)" by blast
  with that absorb_frame [of st tps st1] assms(2) show ?thesis by (simp add: rx_at_def)
qed

lemma rx_at_shutdown [simp]: "rx_at s msgs out k (st\<lparr>is_shutdown := b\<rparr>) = rx_at s msgs out k st"
  by (simp add: rx_at_def)

context runtime
begin

lemma poll_read_rx:
  assumes "length msgs < 2 ^ 16" and "rx_at s msgs out k st"
    and "\<forall>p\<in>set (in_q (view w) (inbound_packets st)). genuine s msgs p"
  shows "\<exists>res st' w' k'. poll_read E st n w = ret (res, st', w') \<and> k \<le> k' \<and>
    rx_at s msgs (out @ bytes_read res) k' st' \<and> inbound_packets st' = inbound_packets st \<and>
    (\<exists>taken. in_q (view w) (inbound_packets st) = taken @ in_q (view w') (inbound_packets st))"
proof -
  obtain tps rest where abs: "read_absorbs E view st n w tps rest" using poll_read_spec by blast
  then have q: "in_q (view w) (inbound_packets st) = map snd tps @ rest"
    by (simp add: read_absorbs_def)
  with assms(3) have gen: "\<forall>p\<in>set (map snd tps). genuine s msgs p" by simp
  obtain st1 where st1: "absorb st tps = Ret st1" "rx_at s msgs out k st1"
    "inbound_packets st1 = inbound_packets st" by (rule absorb_rx [OF gen assms(2)])
  from abs st1(1) consider
      w' where "poll_read E st n w = ret (Ready (Inr []), st1\<lparr>is_shutdown := True\<rparr>, w')" "rest = []"
        "view w' = upd_in_q (inbound_packets st) [] (view w)"
    | j where "present_run (inbound_data st1) (stream_ack st1 + 1) j"
        "read_ends E view (upd_in_q (inbound_packets st) rest (view w)) (reassembled j st1) n
          (poll_read E st n w)"
    unfolding read_absorbs_def by auto
  then show ?thesis
  proof cases
    case 1
    with st1 q show ?thesis by (auto simp: bytes_read_def)
  next
    case (2 j)
    have "inbound_packets (reassembled j st1) = inbound_packets st"
      using st1(3) by (simp add: reassembled_def)
    with read_ends_rx [OF 2(2) reassembled_rx [OF st1(2) assms(1) 2(1)]] obtain res st' w' where
      "poll_read E st n w = ret (res, st', w')" "rx_at s msgs (out @ bytes_read res) (k + j) st'"
      "in_q (view w') (inbound_packets st) = rest" "inbound_packets st' = inbound_packets st"
      by auto
    with q show ?thesis
      by (intro exI [of _ res] exI [of _ st'] exI [of _ w'] exI [of _ "k + j"]) auto
  qed
qed

lemma process_packets_rx:
  assumes "rx_at s msgs out k st"
    and "\<forall>p\<in>set (in_q (view w) (inbound_packets st)). genuine s msgs p"
  shows "\<exists>b st' w'. process_packets E st w = ret (b, st', w') \<and> rx_at s msgs out k st' \<and>
    inbound_packets st' = inbound_packets st \<and>
    (\<exists>taken. in_q (view w) (inbound_packets st) = taken @ in_q (view w') (inbound_packets st))"
proof -
  obtain tps rest where abs: "absorbed E view st w tps rest" using process_packets_absorbs by blast
  then have q: "in_q (view w) (inbound_packets st) = map snd tps @ rest" by (simp add: absorbed_def)
  with assms(2) have gen: "\<forall>p\<in>set (map snd tps). genuine s msgs p" by simp
  obtain st1 where st1: "absorb st tps = Ret st1" "rx_at s msgs out k st1"
    "inbound_packets st1 = inbound_packets st" by (rule absorb_rx [OF gen assms(1)])
  with abs have "loop_ends E view (inbound_packets st) (view w) rest st1 (process_packets E st w)"
    by (simp add: absorbed_def)
  with st1 q show ?thesis unfolding loop_ends_def by auto
qed

end

section \<open>When everything is delivered\<close>

lemma near_not_suspicious:
  assumes "packet_type p = Data" and "seq_number p = stream_ack st + of_nat d" and "d \<le> 128"
  shows "is_suspicious st p = Ret False"
  using assms by (simp add: data_suspicion word_less_nat_alt)

lemma far_suspicious:
  assumes "packet_type p = Data" and "seq_number p = stream_ack st + of_nat d"
    and "128 < d" and "d < 65408"
  shows "is_suspicious st p = Ret True"
proof -
  have left: "stream_ack st - seq_number p = of_nat (65536 - d)"
    using assms(2,4) by simp
  have right: "seq_number p - stream_ack st = of_nat d" using assms(2) by simp
  have "128 < unat (of_nat (65536 - d) :: u16)" "128 < unat (of_nat d :: u16)"
    using assms(3,4) by (subst unat_of_nat_u16; simp)+
  then show ?thesis
    unfolding data_suspicion [OF assms(1)] word_less_nat_alt left right by simp
qed

lemma absorb_collects:
  assumes gen: "\<forall>p\<in>set (map snd tps). genuine s msgs p"
    and "rx_at s msgs out k st" and "length msgs \<le> k + 128" and "absorb st tps = Ret st1"
    and "\<exists>p\<in>set (map snd tps). packet_type p = Data \<and> seq_number p = s + of_nat i"
    and "k \<le> i" and "i < length msgs"
  shows "inbound_data st1 (s + of_nat i) \<noteq> None"
proof -
  from assms(5) obtain p where p: "p \<in> set (map snd tps)" "packet_type p = Data"
    "seq_number p = s + of_nat i" by blast
  have "is_suspicious st p = Ret False"
  proof (rule near_not_suspicious [where d = "i + 1 - k"])
    have "stream_ack st = s + of_nat k - 1" using assms(2) by (simp add: rx_at_def algebra_simps)
    with p assms(6) show "seq_number p = stream_ack st + of_nat (i + 1 - k)" by simp
  qed (use p assms in auto)
  with absorb_genuine [OF gen, of st] p assms(4) show ?thesis by auto
qed

lemma reassembled_to_end:
  assumes "rx_at s msgs out j st" and "length msgs < 2 ^ 16"
    and "present_run (inbound_data st) (stream_ack st + 1) k"
    and "inbound_data (reassembled k st) (stream_ack (reassembled k st) + 1) = None"
    and "\<And>i. j \<le> i \<Longrightarrow> i < length msgs \<Longrightarrow> inbound_data st (s + of_nat i) \<noteq> None"
  shows "j + k = length msgs"
proof (rule ccontr)
  assume "j + k \<noteq> length msgs"
  note at = reassembled_rx [OF assms(1-3)]
  with \<open>j + k \<noteq> length msgs\<close> have less: "j + k < length msgs" by (simp add: rx_at_def)
  have key: "stream_ack (reassembled k st) + 1 = s + of_nat (j + k)" using at by (simp add: rx_at_def)
  have start: "stream_ack st + 1 = s + of_nat j" using assms(1) by (simp add: rx_at_def)
  have "s + of_nat (j + k) \<notin> set (seq_from (stream_ack st + 1) k)"
  proof
    assume "s + of_nat (j + k) \<in> set (seq_from (stream_ack st + 1) k)"
    then obtain i where "i < k" "(of_nat (j + k) :: u16) = of_nat (j + i)"
      unfolding start in_seq_from by auto
    with less assms(2) of_nat_u16_eq_iff [of "j + k" "j + i"] show False by simp
  qed
  then have "inbound_data (reassembled k st) (s + of_nat (j + k)) = inbound_data st (s + of_nat (j + k))"
    by (simp add: reassembled_def drop_keys_def)
  with assms(4) assms(5) [of "j + k"] less key show False by simp
qed

context prompt_runtime
begin

lemma poll_read_drains:
  assumes "\<forall>p\<in>set (in_q (view w) (inbound_packets st)). packet_type p \<in> {Data, State}"
  obtains tps st1 where "read_absorbs E view st n w tps []" "absorb st tps = Ret st1"
    "map snd tps = in_q (view w) (inbound_packets st)"
proof -
  obtain tps rest where abs: "read_absorbs E view st n w tps rest" using poll_read_spec by blast
  then have q: "in_q (view w) (inbound_packets st) = map snd tps @ rest"
    by (simp add: read_absorbs_def)
  with assms absorb_total [of tps st] obtain st1 where st1: "absorb st tps = Ret st1" by auto
  with abs in_poll_prompt have "rest = []" unfolding read_absorbs_def by auto
  with q st1 abs that show ?thesis by simp
qed

lemma poll_read_live:
  assumes "\<forall>p\<in>set (in_q (view w) (inbound_packets st)). packet_type p \<in> {Data, State}"
    and "in_tx (view w) (inbound_packets st)"
  obtains tps st1 k where "map snd tps = in_q (view w) (inbound_packets st)" "absorb st tps = Ret st1"
    "present_run (inbound_data st1) (stream_ack st1 + 1) k"
    "inbound_data (reassembled k st1) (stream_ack (reassembled k st1) + 1) = None"
    "read_ends E view (upd_in_q (inbound_packets st) [] (view w)) (reassembled k st1) n
      (poll_read E st n w)"
proof -
  obtain tps st1 where run: "read_absorbs E view st n w tps []" "absorb st tps = Ret st1"
    "map snd tps = in_q (view w) (inbound_packets st)" by (rule poll_read_drains [OF assms(1)])
  from run(1,2) assms(2) obtain k where
    "present_run (inbound_data st1) (stream_ack st1 + 1) k"
    "inbound_data (reassembled k st1) (stream_ack (reassembled k st1) + 1) = None"
    "read_ends E view (upd_in_q (inbound_packets st) [] (view w)) (reassembled k st1) n
      (poll_read E st n w)"
    unfolding read_absorbs_def by (simp only: outcome.case) blast
  with that [OF run(3,2)] show ?thesis by blast
qed

lemma poll_read_terminated:
  assumes "\<forall>p\<in>set (in_q (view w) (inbound_packets st)). packet_type p \<in> {Data, State}"
    and "\<not> in_tx (view w) (inbound_packets st)"
  obtains tps st1 w' where "absorb st tps = Ret st1"
    "poll_read E st n w = ret (Ready (Inr []), st1\<lparr>is_shutdown := True\<rparr>, w')"
    "view w' = upd_in_q (inbound_packets st) [] (view w)"
proof -
  obtain tps st1 where run: "read_absorbs E view st n w tps []" "absorb st tps = Ret st1"
    "map snd tps = in_q (view w) (inbound_packets st)" by (rule poll_read_drains [OF assms(1)])
  have no: "\<not> (\<exists>w0 w1. poll_recv (inbound E) (inbound_packets st) w0 = (Pending, w1) \<and>
      in_tx (view w0) = in_tx (view w))"
    using in_poll_prompt assms(2) by metis
  from run(1,2) no have "\<exists>w'. poll_read E st n w = ret (Ready (Inr []), st1\<lparr>is_shutdown := True\<rparr>, w') \<and>
      view w' = upd_in_q (inbound_packets st) [] (view w)"
    unfolding read_absorbs_def by (simp only: outcome.case) blast
  with that [OF run(2)] show ?thesis by blast
qed

text \<open>All missing segments are among the packets that have arrived.\<close>

lemma poll_read_all:
  assumes "length msgs < 2 ^ 16" and "rx_at s msgs out k st" and "length msgs \<le> k + 128"
    and "in_tx (view w) (inbound_packets st)" and "out_rx (view w) (stream_out st)"
    and gen: "\<forall>p\<in>set (in_q (view w) (inbound_packets st)). genuine s msgs p"
    and here: "\<And>i. k \<le> i \<Longrightarrow> i < length msgs \<Longrightarrow>
      \<exists>p\<in>set (in_q (view w) (inbound_packets st)). packet_type p = Data \<and> seq_number p = s + of_nat i"
  obtains r st' w' micros where "poll_read E st n w = ret (r, st', w')"
    "bytes_read r = take n (drop (length out) (concat msgs))"
    "rx_at s msgs (out @ bytes_read r) (length msgs) st'"
    "view w' = upd_out_q (stream_out st) (out_q (view w) (stream_out st) @
      [(stream_packet st' State micros (stream_seq st') [], remote_addr st)])
      (upd_in_q (inbound_packets st) [] (view w))"
proof -
  from gen have "\<forall>p\<in>set (in_q (view w) (inbound_packets st)). packet_type p \<in> {Data, State}"
    by (auto simp: genuine_def)
  then obtain tps st1 j where run: "map snd tps = in_q (view w) (inbound_packets st)"
    "absorb st tps = Ret st1"
    and j: "present_run (inbound_data st1) (stream_ack st1 + 1) j"
    "inbound_data (reassembled j st1) (stream_ack (reassembled j st1) + 1) = None"
    "read_ends E view (upd_in_q (inbound_packets st) [] (view w)) (reassembled j st1) n
       (poll_read E st n w)"
    by (rule poll_read_live [OF _ assms(4), where n = n])
  from gen run(1) have gen': "\<forall>p\<in>set (map snd tps). genuine s msgs p" by simp
  from absorb_rx [OF gen' assms(2)] run(2) have at1: "rx_at s msgs out k st1" by force
  have "inbound_data st1 (s + of_nat i) \<noteq> None" if "k \<le> i" "i < length msgs" for i
    using absorb_collects [OF gen' assms(2,3) run(2) _ that] here [OF that] run(1) by auto
  from reassembled_to_end [OF at1 assms(1) j(1,2) this] have end_: "k + j = length msgs" by blast
  let ?st = "reassembled j st1"
  have at: "rx_at s msgs out (length msgs) ?st"
    using reassembled_rx [OF at1 assms(1) j(1)] end_ by simp
  have frame: "stream_out ?st = stream_out st" "remote_addr ?st = remote_addr st"
    using absorb_frame [OF run(2)] by (simp_all add: reassembled_def)
  from j(3) assms(5) frame obtain w' micros where
    fin: "poll_read E st n w = ret (fst (read_result ?st n), snd (read_result ?st n), w')"
    "view w' = upd_out_q (stream_out st) (out_q (view w) (stream_out st) @
      [(stream_packet ?st State micros (stream_seq ?st) [], remote_addr st)])
      (upd_in_q (inbound_packets st) [] (view w))"
    by (auto simp: read_ends_def)
  have "received_data ?st = drop (length out) (concat msgs)"
    using at by (metis append_eq_conv_conj order_refl rx_at_def take_all)
  with that [OF fin(1)] fin(2) read_result_rx [OF at] show ?thesis by simp
qed

lemma poll_read_completes:
  assumes "length msgs < 2 ^ 16" and "rx_at s msgs out k st" and "length msgs \<le> k + 128"
    and "in_tx (view w) (inbound_packets st)" and "out_rx (view w) (stream_out st)"
    and "\<forall>p\<in>set (in_q (view w) (inbound_packets st)). genuine s msgs p"
    and "\<And>i. k \<le> i \<Longrightarrow> i < length msgs \<Longrightarrow>
      \<exists>p\<in>set (in_q (view w) (inbound_packets st)). packet_type p = Data \<and> seq_number p = s + of_nat i"
  shows "\<exists>r st' w' micros. poll_read E st n w = ret (r, st', w') \<and>
    stream_ack st' + 1 = s + of_nat (length msgs) \<and>
    bytes_read r = take n (drop (length out) (concat msgs)) \<and>
    out @ bytes_read r @ received_data st' = concat msgs \<and>
    out_q (view w') (stream_out st) = out_q (view w) (stream_out st) @
      [(stream_packet st' State micros (stream_seq st') [], remote_addr st)]"
  by (rule poll_read_all [OF assms, where n = n]) (auto simp: rx_at_def)

end

end
