(* ===== verification/Utp_Stream_Reading.thy ===== *)
theory Utp_Stream_Reading
  imports Utp_Stream_Receive
begin

text \<open>
  What a reader of a stream gets: everything the peer sent once the missing packets have
  arrived within the acceptable distance; and the cases in which \<open>poll_read\<close> does not deliver:
  segments beyond that distance, a duplicate that is kept, packets of the types that are not
  handled, and a packet stream that has terminated.
\<close>

section \<open>Packets that add nothing to the data in order\<close>

lemma reassembled_nothing:
  assumes "inbound_data st (stream_ack st + 1) = None"
    and "present_run (inbound_data st) (stream_ack st + 1) k"
  shows "reassembled k st = st"
proof -
  have "k = 0" using assms by (cases k) (simp_all add: present_run_Suc)
  then show ?thesis by (simp add: reassembled_def drop_keys_def run_data_def)
qed

text \<open>A segment between 128 and 65408 ahead of the last one in order, modulo \<open>2 ^ 16\<close>.\<close>

definition far_segment :: "utp_stream \<Rightarrow> packet \<Rightarrow> bool" where
  "far_segment st p \<longleftrightarrow> packet_type p = Data \<and>
     (let d = unat (seq_number p - stream_ack st) in 128 < d \<and> d < 65408)"

lemma absorb_far: "\<forall>p\<in>set (map snd tps). far_segment st p \<Longrightarrow> absorb st tps = Ret st"
proof (induction tps)
  case (Cons tp tps)
  then have "is_suspicious st (snd tp) = Ret True"
    by (intro far_suspicious [where d = "unat (seq_number (snd tp) - stream_ack st)"])
      (simp_all add: far_segment_def Let_def)
  with Cons show ?case by (simp add: absorb_packet_def)
qed simp

context runtime
begin

lemma poll_read_far:
  assumes "\<forall>p\<in>set (in_q (view w) (inbound_packets st)). far_segment st p"
    and "inbound_data st (stream_ack st + 1) = None"
  shows "\<exists>r st' w' taken. poll_read E st n w = ret (r, st', w') \<and>
    in_q (view w) (inbound_packets st) = taken @ in_q (view w') (inbound_packets st) \<and>
    stream_ack st' = stream_ack st \<and> inbound_data st' = inbound_data st \<and>
    bytes_read r @ received_data st' = received_data st \<and>
    (prompt_runtime E view \<longrightarrow> in_q (view w') (inbound_packets st) = [])"
proof -
  obtain tps rest where abs: "read_absorbs E view st n w tps rest" using poll_read_spec by blast
  then have q: "in_q (view w) (inbound_packets st) = map snd tps @ rest" by (simp add: read_absorbs_def)
  with assms(1) have far: "absorb st tps = Ret st" by (intro absorb_far) simp
  from abs far consider
      w' where "poll_read E st n w = ret (Ready (Inr []), st\<lparr>is_shutdown := True\<rparr>, w')" "rest = []"
        "view w' = upd_in_q (inbound_packets st) [] (view w)"
    | k w0 w1 where "present_run (inbound_data st) (stream_ack st + 1) k"
        "poll_recv (inbound E) (inbound_packets st) w0 = (Pending, w1)"
        "in_q (view w0) (inbound_packets st) = rest"
        "read_ends E view (upd_in_q (inbound_packets st) rest (view w)) (reassembled k st) n
          (poll_read E st n w)"
    unfolding read_absorbs_def by (simp only: outcome.case) blast
  then show ?thesis
  proof cases
    case 1
    with q show ?thesis by (intro exI [of _ "Ready (Inr [])"]) (auto simp: bytes_read_def)
  next
    case (2 k w0 w1)
    have prompt: "prompt_runtime E view \<longrightarrow> rest = []"
      using prompt_runtime.in_poll_prompt [OF _ 2(2)] 2(3) by blast
    from 2 reassembled_nothing [OF assms(2)] have
      "read_ends E view (upd_in_q (inbound_packets st) rest (view w)) st n (poll_read E st n w)" by simp
    with q prompt show ?thesis unfolding read_ends_def
      by (cases "out_rx (view w) (stream_out st)") (auto simp: read_result_def bytes_read_def)
  qed
qed

end

section \<open>Packets that are not handled\<close>

lemma absorb_packet_panic:
  "absorb_packet st tp = Panic e \<Longrightarrow> e = Todo"
  "packet_type (snd tp) \<notin> {Data, State} \<Longrightarrow> absorb_packet st tp = Panic Todo"
  by (auto simp: absorb_packet_def is_suspicious_def handle_packet_def Let_def
      split: outcome.splits bool.splits packet_type.splits)

lemma absorb_panic_Todo: "absorb st tps = Panic e \<Longrightarrow> e = Todo"
  by (induction tps arbitrary: st) (auto split: outcome.splits dest: absorb_packet_panic(1))

lemma absorb_panics:
  "p \<in> set (map snd tps) \<Longrightarrow> packet_type p \<notin> {Data, State} \<Longrightarrow> absorb st tps = Panic Todo"
proof (induction tps arbitrary: st)
  case (Cons tp tps)
  then show ?case
    using absorb_packet_panic [where st = st and tp = tp] by (auto split: outcome.splits)
qed simp

context prompt_runtime
begin

lemma process_packets_panics:
  assumes "p \<in> set (in_q (view w) (inbound_packets st))" and "packet_type p \<notin> {Data, State}"
  shows "process_packets E st w = abort Todo"
proof -
  obtain tps rest where abs: "absorbed E view st w tps rest"
    "\<And>st1. absorb st tps = Ret st1 \<Longrightarrow> map snd tps = in_q (view w) (inbound_packets st)"
    by (rule process_packets_absorbs_all) blast
  show ?thesis
  proof (cases "absorb st tps")
    case (Ret st1)
    with abs(2) assms absorb_panics [of p tps st] show ?thesis by auto
  next
    case (Panic e)
    with absorb_panic_Todo [OF Panic] abs(1) show ?thesis by (simp add: absorbed_def)
  qed
qed

end

section \<open>Properties\<close>

text \<open>
  C10. When every segment that the reader still misses is among the packets that have arrived,
  in any order and with duplicates, and none is more than 128 ahead, one call of
  \<open>poll_read\<close> reassembles all of them: it hands over as much as the buffer takes, keeps the
  rest, and acknowledges the last segment.
\<close>

theorem read_completes:
  assumes "prompt_runtime E view"
    and "length msgs < 2 ^ 16" and "rx_at s msgs out k st" and "length msgs \<le> k + 128"
    and "in_tx (view w) (inbound_packets st)" and "out_rx (view w) (stream_out st)"
    and "\<forall>p\<in>set (in_q (view w) (inbound_packets st)). genuine s msgs p"
    and "\<And>i. k \<le> i \<Longrightarrow> i < length msgs \<Longrightarrow>
      \<exists>p\<in>set (in_q (view w) (inbound_packets st)). packet_type p = Data \<and> seq_number p = s + of_nat i"
  shows "\<exists>r st' w' micros. poll_read E st n w = ret (r, st', w') \<and>
    stream_ack st' + 1 = s + of_nat (length msgs) \<and>
    bytes_read r = take n (drop (length out) (concat msgs)) \<and>
    out @ bytes_read r @ received_data st' = concat msgs \<and>
    out_q (view w') (stream_out st) = out_q (view w) (stream_out st) @
      [(stream_packet st' State micros (stream_seq st') [], remote_addr st)]"
  using prompt_runtime.poll_read_completes [OF assms] .

text \<open>
  C32. Segments that arrive more than 128 ahead of the last one in order leave no trace: each of
  them that \<open>poll_read\<close> takes from the channel is gone, while the data out of order, the
  acknowledged number and the data in order are as before.  Without spurious wake-ups that is all
  of them.
\<close>

theorem far_segments_lost:
  assumes "runtime E view"
    and "\<forall>p\<in>set (in_q (view w) (inbound_packets st)). far_segment st p"
    and "inbound_data st (stream_ack st + 1) = None"
  shows "\<exists>r st' w' taken. poll_read E st n w = ret (r, st', w') \<and>
    in_q (view w) (inbound_packets st) = taken @ in_q (view w') (inbound_packets st) \<and>
    stream_ack st' = stream_ack st \<and> inbound_data st' = inbound_data st \<and>
    bytes_read r @ received_data st' = received_data st \<and>
    (prompt_runtime E view \<longrightarrow> in_q (view w') (inbound_packets st) = [])"
  using runtime.poll_read_far [OF assms] .

text \<open>
  C33. A packet of type FIN, RESET or SYN in the channel of a stream makes the next \<open>poll_read\<close>
  and the next \<open>poll_flush\<close> panic.
\<close>

theorem unhandled_packet_panics:
  assumes "prompt_runtime E view"
    and "p \<in> set (in_q (view w) (inbound_packets st))" and "packet_type p \<in> {Fin, Reset, Syn}"
  shows "poll_read E st n w = abort Todo \<and> poll_flush E st w = abort Todo"
proof -
  from assms(3) have "packet_type p \<notin> {Data, State}" by auto
  from prompt_runtime.process_packets_panics [OF assms(1,2) this] show ?thesis
    by (simp add: poll_read_def poll_flush_def)
qed

text \<open>
  C34. When the senders of the packet channel are gone, \<open>poll_read\<close> reports the end of the
  data, and the data that was received before and not yet handed over stays where it is.
\<close>

theorem read_at_termination:
  assumes "prompt_runtime E view" and "\<not> in_tx (view w) (inbound_packets st)"
    and "\<forall>p\<in>set (in_q (view w) (inbound_packets st)). packet_type p \<in> {Data, State}"
  shows "\<exists>st' w'. poll_read E st n w = ret (Ready (Inr []), st', w') \<and> is_shutdown st' \<and>
    received_data st' = received_data st \<and> stream_ack st' = stream_ack st \<and>
    in_q (view w') (inbound_packets st) = []"
proof -
  obtain tps st1 w' where run: "absorb st tps = Ret st1"
    "poll_read E st n w = ret (Ready (Inr []), st1\<lparr>is_shutdown := True\<rparr>, w')"
    "view w' = upd_in_q (inbound_packets st) [] (view w)"
    by (rule prompt_runtime.poll_read_terminated [OF assms(1,3,2)])
  with absorb_frame [OF run(1)] show ?thesis by auto
qed

text \<open>
  C35. A duplicate of a segment that was already delivered, up to 128 behind the last one in
  order, is stored again: the call of \<open>poll_read\<close> that takes it has nothing to hand over, and
  leaves the data of the duplicate among the data out of order.
\<close>

theorem duplicate_kept:
  assumes "prompt_runtime E view"
    and "in_tx (view w) (inbound_packets st)" and "out_rx (view w) (stream_out st)"
    and "inbound_data st (stream_ack st + 1) = None" and "received_data st = []"
    and "in_q (view w) (inbound_packets st) = [p]"
    and "packet_type p = Data" and "seq_number p = stream_ack st - of_nat j" and "j \<le> 128"
  shows "\<exists>st' w'. poll_read E st n w = ret (Pending, st', w') \<and>
    stream_ack st' = stream_ack st \<and> received_data st' = [] \<and>
    inbound_data st' = (inbound_data st)(seq_number p \<mapsto> data p)"
proof -
  have "\<forall>p\<in>set [p]. packet_type p \<in> {Data, State}"
    using assms(7) by simp
  then obtain tps st1 k where run: "map snd tps = [p]" "absorb st tps = Ret st1"
    and k: "present_run (inbound_data st1) (stream_ack st1 + 1) k"
    "read_ends E view (upd_in_q (inbound_packets st) [] (view w)) (reassembled k st1) n
       (poll_read E st n w)"
    by (rule prompt_runtime.poll_read_live [OF assms(1) _ assms(2), where n = n, unfolded assms(6)])
  from run(1) obtain t where tps: "tps = [(t, p)]" by (cases tps) auto
  have "is_suspicious st p = Ret False"
    using assms(7-9) by (simp add: data_suspicion word_less_nat_alt)
  with run(2) tps assms(7) have map: "inbound_data st1 = (inbound_data st)(seq_number p \<mapsto> data p)"
    by (auto simp: absorb_packet_def handle_packet_def)
  have st1: "stream_ack st1 = stream_ack st" "received_data st1 = []" "stream_out st1 = stream_out st"
    using absorb_frame [OF run(2)] assms(5) by simp_all
  have "seq_number p \<noteq> stream_ack st + 1"
  proof
    assume "seq_number p = stream_ack st + 1"
    with assms(8) have "(of_nat (j + 1) :: u16) = of_nat 0" by (simp add: algebra_simps)
    with assms(9) of_nat_u16_eq_iff [of "j + 1" 0] show False by simp
  qed
  with map st1 assms(4) have "inbound_data st1 (stream_ack st1 + 1) = None" by simp
  with reassembled_nothing [OF _ k(1)] k(2) assms(3) st1 map show ?thesis
    by (auto simp: read_ends_def read_result_def)
qed

section \<open>Examples\<close>

definition example_stream :: utp_stream where
  "example_stream = utp_stream_new example_socket 7 8 (SocketAddrV4 0 2) 5 2 100 Map.empty [] []"

definition example_segment :: "nat \<Rightarrow> bytes \<Rightarrow> packet" where
  "example_segment i d = packet_new Data 1 7 0 0 0 (101 + of_nat i) 1 [] d"

definition example_read_world :: "packet list \<Rightarrow> sim" where
  "example_read_world ps = sim_init\<lparr>in_q := (\<lambda>_. [])(5 := ps)\<rparr>"

lemma example_fields [simp]:
  "inbound_packets example_stream = 5" "stream_ack example_stream = 100"
  "inbound_data example_stream = Map.empty" "received_data example_stream = []"
  "stream_socket example_stream = example_socket" "unacked_data example_stream = []"
  "stream_seq example_stream = 2"
  "in_q (example_read_world ps) 5 = ps" "in_tx (example_read_world ps) c"
  "out_rx (example_read_world ps) c"
  "packet_type (example_segment i d) = Data" "seq_number (example_segment i d) = 101 + of_nat i"
  "data (example_segment i d) = d"
  by (simp_all add: example_stream_def utp_stream_new_def example_read_world_def sim_init_def
      example_segment_def packet_new_def)

text \<open>Two segments arrive in the wrong order, one of them twice.\<close>

definition example_queue :: "packet list" where
  "example_queue = [example_segment 1 [3], example_segment 0 [1, 2], example_segment 1 [3]]"

theorem read_completes_witness:
  "\<exists>r st' w'. poll_read sim_env example_stream 2 (example_read_world example_queue) = ret (r, st', w') \<and>
     stream_ack st' = 102 \<and> bytes_read r = [1, 2] \<and> received_data st' = [3]"
proof -
  let ?w = "example_read_world example_queue" and ?msgs = "[[1, 2], [3]] :: bytes list"
  have at: "rx_at 101 ?msgs [] 0 example_stream" by (simp add: rx_at_def segments_at_def)
  have gen: "\<forall>p\<in>set (in_q (sim_view ?w) (inbound_packets example_stream)). genuine 101 ?msgs p"
    by (auto simp: example_queue_def genuine_def less_Suc_eq)
  have here: "\<exists>p\<in>set (in_q (sim_view ?w) (inbound_packets example_stream)).
      packet_type p = Data \<and> seq_number p = 101 + of_nat i" if "0 \<le> i" "i < length ?msgs" for i
    using that by (auto simp: example_queue_def less_Suc_eq)
  have "\<exists>r st' w' micros. poll_read sim_env example_stream 2 ?w = ret (r, st', w') \<and>
    stream_ack st' + 1 = 101 + of_nat (length ?msgs) \<and>
    bytes_read r = take 2 (drop (length ([] :: bytes)) (concat ?msgs)) \<and>
    [] @ bytes_read r @ received_data st' = concat ?msgs \<and>
    out_q (sim_view w') (stream_out example_stream) = out_q (sim_view ?w) (stream_out example_stream) @
      [(stream_packet st' State micros (stream_seq st') [], remote_addr example_stream)]"
    by (rule read_completes [OF sim_rt.prompt_runtime_axioms _ at _ _ _ gen here]) simp_all
  then obtain r st' w' where "poll_read sim_env example_stream 2 ?w = ret (r, st', w')"
    "stream_ack st' + 1 = 103" "bytes_read r = [1, 2]" "bytes_read r @ received_data st' = [1, 2, 3]"
    by (auto simp: numeral_2_eq_2)
  moreover from this(2) have "stream_ack st' = 102" by (metis add_diff_cancel_right' numeral_plus_one semiring_norm(5))
  ultimately show ?thesis by auto
qed

theorem far_segments_lost_witness:
  "\<exists>r st' w'. poll_read sim_env example_stream 10 (example_read_world [example_segment 128 [9]]) =
     ret (r, st', w') \<and> inbound_data st' = Map.empty \<and> stream_ack st' = 100"
  using far_segments_lost [OF sim_rt.runtime_axioms,
      of "example_read_world [example_segment 128 [9]]" example_stream 10]
  by (auto simp: far_segment_def)

theorem unhandled_packet_panics_witness:
  "poll_read sim_env example_stream 10
     (example_read_world [example_packet\<lparr>packet_type := Fin\<rparr>]) = abort Todo"
  using unhandled_packet_panics [OF sim_rt.prompt_runtime_axioms,
      of "example_packet\<lparr>packet_type := Fin\<rparr>" "example_read_world [example_packet\<lparr>packet_type := Fin\<rparr>]"
      example_stream 10] by simp

theorem read_at_termination_witness:
  "\<exists>st' w'. poll_read sim_env (example_stream\<lparr>received_data := [1]\<rparr>) 10
     ((example_read_world [])\<lparr>in_tx := \<lambda>_. False\<rparr>) = ret (Ready (Inr []), st', w') \<and>
     received_data st' = [1]"
  using read_at_termination [OF sim_rt.prompt_runtime_axioms,
      of "(example_read_world [])\<lparr>in_tx := \<lambda>_. False\<rparr>" "example_stream\<lparr>received_data := [1]\<rparr>" 10]
  by auto

theorem duplicate_kept_witness:
  "\<exists>st' w'. poll_read sim_env (example_stream\<lparr>stream_ack := 101\<rparr>) 10
     (example_read_world [example_segment 0 [9]]) = ret (Pending, st', w') \<and>
     inbound_data st' = [101 \<mapsto> [9]]"
  using duplicate_kept [OF sim_rt.prompt_runtime_axioms,
      of "example_read_world [example_segment 0 [9]]" "example_stream\<lparr>stream_ack := 101\<rparr>"
      "example_segment 0 [9]" 0 10] by auto

end
