(* ===== verification/Utp_Stream_Send.thy ===== *)
theory Utp_Stream_Send
  imports Utp_Stream_Reading
begin

text \<open>
  The sending side of a stream: what a write queues, the window of data that is not yet
  acknowledged, how acknowledgements shrink it, and flushing and shutting down.
\<close>

section \<open>Writing\<close>

text \<open>The packets for the segments \<open>cs\<close>, stamped with the times \<open>ts\<close>, and the stream after them.\<close>

fun data_packets :: "utp_stream \<Rightarrow> u16 \<Rightarrow> u32 list \<Rightarrow> bytes list \<Rightarrow> packet list" where
  "data_packets st q (t # ts) (c # cs) = stream_packet st Data t q c # data_packets st (q + 1) ts cs"
| "data_packets st q _ _ = []"

definition after_write :: "utp_stream \<Rightarrow> bytes list \<Rightarrow> utp_stream" where
  "after_write st cs = st\<lparr>
     unacked_data := unacked_data st @ zip (seq_from (stream_seq st) (length cs)) cs,
     stream_seq := stream_seq st + of_nat (length cs)\<rparr>"

lemma after_write_Cons:
  "after_write (st\<lparr>unacked_data := unacked_data st @ [(stream_seq st, c)], stream_seq := stream_seq st + 1\<rparr>) cs =
     after_write st (c # cs)"
  by (simp add: after_write_def algebra_simps)

lemma data_packets_cong:
  "connection_id_send st' = connection_id_send st \<Longrightarrow> stream_ack st' = stream_ack st \<Longrightarrow>
     data_packets st' q ts cs = data_packets st q ts cs"
  by (induction st q ts cs rule: data_packets.induct) simp_all

lemma in_data_packets:
  assumes "length ts = length cs" and "i < length cs"
  shows "data_packets st q ts cs ! i = stream_packet st Data (ts ! i) (q + of_nat i) (cs ! i)"
  using assms
proof (induction ts cs arbitrary: q i rule: list_induct2)
  case (Cons t ts c cs)
  then show ?case by (cases i) (simp_all add: algebra_simps)
qed simp

lemma length_data_packets [simp]:
  "length ts = length cs \<Longrightarrow> length (data_packets st q ts cs) = length cs"
  by (induction ts cs arbitrary: q rule: list_induct2) simp_all

context runtime
begin

lemma send_data_spec:
  "\<exists>micros w'. send_data E st d w =
     (if out_rx (view w) (stream_out st)
      then ret (Inr (), st\<lparr>unacked_data := unacked_data st @ [(stream_seq st, d)],
        stream_seq := stream_seq st + 1\<rparr>, w')
      else ret (Inl (IoSend KindOther), st, w')) \<and>
    view w' = (if out_rx (view w) (stream_out st)
      then upd_out_q (stream_out st) (out_q (view w) (stream_out st) @
        [(stream_packet st Data micros (stream_seq st) d, remote_addr st)]) (view w)
      else view w)"
  using send_packet_spec [of st Data "stream_seq st" d w] by (auto simp: send_data_def Let_def)

lemma write_chunks_spec:
  assumes "out_rx (view w) (stream_out st)"
  shows "\<exists>ts w'. length ts = length cs \<and>
    write_chunks E st b cs w = ret (Inr (b + length (concat cs)), after_write st cs, w') \<and>
    view w' = upd_out_q (stream_out st) (out_q (view w) (stream_out st) @
      map (\<lambda>p. (p, remote_addr st)) (data_packets st (stream_seq st) ts cs)) (view w)"
  using assms
proof (induction cs arbitrary: st b w)
  case Nil
  then show ?case by (simp add: after_write_def upd_same)
next
  case (Cons c cs)
  let ?st = "st\<lparr>unacked_data := unacked_data st @ [(stream_seq st, c)], stream_seq := stream_seq st + 1\<rparr>"
  from send_data_spec [of st c w] Cons.prems obtain t w1 where
    one: "send_data E st c w = ret (Inr (), ?st, w1)"
    "view w1 = upd_out_q (stream_out st) (out_q (view w) (stream_out st) @
        [(stream_packet st Data t (stream_seq st) c, remote_addr st)]) (view w)" by auto
  have "out_rx (view w1) (stream_out ?st)" using one(2) Cons.prems by simp
  from Cons.IH [OF this, of "b + length c"] obtain ts w' where
    rest: "length ts = length cs"
    "write_chunks E ?st (b + length c) cs w1 =
       ret (Inr (b + length c + length (concat cs)), after_write ?st cs, w')"
    "view w' = upd_out_q (stream_out ?st) (out_q (view w1) (stream_out ?st) @
      map (\<lambda>p. (p, remote_addr ?st)) (data_packets ?st (stream_seq ?st) ts cs)) (view w1)"
    by blast
  have "data_packets ?st (stream_seq ?st) ts cs = data_packets st (stream_seq st + 1) ts cs"
    by (subst data_packets_cong [where st = st]) simp_all
  then have "view w' = upd_out_q (stream_out st) (out_q (view w) (stream_out st) @
      map (\<lambda>p. (p, remote_addr st)) (data_packets st (stream_seq st) (t # ts) (c # cs))) (view w)"
    using rest(3) one(2) by simp
  moreover have "write_chunks E st b (c # cs) w =
      ret (Inr (b + length (concat (c # cs))), after_write st (c # cs), w')"
    using one(1) rest(2) after_write_Cons [of st c cs] by simp
  moreover have "length (t # ts) = length (c # cs)" using rest(1) by simp
  ultimately show ?case by blast
qed

lemma write_chunks_closed:
  assumes "\<not> out_rx (view w) (stream_out st)" and "cs \<noteq> []"
  shows "\<exists>w'. write_chunks E st b cs w = ret (Inl (IoSend KindOther), st, w') \<and> view w' = view w"
  using send_data_spec [of st "hd cs" w] assms by (cases cs) auto

end

section \<open>The window\<close>

text \<open>The data in flight carries the numbers right before the next number to use.\<close>

definition tx_inv :: "utp_stream \<Rightarrow> bool" where
  "tx_inv st \<longleftrightarrow> (let n = length (unacked_data st)
     in map fst (unacked_data st) = seq_from (stream_seq st - of_nat n) n)"

lemma pop_acked_drop: "\<exists>k\<le>length u. pop_acked a u = drop k u"
proof (induction a u rule: pop_acked.induct)
  case (2 a q d u)
  show ?case
  proof (cases "q \<le> a")
    case True
    with 2 obtain k where "k \<le> length u" "pop_acked a u = drop k u" by auto
    with True show ?thesis by (intro exI [of _ "Suc k"]) simp
  qed (auto intro: exI [of _ 0])
qed simp

lemma tx_inv_drop:
  assumes "tx_inv st" and "k \<le> length (unacked_data st)"
  shows "tx_inv (st\<lparr>unacked_data := drop k (unacked_data st)\<rparr>)"
proof -
  let ?n = "length (unacked_data st)"
  have eq: "stream_seq st - of_nat ?n + of_nat k = stream_seq st - of_nat (?n - k)"
    using assms(2) by (simp add: algebra_simps)
  have "map fst (drop k (unacked_data st)) = drop k (seq_from (stream_seq st - of_nat ?n) ?n)"
    using assms(1) by (simp add: tx_inv_def Let_def flip: drop_map)
  also have "\<dots> = seq_from (stream_seq st - of_nat (?n - k)) (?n - k)"
    unfolding drop_seq_from eq ..
  finally show ?thesis by (simp add: tx_inv_def Let_def del: of_nat_diff)
qed

lemma tx_inv_after_write: "tx_inv st \<Longrightarrow> tx_inv (after_write st cs)"
  using seq_from_append [of "stream_seq st - of_nat (length (unacked_data st))"
      "length (unacked_data st)" "length cs"]
  by (simp add: tx_inv_def after_write_def Let_def)

text \<open>Handling packets only removes data from the front of the window.\<close>

lemma absorb_packet_window:
  assumes "absorb_packet st tp = Ret st'"
  shows "\<exists>k\<le>length (unacked_data st). unacked_data st' = drop k (unacked_data st)"
proof -
  have "unacked_data st' = unacked_data st \<or>
    unacked_data st' = pop_acked (ack_number (snd tp)) (unacked_data st)"
    using assms
    by (auto simp: absorb_packet_def handle_packet_def
        split: outcome.splits bool.splits packet_type.splits)
  with pop_acked_drop show ?thesis by (metis drop0 le0)
qed

lemma absorb_window:
  assumes "absorb st tps = Ret st'"
  shows "\<exists>k\<le>length (unacked_data st). unacked_data st' = drop k (unacked_data st)"
  using assms
proof (induction tps arbitrary: st)
  case Nil
  then show ?case by (auto intro: exI [of _ 0])
next
  case (Cons tp tps)
  then obtain st1 where one: "absorb_packet st tp = Ret st1" "absorb st1 tps = Ret st'"
    by (auto split: outcome.splits)
  from absorb_packet_window [OF one(1)] obtain j where
    j: "j \<le> length (unacked_data st)" "unacked_data st1 = drop j (unacked_data st)" by blast
  from Cons.IH [OF one(2)] j obtain k where
    "k \<le> length (unacked_data st) - j" "unacked_data st' = drop k (drop j (unacked_data st))" by auto
  with j show ?case by (intro exI [of _ "k + j"]) simp
qed

lemma absorb_tx:
  assumes "absorb st tps = Ret st'" and "tx_inv st"
  shows "tx_inv st'"
proof -
  from absorb_window [OF assms(1)] obtain k where
    "k \<le> length (unacked_data st)" "unacked_data st' = drop k (unacked_data st)" by blast
  with tx_inv_drop [OF assms(2), of k] absorb_frame [OF assms(1)] show ?thesis
    by (simp add: tx_inv_def)
qed

section \<open>Acknowledgements\<close>

lemma unat_plus:
  "unat ((q :: u16) + of_nat i) = (unat q + i) mod 65536"
  by (simp add: unat_word_ariths unat_of_nat mod_simps)

lemma pop_acked_eq:
  assumes "k \<le> length u" and "\<And>i. i < k \<Longrightarrow> fst (u ! i) \<le> a"
    and "k < length u \<Longrightarrow> \<not> fst (u ! k) \<le> a"
  shows "pop_acked a u = drop k u"
  using assms
proof (induction k arbitrary: u)
  case 0
  then show ?case by (cases u) auto
next
  case (Suc k)
  then obtain q d v where u: "u = (q, d) # v" by (cases u) auto
  have "q \<le> a" using Suc.prems(2) [of 0] u by simp
  moreover have "pop_acked a v = drop k v"
    using Suc.prems u by (intro Suc.IH) fastforce+
  ultimately show ?case using u by simp
qed

text \<open>The number of the oldest packet in flight.\<close>

definition window_start :: "utp_stream \<Rightarrow> u16" where
  "window_start st = stream_seq st - of_nat (length (unacked_data st))"

lemma window_nth:
  "tx_inv st \<Longrightarrow> i < length (unacked_data st) \<Longrightarrow> fst (unacked_data st ! i) = window_start st + of_nat i"
  by (metis nth_map nth_seq_from tx_inv_def window_start_def)

text \<open>
  An acknowledgement of the first \<open>k\<close> packets in flight carries the number of the last of them,
  or the number before the window for \<open>k = 0\<close>.
\<close>

definition acks_first :: "utp_stream \<Rightarrow> nat \<Rightarrow> packet \<Rightarrow> bool" where
  "acks_first st k p \<longleftrightarrow> packet_type p = State \<and> k \<le> length (unacked_data st) \<and>
     ack_number p + 1 = window_start st + of_nat k"

lemma acks_first_not_suspicious:
  assumes "acks_first st k p" and "length (unacked_data st) < 65535"
  shows "is_suspicious st p = Ret False"
proof -
  let ?n = "length (unacked_data st)"
  have "ack_number p = window_start st + of_nat k - 1"
    using assms(1) by (simp add: acks_first_def algebra_simps)
  then have "stream_seq st - ack_number p = of_nat (?n - k + 1)"
    using assms(1) by (simp add: acks_first_def window_start_def algebra_simps)
  moreover have "unat (of_nat (?n - k + 1) :: u16) = ?n - k + 1"
    using assms(2) by (intro unat_of_nat_u16) simp
  ultimately have "unat (stream_seq st - ack_number p) = ?n - k + 1" by simp
  with assms(1) show ?thesis by (simp add: is_suspicious_def acks_first_def)
qed

lemma absorb_ack:
  assumes "acks_first st k p" and "length (unacked_data st) < 65535"
  shows "\<exists>st'. absorb_packet st (t, p) = Ret st' \<and>
    unacked_data st' = pop_acked (ack_number p) (unacked_data st) \<and> stream_seq st' = stream_seq st"
  using acks_first_not_suspicious [OF assms] assms(1)
  by (simp add: absorb_packet_def handle_packet_def acks_first_def)

lemma ack_value:
  assumes "acks_first st k p" and "k \<noteq> 0 \<or> window_start st \<noteq> 0"
  shows "unat (ack_number p) = (unat (window_start st) + k - 1) mod 65536"
proof -
  have a: "ack_number p = window_start st + of_nat k - 1"
    using assms(1) by (simp add: acks_first_def algebra_simps)
  show ?thesis
  proof (cases k)
    case 0
    with a assms(2) show ?thesis
      using unsigned_less [of "window_start st", where 'a = nat]
      by (simp add: unat_minus_one)
  next
    case (Suc j)
    with a have "ack_number p = window_start st + of_nat j" by simp
    with Suc show ?thesis by (simp add: unat_plus)
  qed
qed

lemma pop_acked_window:
  assumes "tx_inv st" and "acks_first st k p"
    and "unat (window_start st) + length (unacked_data st) \<le> 65536"
    and "k \<noteq> 0 \<or> window_start st \<noteq> 0"
  shows "pop_acked (ack_number p) (unacked_data st) = drop k (unacked_data st)"
proof (rule pop_acked_eq)
  have num: "unat (fst (unacked_data st ! i)) = unat (window_start st) + i"
    if "i < length (unacked_data st)" for i
    using window_nth [OF assms(1) that] that assms(3) by (simp add: unat_plus)
  show k: "k \<le> length (unacked_data st)" using assms(2) by (simp add: acks_first_def)
  then have "unat (window_start st) + k - 1 < 65536" using assms(3) by simp
  with ack_value [OF assms(2,4)] have
    ack: "unat (ack_number p) = unat (window_start st) + k - 1" by simp
  have pos: "0 < unat (window_start st) + k" using assms(4) by (auto simp: unat_gt_0)
  show "fst (unacked_data st ! i) \<le> ack_number p" if "i < k" for i
    using num [of i] that k ack by (simp add: word_le_nat_alt)
  show "\<not> fst (unacked_data st ! k) \<le> ack_number p" if "k < length (unacked_data st)"
    unfolding word_le_nat_alt using num [OF that] ack pos by linarith
qed

lemma pop_acked_wrapped:
  assumes "tx_inv st" and "acks_first st k p" and "length (unacked_data st) < 65536"
    and "65536 < unat (window_start st) + k"
  shows "pop_acked (ack_number p) (unacked_data st) = unacked_data st"
proof -
  have k: "k \<le> length (unacked_data st)" using assms(2) by (simp add: acks_first_def)
  have s: "unat (window_start st) < 65536"
    using unsigned_less [of "window_start st", where 'a = nat] by simp
  with assms(4) have "k \<noteq> 0" by simp
  with ack_value [OF assms(2)] have
    "unat (ack_number p) = (unat (window_start st) + k - 1) mod 65536" by blast
  also have "\<dots> = unat (window_start st) + k - 1 - 65536"
    using assms(3,4) k s by (simp add: mod_if)
  finally have "unat (ack_number p) < unat (window_start st)"
    using assms(3,4) k s by linarith
  moreover have "fst (unacked_data st ! 0) = window_start st"
    using window_nth [OF assms(1), of 0] order_less_le_trans [OF _ k, of 0] \<open>k \<noteq> 0\<close> by simp
  ultimately show ?thesis
    using pop_acked_eq [of 0 "unacked_data st" "ack_number p"] by (simp add: word_le_nat_alt)
qed

section \<open>Flushing and shutting down\<close>

context runtime
begin

lemma process_packets_cases [case_names panics returns]:
  obtains tps where "absorb st tps = Panic Todo" "process_packets E st w = abort Todo"
  | tps rest st1 terminated w' where "in_q (view w) (inbound_packets st) = map snd tps @ rest"
    "absorb st tps = Ret st1"
    "process_packets E st w =
      ret (terminated, if terminated then st1\<lparr>is_shutdown := True\<rparr> else st1, w')"
    "view w' = upd_in_q (inbound_packets st) rest (view w)"
proof -
  obtain tps rest where abs: "absorbed E view st w tps rest"
    using process_packets_absorbs by blast
  show ?thesis
  proof (cases "absorb st tps")
    case (Panic e)
    with abs that(1) absorb_panic_Todo [OF Panic] show ?thesis by (simp add: absorbed_def)
  next
    case (Ret st1)
    with abs have "loop_ends E view (inbound_packets st) (view w) rest st1 (process_packets E st w)"
      and q: "in_q (view w) (inbound_packets st) = map snd tps @ rest" by (simp_all add: absorbed_def)
    then show ?thesis
      unfolding loop_ends_def using that(2) [OF q Ret, of True] that(2) [OF q Ret, of False] by auto
  qed
qed

lemma poll_write_spec:
  assumes "\<not> is_shutdown st" and "out_rx (view w) (stream_out st)"
    and cs_def: "cs = chunks MAX_DATA_SEGMENT_SIZE b"
  shows "\<exists>ts w'. length ts = length cs \<and>
    poll_write E st b w = ret (Ready (Inr (length b)), after_write st cs, w') \<and>
    view w' = upd_out_q (stream_out st) (out_q (view w) (stream_out st) @
      map (\<lambda>p. (p, remote_addr st)) (data_packets st (stream_seq st) ts cs)) (view w)"
proof -
  have "concat cs = b"
    unfolding cs_def
    by (rule concat_chunks) (simp add: MAX_DATA_SEGMENT_SIZE_def MAX_DATAGRAM_SIZE_def PACKET_HEADER_LEN_def)
  with write_chunks_spec [OF assms(2), of cs 0] assms(1) show ?thesis
    by (auto simp: poll_write_def cs_def)
qed

end

text \<open>Every operation keeps the window consecutive.\<close>

lemma tx_inv_cong:
  "unacked_data st' = unacked_data st \<Longrightarrow> stream_seq st' = stream_seq st \<Longrightarrow> tx_inv st' = tx_inv st"
  by (simp add: tx_inv_def)

context runtime
begin

lemma write_keeps_window:
  assumes "tx_inv st" and "poll_write E st b w = ret (r, st', w')"
  shows "tx_inv st'"
proof (cases "is_shutdown st")
  case False
  show ?thesis
  proof (cases "out_rx (view w) (stream_out st)")
    case True
    from poll_write_spec [OF False True refl, of b] assms tx_inv_after_write [OF assms(1)] show ?thesis
      by auto
  next
    case closed: False
    show ?thesis
    proof (cases "chunks MAX_DATA_SEGMENT_SIZE b = []")
      case True
      with assms False show ?thesis by (simp add: poll_write_def)
    next
      case ne: False
      from write_chunks_closed [OF closed ne, of 0] assms False show ?thesis
        by (auto simp: poll_write_def)
    qed
  qed
qed (use assms in \<open>simp add: poll_write_def\<close>)

lemma read_keeps_window:
  assumes "tx_inv st" and "poll_read E st n w = ret (r, st', w')"
  shows "tx_inv st'"
proof -
  obtain tps rest where abs: "read_absorbs E view st n w tps rest" using poll_read_spec by blast
  show ?thesis
  proof (cases "absorb st tps")
    case (Panic e)
    with abs assms(2) show ?thesis by (simp add: read_absorbs_def)
  next
    case (Ret st1)
    note inv = absorb_tx [OF Ret assms(1)]
    from abs Ret consider
        w1 where "poll_read E st n w = ret (Ready (Inr []), st1\<lparr>is_shutdown := True\<rparr>, w1)"
      | k v where "read_ends E view v (reassembled k st1) n (poll_read E st n w)"
      unfolding read_absorbs_def by (simp only: outcome.case) blast
    then have "unacked_data st' = unacked_data st1 \<and> stream_seq st' = stream_seq st1"
      by cases (use assms(2) in \<open>auto simp: read_ends_def reassembled_def read_result_def split: if_splits\<close>)
    with inv tx_inv_cong [of st' st1] show ?thesis by simp
  qed
qed

lemma flush_keeps_window:
  assumes "tx_inv st" and "poll_flush E st w = ret (r, st', w')"
  shows "tx_inv st'"
proof (cases rule: process_packets_cases [of st w])
  case (returns tps rest st1 terminated w1)
  with assms(2) have "unacked_data st' = unacked_data st1 \<and> stream_seq st' = stream_seq st1"
    by (auto simp: poll_flush_def split: if_splits)
  with absorb_tx [OF returns(2) assms(1)] tx_inv_cong [of st' st1] show ?thesis by simp
qed (use assms(2) in \<open>simp add: poll_flush_def\<close>)

end

context runtime
begin

lemma flush_result:
  assumes "poll_flush E st w = ret (r, st', w')"
  shows "(r = Ready (Inr ()) \<and> unacked_data st' = [] \<or>
      r = Pending \<and> unacked_data st' \<noteq> [] \<and> \<not> is_shutdown st') \<and>
    (\<exists>k. unacked_data st' = drop k (unacked_data st))"
proof (cases rule: process_packets_cases [of st w])
  case (returns tps rest st1 terminated w1)
  from absorb_window [OF returns(2)] obtain k where "unacked_data st1 = drop k (unacked_data st)"
    by blast
  with returns assms show ?thesis by (auto simp: poll_flush_def split: if_splits)
qed (use assms in \<open>simp add: poll_flush_def\<close>)

lemma shutdown_result: "poll_shutdown E st w = abort Todo"
proof (cases rule: process_packets_cases [of "st\<lparr>is_shutdown := True\<rparr>" w])
  case (returns tps rest st1 terminated w')
  with absorb_frame [OF returns(2)] show ?thesis
    by (auto simp: poll_shutdown_def poll_flush_def)
qed (simp add: poll_shutdown_def poll_flush_def)

end

text \<open>A flush handles everything that is in the channel.\<close>

context prompt_runtime
begin

lemma flush_drains:
  assumes "\<forall>p\<in>set (in_q (view w) (inbound_packets st)). packet_type p \<in> {Data, State}"
    and "in_tx (view w) (inbound_packets st)" and "\<not> is_shutdown st"
  obtains tps st1 w' where "map snd tps = in_q (view w) (inbound_packets st)" "absorb st tps = Ret st1"
    "poll_flush E st w = ret (if unacked_data st1 = [] then Ready (Inr ()) else Pending, st1, w')"
    "view w' = upd_in_q (inbound_packets st) [] (view w)"
proof -
  obtain tps rest where "absorbed E view st w tps rest"
    and abs: "\<And>st1. absorb st tps = Ret st1 \<Longrightarrow> rest = [] \<and>
      map snd tps = in_q (view w) (inbound_packets st) \<and>
      (\<exists>w'. view w' = upd_in_q (inbound_packets st) [] (view w) \<and> process_packets E st w =
        (if in_tx (view w) (inbound_packets st) then ret (False, st1, w')
         else ret (True, st1\<lparr>is_shutdown := True\<rparr>, w')))"
    by (rule process_packets_absorbs_all [of st w]) blast
  then have "in_q (view w) (inbound_packets st) = map snd tps @ rest"
    by (simp add: absorbed_def)
  with assms(1) absorb_total [of tps st] obtain st1 where st1: "absorb st tps = Ret st1" by auto
  from abs [OF st1] assms(2) obtain w' where "map snd tps = in_q (view w) (inbound_packets st)"
    "process_packets E st w = ret (False, st1, w')" "view w' = upd_in_q (inbound_packets st) [] (view w)"
    by auto
  with st1 absorb_frame [OF st1] assms(3) show ?thesis
    by (intro that [of tps st1 w']) (simp_all add: poll_flush_def)
qed

lemma flush_one_ack:
  assumes "in_q (view w) (inbound_packets st) = [p]" and "in_tx (view w) (inbound_packets st)"
    and "acks_first st k p" and "length (unacked_data st) < 65535" and "\<not> is_shutdown st"
  shows "\<exists>st' w'. poll_flush E st w =
      ret (if unacked_data st' = [] then Ready (Inr ()) else Pending, st', w') \<and>
    unacked_data st' = pop_acked (ack_number p) (unacked_data st) \<and> stream_seq st' = stream_seq st"
proof -
  from assms(1,3) have "\<forall>p\<in>set (in_q (view w) (inbound_packets st)). packet_type p \<in> {Data, State}"
    by (auto simp: acks_first_def)
  then obtain tps st1 w' where run: "map snd tps = [p]" "absorb st tps = Ret st1"
    "poll_flush E st w = ret (if unacked_data st1 = [] then Ready (Inr ()) else Pending, st1, w')"
    using flush_drains [OF _ assms(2,5)] assms(1) by metis
  then obtain t where "tps = [(t, p)]" by (cases tps) auto
  with absorb_ack [OF assms(3,4), of t] run show ?thesis by auto
qed

end

section \<open>The packets that are taken in\<close>

text \<open>
  A declarative account of the filter and of the loop over the packets: a data packet is taken
  in when its number is at most 128 away from the last one delivered, on the circle of 16-bit
  numbers, and a later packet replaces an earlier one with the same number.
\<close>

definition circular_distance :: "u16 \<Rightarrow> u16 \<Rightarrow> nat" where
  "circular_distance a b = min (unat (a - b)) (unat (b - a))"

definition near_data :: "utp_stream \<Rightarrow> packet \<Rightarrow> bool" where
  "near_data st p \<longleftrightarrow> packet_type p = Data \<and> circular_distance (stream_ack st) (seq_number p) \<le> 128"

lemma near_data_iff:
  "packet_type p = Data \<Longrightarrow> is_suspicious st p = Ret (\<not> near_data st p)"
  by (auto simp: data_suspicion near_data_def circular_distance_def word_less_nat_alt)

lemma absorb_packet_data:
  assumes "absorb_packet st tp = Ret st'"
  shows "inbound_data st' = (if near_data st (snd tp)
    then (inbound_data st)(seq_number (snd tp) \<mapsto> data (snd tp)) else inbound_data st)"
proof (cases "packet_type (snd tp) = Data")
  case True
  with assms show ?thesis
    by (auto simp: absorb_packet_def handle_packet_def near_data_iff)
next
  case False
  with assms show ?thesis
    by (auto simp: absorb_packet_def handle_packet_def near_data_def is_suspicious_def Let_def
        split: outcome.splits bool.splits packet_type.splits)
qed

lemma absorb_data:
  assumes "absorb st tps = Ret st'"
  shows "inbound_data st' = inbound_data st ++
    map_of (rev (map (\<lambda>p. (seq_number p, data p)) (filter (near_data st) (map snd tps))))"
  using assms
proof (induction tps arbitrary: st)
  case (Cons tp tps)
  from Cons.prems obtain st1 where st1: "absorb_packet st tp = Ret st1" "absorb st1 tps = Ret st'"
    by (auto split: outcome.splits)
  have "near_data st1 = near_data st"
    using absorb_packet_frame(2) [OF st1(1)] by (simp add: near_data_def fun_eq_iff)
  with Cons.IH [OF st1(2)] absorb_packet_data [OF st1(1)] show ?case by simp
qed simp

lemma segment_size: "MAX_DATA_SEGMENT_SIZE + PACKET_HEADER_LEN = MAX_DATAGRAM_SIZE"
  by (simp add: MAX_DATA_SEGMENT_SIZE_def MAX_DATAGRAM_SIZE_def PACKET_HEADER_LEN_def)

text \<open>A data packet with at most a full segment survives the trip through a datagram.\<close>

lemma segment_decodes:
  assumes "bytes_crate B" and "length d \<le> MAX_DATA_SEGMENT_SIZE" and "t = Data \<or> t = State"
  shows "length (bytes_from_packet B (stream_packet st t micros q d)) \<le> MAX_DATAGRAM_SIZE"
    "decode_datagram B (bytes_from_packet B (stream_packet st t micros q d)) =
      Some (stream_packet st t micros q d)"
proof -
  let ?p = "stream_packet st t micros q d"
  have wf: "wf_packet ?p" by (simp add: wf_packet_def packet_new_def)
  have "packet_length ?p = PACKET_HEADER_LEN + length d"
    by (simp add: packet_length_def packet_new_def)
  with bytes_crate.encoded_size [OF assms(1), of ?p] assms(2) segment_size show
    len: "length (bytes_from_packet B ?p) \<le> MAX_DATAGRAM_SIZE" by simp
  with bytes_crate.roundtrip [OF assms(1) wf] show "decode_datagram B (bytes_from_packet B ?p) = Some ?p"
    by (simp add: decode_datagram_def decode_packet_def)
qed

lemma data_packets_fit:
  assumes "bytes_crate B" and "\<And>c. c \<in> set cs \<Longrightarrow> length c \<le> MAX_DATA_SEGMENT_SIZE"
    and "length ts = length cs" and "p \<in> set (data_packets st q ts cs)"
  shows "length (bytes_from_packet B p) \<le> MAX_DATAGRAM_SIZE \<and>
    decode_datagram B (bytes_from_packet B p) = Some p"
proof -
  from assms(3,4) obtain i where i: "i < length cs"
    "p = stream_packet st Data (ts ! i) (q + of_nat i) (cs ! i)"
    by (auto simp: in_set_conv_nth in_data_packets)
  from segment_decodes [OF assms(1) assms(2), of "cs ! i" Data] i show ?thesis by simp
qed

section \<open>Properties\<close>

text \<open>
  C11. A write to an open stream takes the whole buffer: it is cut into segments that are not
  empty and fit a datagram, each is queued for sending under the next number and stays in the
  window, and the next number moves on by as many.  Every queued packet, once encoded, fits the
  receive buffer of the peer and decodes to itself.
\<close>

theorem write_queues_segments:
  assumes "runtime E view" and "\<not> is_shutdown st" and "out_rx (view w) (stream_out st)"
  shows "\<exists>cs ts st' w'. poll_write E st b w = ret (Ready (Inr (length b)), st', w') \<and>
    concat cs = b \<and> (\<forall>c\<in>set cs. c \<noteq> [] \<and> length c \<le> MAX_DATA_SEGMENT_SIZE) \<and> length ts = length cs \<and>
    unacked_data st' = unacked_data st @ zip (seq_from (stream_seq st) (length cs)) cs \<and>
    stream_seq st' = stream_seq st + of_nat (length cs) \<and>
    out_q (view w') (stream_out st) = out_q (view w) (stream_out st) @
      map (\<lambda>p. (p, remote_addr st)) (data_packets st (stream_seq st) ts cs) \<and>
    (\<forall>p\<in>set (data_packets st (stream_seq st) ts cs).
      length (bytes_from_packet (buf E) p) \<le> MAX_DATAGRAM_SIZE \<and>
      decode_datagram (buf E) (bytes_from_packet (buf E) p) = Some p)"
proof -
  let ?cs = "chunks MAX_DATA_SEGMENT_SIZE b"
  have B: "bytes_crate (buf E)" using assms(1) by (simp add: runtime_def)
  have pos: "MAX_DATA_SEGMENT_SIZE \<noteq> 0" using segment_size
    by (simp add: MAX_DATAGRAM_SIZE_def PACKET_HEADER_LEN_def)
  from runtime.poll_write_spec [OF assms refl, of b] obtain ts w' where
    run: "length ts = length ?cs"
    "poll_write E st b w = ret (Ready (Inr (length b)), after_write st ?cs, w')"
    "view w' = upd_out_q (stream_out st) (out_q (view w) (stream_out st) @
      map (\<lambda>p. (p, remote_addr st)) (data_packets st (stream_seq st) ts ?cs)) (view w)" by blast
  note fits = data_packets_fit [OF B chunks_bounds [THEN conjunct2] run(1)]
  show ?thesis
  proof (intro exI conjI)
    show "poll_write E st b w = ret (Ready (Inr (length b)), after_write st ?cs, w')" by (fact run(2))
    show "concat ?cs = b" using concat_chunks [OF pos] .
    show "\<forall>c\<in>set ?cs. c \<noteq> [] \<and> length c \<le> MAX_DATA_SEGMENT_SIZE" using chunks_bounds by blast
    show "length ts = length ?cs" by (fact run(1))
  qed (use run(3) fits in \<open>simp_all add: after_write_def\<close>)
qed

text \<open>
  C36. When the sender task is gone, a write of anything is an error that leaves the stream as
  it was.
\<close>

theorem write_fails_closed:
  assumes "runtime E view" and "\<not> is_shutdown st" and "\<not> out_rx (view w) (stream_out st)"
    and "b \<noteq> []"
  shows "\<exists>w'. poll_write E st b w = ret (Ready (Inl (IoSend KindOther)), st, w') \<and> view w' = view w"
proof -
  have "chunks MAX_DATA_SEGMENT_SIZE b \<noteq> []"
    using assms(4) segment_size by (subst chunks_step) (auto simp: MAX_DATAGRAM_SIZE_def PACKET_HEADER_LEN_def)
  from runtime.write_chunks_closed [OF assms(1,3) this, of 0] assms(2) show ?thesis
    by (auto simp: poll_write_def)
qed

text \<open>
  C14. The window invariant: the data in flight carries consecutive numbers that end right
  before the next number to send, and every operation of a stream keeps it so.
\<close>

theorem window_consecutive:
  assumes "runtime E view" and "tx_inv st"
    and "poll_write E st b w = ret (r1, st', w') \<or> poll_read E st n w = ret (r2, st', w') \<or>
      poll_flush E st w = ret (r3, st', w')"
  shows "tx_inv st'"
  using assms(3)
proof (elim disjE)
  assume w: "poll_write E st b w = ret (r1, st', w')"
  from runtime.write_keeps_window [OF assms(1,2) w] show ?thesis .
next
  assume r: "poll_read E st n w = ret (r2, st', w')"
  from runtime.read_keeps_window [OF assms(1,2) r] show ?thesis .
next
  assume f: "poll_flush E st w = ret (r3, st', w')"
  from runtime.flush_keeps_window [OF assms(1,2) f] show ?thesis .
qed

text \<open>
  C18. While the numbers in flight do not wrap, an acknowledgement of the first \<open>k\<close> packets in
  flight is accepted and releases exactly these, and a flush that finds it completes if and only
  if nothing is left.
\<close>

theorem ack_releases_exactly:
  assumes "prompt_runtime E view"
    and "in_q (view w) (inbound_packets st) = [p]" and "in_tx (view w) (inbound_packets st)"
    and "\<not> is_shutdown st" and "tx_inv st" and "acks_first st k p"
    and "length (unacked_data st) < 65535"
    and "unat (window_start st) + length (unacked_data st) \<le> 65536"
    and "k \<noteq> 0 \<or> window_start st \<noteq> 0"
  shows "is_suspicious st p = Ret False \<and> (\<exists>st' w'. unacked_data st' = drop k (unacked_data st) \<and>
    poll_flush E st w =
      ret (if k = length (unacked_data st) then Ready (Inr ()) else Pending, st', w'))"
proof -
  have "k \<le> length (unacked_data st)" using assms(6) by (simp add: acks_first_def)
  then have "drop k (unacked_data st) = [] \<longleftrightarrow> k = length (unacked_data st)" by auto
  with prompt_runtime.flush_one_ack [OF assms(1-3,6,7,4)] pop_acked_window [OF assms(5,6,8,9)]
    acks_first_not_suspicious [OF assms(6,7)]
  show ?thesis by auto
qed

text \<open>
  C37. When the numbers in flight wrap around, an acknowledgement past the wrap is accepted and
  releases nothing: a flush stays pending although everything has been acknowledged.
\<close>

theorem flush_stuck_at_wrap:
  assumes "prompt_runtime E view"
    and "in_q (view w) (inbound_packets st) = [p]" and "in_tx (view w) (inbound_packets st)"
    and "\<not> is_shutdown st" and "tx_inv st" and "acks_first st (length (unacked_data st)) p"
    and "length (unacked_data st) < 65535"
    and "65536 < unat (window_start st) + length (unacked_data st)"
  shows "\<exists>st' w'. poll_flush E st w = ret (Pending, st', w') \<and> unacked_data st' = unacked_data st"
proof -
  from assms(7) have "length (unacked_data st) < 65536" by simp
  note same = pop_acked_wrapped [OF assms(5,6) this assms(8)]
  have "unacked_data st \<noteq> []"
    using assms(8) unsigned_less [of "window_start st", where 'a = nat] by auto
  with prompt_runtime.flush_one_ack [OF assms(1-3,6,7,4)] same show ?thesis by auto
qed

text \<open>
  C38. When the window starts at number 0, a repeated acknowledgement of the packet before it,
  which acknowledges nothing in flight, releases everything in flight: a flush completes
  although no data has been acknowledged.
\<close>

theorem stale_ack_releases_all:
  assumes "prompt_runtime E view"
    and "in_q (view w) (inbound_packets st) = [p]" and "in_tx (view w) (inbound_packets st)"
    and "\<not> is_shutdown st" and "acks_first st 0 p" and "window_start st = 0"
    and "length (unacked_data st) < 65535"
  shows "\<exists>st' w'. poll_flush E st w = ret (Ready (Inr ()), st', w') \<and> unacked_data st' = []"
proof -
  have "ack_number p = - 1" using assms(5,6) by (simp add: acks_first_def eq_neg_iff_add_eq_0)
  then have "pop_acked (ack_number p) (unacked_data st) = []"
    using pop_acked_eq [of "length (unacked_data st)" "unacked_data st" "ack_number p"] by simp
  with prompt_runtime.flush_one_ack [OF assms(1-3,5,7,4)] show ?thesis by auto
qed

text \<open>C39. Shutting a stream down always panics.\<close>

theorem shutdown_panics:
  assumes "runtime E view"
  shows "poll_shutdown E st w = abort Todo"
  using runtime.shutdown_result [OF assms] .

text \<open>
  C17. A flush of an open stream takes in every packet in the channel, and what it stores is
  exactly this: the data packets at most 128 away from the last number delivered, on the circle
  of 16-bit numbers, the latest one for each number.  Nothing is delivered, and it completes if
  and only if no data is left in flight.
\<close>

theorem flush_takes_in:
  assumes "prompt_runtime E view"
    and "\<forall>p\<in>set (in_q (view w) (inbound_packets st)). packet_type p \<in> {Data, State}"
    and "in_tx (view w) (inbound_packets st)" and "\<not> is_shutdown st"
  shows "\<exists>st' w'. poll_flush E st w =
      ret (if unacked_data st' = [] then Ready (Inr ()) else Pending, st', w') \<and>
    inbound_data st' = inbound_data st ++ map_of (rev (map (\<lambda>p. (seq_number p, data p))
      (filter (near_data st) (in_q (view w) (inbound_packets st))))) \<and>
    received_data st' = received_data st \<and> stream_ack st' = stream_ack st \<and>
    in_q (view w') (inbound_packets st) = []"
proof -
  obtain tps st1 w' where run: "map snd tps = in_q (view w) (inbound_packets st)" "absorb st tps = Ret st1"
    "poll_flush E st w = ret (if unacked_data st1 = [] then Ready (Inr ()) else Pending, st1, w')"
    "view w' = upd_in_q (inbound_packets st) [] (view w)"
    by (rule prompt_runtime.flush_drains [OF assms])
  from absorb_data [OF run(2)] absorb_frame [OF run(2)] run show ?thesis by auto
qed

section \<open>Examples\<close>

theorem write_queues_segments_witness:
  "\<exists>st' w'. poll_write sim_env example_stream [1, 2, 3] sim_init = ret (Ready (Inr 3), st', w')"
  using write_queues_segments [OF sim_rt.runtime_axioms, of example_stream sim_init "[1, 2, 3]"]
  by (auto simp: example_stream_def utp_stream_new_def sim_init_def)

theorem write_fails_closed_witness:
  "\<exists>w'. poll_write sim_env example_stream [1] (sim_init\<lparr>out_rx := \<lambda>_. False\<rparr>) =
     ret (Ready (Inl (IoSend KindOther)), example_stream, w')"
  using write_fails_closed [OF sim_rt.runtime_axioms, of example_stream
      "sim_init\<lparr>out_rx := \<lambda>_. False\<rparr>" "[1]"]
  by (auto simp: example_stream_def utp_stream_new_def)

text \<open>A stream with data in flight under the two numbers before \<open>q\<close>, and an acknowledgement.\<close>

definition example_in_flight :: "u16 \<Rightarrow> utp_stream" where
  "example_in_flight q = example_stream\<lparr>stream_seq := q, unacked_data := [(q - 2, [1]), (q - 1, [2])]\<rparr>"

definition example_ack :: "u16 \<Rightarrow> packet" where
  "example_ack a = packet_new State 1 7 0 0 0 101 a [] []"

lemma example_in_flight_fields [simp]:
  "inbound_packets (example_in_flight q) = 5" "\<not> is_shutdown (example_in_flight q)"
  "unacked_data (example_in_flight q) = [(q - 2, [1]), (q - 1, [2])]"
  "window_start (example_in_flight q) = q - 2" "tx_inv (example_in_flight q)"
  by (simp_all add: example_in_flight_def example_stream_def utp_stream_new_def window_start_def tx_inv_def)

lemma example_ack_acks: "k \<le> 2 \<Longrightarrow> acks_first (example_in_flight q) k (example_ack (q - 3 + of_nat k))"
  by (simp add: acks_first_def example_ack_def packet_new_def)

theorem window_consecutive_witness:
  "\<exists>r st' w'. poll_write sim_env (example_in_flight 9) [1] sim_init = ret (r, st', w') \<and> tx_inv st'"
proof -
  obtain r st' w' where run: "poll_write sim_env (example_in_flight 9) [1] sim_init = ret (r, st', w')"
    using sim_rt.poll_write_spec [of "example_in_flight 9" sim_init _ "[1]"] by (auto simp: sim_init_def)
  with window_consecutive [OF sim_rt.runtime_axioms, of "example_in_flight 9" "[1]" sim_init r st' w']
  show ?thesis by auto
qed

theorem ack_releases_exactly_witness:
  "\<exists>st' w'. poll_flush sim_env (example_in_flight 9) (example_read_world [example_ack 7]) =
     ret (Pending, st', w') \<and> unacked_data st' = [(8, [2])]"
  using ack_releases_exactly [OF sim_rt.prompt_runtime_axioms,
      of "example_read_world [example_ack 7]" "example_in_flight 9" "example_ack 7" 1]
    example_ack_acks [of 1 9] by auto

lemma unat_minus_1: "unat (- 1 :: u16) = 65535"
  by (simp add: unsigned_minus_1_eq_mask mask_eq_exp_minus_1)

theorem flush_stuck_at_wrap_witness:
  "\<exists>st' w'. poll_flush sim_env (example_in_flight 1) (example_read_world [example_ack 0]) =
     ret (Pending, st', w') \<and> unacked_data st' = [(- 1, [1]), (0, [2])]"
  using flush_stuck_at_wrap [OF sim_rt.prompt_runtime_axioms,
      of "example_read_world [example_ack 0]" "example_in_flight 1" "example_ack 0"]
    example_ack_acks [of 2 1] by (auto simp: numeral_2_eq_2 unat_minus_1)

theorem stale_ack_releases_all_witness:
  "\<exists>st' w'. poll_flush sim_env (example_in_flight 2) (example_read_world [example_ack (- 1)]) =
     ret (Ready (Inr ()), st', w') \<and> unacked_data st' = []"
  using stale_ack_releases_all [OF sim_rt.prompt_runtime_axioms,
      of "example_read_world [example_ack (- 1)]" "example_in_flight 2" "example_ack (- 1)"]
    example_ack_acks [of 0 2] by auto

theorem shutdown_panics_witness: "poll_shutdown sim_env example_stream sim_init = abort Todo"
  by (rule shutdown_panics [OF sim_rt.runtime_axioms])

text \<open>A segment within reach arrives twice, with another content the second time.\<close>

theorem flush_takes_in_witness:
  "\<exists>r st' w'. poll_flush sim_env example_stream (example_read_world
       [example_segment 0 [1], example_segment 200 [2], example_segment 0 [3]]) =
     ret (r, st', w') \<and> inbound_data st' = [101 \<mapsto> [3]]"
proof -
  let ?ps = "[example_segment 0 [1], example_segment 200 [2], example_segment 0 [3]]"
  have "near_data example_stream (example_segment 0 d)" "\<not> near_data example_stream (example_segment 200 d)" for d
    by (simp_all add: near_data_def circular_distance_def)
  then have "map (\<lambda>p. (seq_number p, data p)) (filter (near_data example_stream) ?ps) = [(101, [1]), (101, [3])]"
    by simp
  moreover have "\<not> is_shutdown example_stream" by (simp add: example_stream_def utp_stream_new_def)
  ultimately show ?thesis
    using flush_takes_in [OF sim_rt.prompt_runtime_axioms, of "example_read_world ?ps" example_stream]
    by (force simp del: filter.simps)
qed

end
