(* ===== verification/Utp_Listener.thy ===== *)
theory Utp_Listener
  imports Utp_Stream_Send
begin

text \<open>
  The listener of \<open>src/src/listener.rs\<close> and the handshake between \<open>UtpStream::connect\<close> and
  \<open>UtpListener::accept\<close>.
\<close>

section \<open>Definitions\<close>

record utp_listener =
  listener_socket :: utp_socket

definition utp_listener_new :: "utp_socket \<Rightarrow> utp_listener" where
  "utp_listener_new s = \<lparr>listener_socket = s\<rparr>"

definition utp_listener_bind ::
  "'w ext \<Rightarrow> socket_addr \<Rightarrow> 'w \<Rightarrow> (io_error + utp_listener \<times> packet_sender \<times> packet_receiver) \<times> 'w"
where
  "utp_listener_bind E addr w =
     (case utp_socket_bind E addr w of
        (Inl e, w) \<Rightarrow> (Inl e, w)
      | (Inr (s, ps, pr), w) \<Rightarrow> (Inr (utp_listener_new s, ps, pr), w))"

definition listener_local_addr :: "utp_listener \<Rightarrow> socket_addr" where
  "listener_local_addr l = local_addr (listener_socket l)"

text \<open>The conversions from \<open>UtpSocket\<close> and \<open>Arc<UtpSocket>\<close>.\<close>

definition utp_listener_from :: "utp_socket \<Rightarrow> utp_listener" where
  "utp_listener_from s = utp_listener_new s"

definition accept :: "'w ext \<Rightarrow> utp_listener \<Rightarrow> 'w \<Rightarrow> ((io_error + utp_stream) \<times> 'w) run" where
  "accept E l w =
     (let s = listener_socket l in
      case get_syn E s w of
        (None, w) \<Rightarrow> abort Unwrap
      | (Some (packet, addr), w) \<Rightarrow>
          let id_recv = connection_id packet + 1;
              id_send = connection_id packet
          in case random_u16 E w of
               (seq, w) \<Rightarrow>
                 let ack = seq_number packet in
                 (case insert_connection E s id_recv addr w of
                    (Inr receiver, w) \<Rightarrow>
                      let syn_ack = packet_new State 1 id_send 0 0 0 seq ack [] [];
                          seq = seq + 1
                      in (case send_to E s syn_ack addr w of
                            (Inl e, w) \<Rightarrow> ret (Inl e, w)
                          | (Inr _, w) \<Rightarrow>
                              ret (Inr (utp_stream_new s id_recv id_send addr receiver seq ack
                                Map.empty [] []), w))
                  | (Inl _, w) \<Rightarrow> abort Todo))"

section \<open>Accepting and connecting\<close>

context runtime
begin

text \<open>Accepting a SYN packet whose connection is not yet known.\<close>

lemma accept_new:
  assumes "out_q (view w) (syn_rx (listener_socket l)) = (syn, a) # q"
    and "tables (view w) (routing_table (listener_socket l)) (connection_id syn + 1, a) = None"
    and "out_rx (view w) (outgoing_tx (listener_socket l))"
  shows "\<exists>seq c w'. accept E l w = ret (Inr (utp_stream_new (listener_socket l)
      (connection_id syn + 1) (connection_id syn) a c (seq + 1) (seq_number syn) Map.empty [] []), w') \<and>
    \<not> in_made (view w) c \<and>
    (let v = added_connection (routing_table (listener_socket l)) (connection_id syn + 1, a) c
         (upd_out_q (syn_rx (listener_socket l)) q (view w))
     in view w' = upd_out_q (outgoing_tx (listener_socket l)) (out_q v (outgoing_tx (listener_socket l)) @
       [(packet_new State 1 (connection_id syn) 0 0 0 seq (seq_number syn) [] [], a)]) v)"
proof -
  let ?s = "listener_socket l"
  obtain r w1 where syn: "get_syn E ?s w = (r, w1)" by fastforce
  note next_syn = get_syn_next [OF assms(1) syn]
  obtain seq w2 where rnd: "random_u16 E w1 = (seq, w2)" by fastforce
  have v2: "view w2 = upd_out_q (syn_rx ?s) q (view w)" using random_view [of w1] rnd next_syn by simp
  obtain ri w3 where ins: "insert_connection E ?s (connection_id syn + 1) a w2 = (ri, w3)" by fastforce
  from insert_connection_spec [OF ins] v2 assms(2) obtain c where
    c: "ri = Inr c" "\<not> in_made (view w) c"
    "view w3 = added_connection (routing_table ?s) (connection_id syn + 1, a) c
      (upd_out_q (syn_rx ?s) q (view w))" by auto
  let ?p = "packet_new State 1 (connection_id syn) 0 0 0 seq (seq_number syn) [] []"
  obtain rs w4 where snd: "send_to E ?s ?p a w3 = (rs, w4)" by fastforce
  have "out_rx (view w3) (outgoing_tx ?s)" using c(3) assms(3) by (simp add: added_connection_def)
  with send_to_spec [OF snd] have "rs = Inr ()"
    "view w4 = upd_out_q (outgoing_tx ?s) (out_q (view w3) (outgoing_tx ?s) @ [(?p, a)]) (view w3)"
    by simp_all
  with syn next_syn rnd ins c snd show ?thesis
    by (intro exI [of _ seq] exI [of _ c] exI [of _ w4]) (simp add: accept_def Let_def)
qed

lemma accept_known:
  assumes "out_q (view w) (syn_rx (listener_socket l)) = (syn, a) # q"
    and "tables (view w) (routing_table (listener_socket l)) (connection_id syn + 1, a) \<noteq> None"
  shows "accept E l w = abort Todo"
proof -
  let ?s = "listener_socket l"
  obtain r w1 where syn: "get_syn E ?s w = (r, w1)" by fastforce
  note next_syn = get_syn_next [OF assms(1) syn]
  obtain seq w2 where rnd: "random_u16 E w1 = (seq, w2)" by fastforce
  have v2: "view w2 = upd_out_q (syn_rx ?s) q (view w)" using random_view [of w1] rnd next_syn by simp
  obtain ri w3 where ins: "insert_connection E ?s (connection_id syn + 1) a w2 = (ri, w3)" by fastforce
  from insert_connection_spec [OF ins] v2 assms(2) obtain e where "ri = Inl e" by auto
  with syn next_syn rnd ins show ?thesis by (simp add: accept_def Let_def)
qed

text \<open>The first half of a connect that gets as far as waiting for the response.\<close>

lemma connect_begin_spec:
  assumes "connect_begin E s w = ret (Inr (a, i, c, seq), w')"
  shows "seq = 2 \<and> tables (view w) (routing_table s) (i, a) = None \<and> \<not> in_made (view w) c \<and>
    (let v = added_connection (routing_table s) (i, a) c (view w)
     in view w' = upd_out_q (outgoing_tx s) (out_q v (outgoing_tx s) @
       [(packet_new Syn 1 i 0 0 0 1 0 [] [], a)]) v)"
proof -
  obtain r w1 where host: "lookup_host E w = (r, w1)" by fastforce
  have v1: "view w1 = view w" using lookup_view [of w] host by simp
  from assms host obtain a' as where r: "r = Inr (a' # as)"
    by (auto simp: connect_begin_def split: sum.splits list.splits)
  with assms host obtain i' c' w2 where reg: "register_connection E s a' w1 = ret ((i', c'), w2)"
    by (auto simp: connect_begin_def run_bind_ret_iff)
  obtain rs w3 where snd: "send_to E s (packet_new Syn 1 i' 0 0 0 1 0 [] []) a' w2 = (rs, w3)"
    by fastforce
  from assms host r reg snd have same: "rs = Inr ()" "w3 = w'" "a' = a" "i' = i" "c' = c" and "seq = 2"
    by (auto simp: connect_begin_def split: sum.splits)
  note reg = reg [unfolded same] and snd = snd [unfolded same]
  from register_spec [OF reg] v1 send_to_spec [OF snd] \<open>seq = 2\<close> show ?thesis
    by (auto split: if_splits)
qed

end

section \<open>Streams that are in step\<close>

text \<open>
  What \<open>a\<close> sends is what \<open>b\<close> expects: the id it sends under is the id that \<open>b\<close> is registered
  with, and its next number is the next number \<open>b\<close> waits for; nothing is in between.
\<close>

definition in_step :: "utp_stream \<Rightarrow> utp_stream \<Rightarrow> bool" where
  "in_step a b \<longleftrightarrow> connection_id_send a = connection_id_recv b \<and> stream_seq a = stream_ack b + 1 \<and>
     unacked_data a = [] \<and> received_data b = [] \<and> inbound_data b = Map.empty \<and>
     \<not> is_shutdown a"

lemma in_step_inv: "in_step a b \<Longrightarrow> tx_inv a \<and> rx_at (stream_seq a) msgs [] 0 b"
  by (simp add: in_step_def tx_inv_def rx_at_def segments_at_def)

section \<open>Properties\<close>

text \<open>
  C6. The handshake: when the SYN that \<open>connect\<close> queues reaches a listener that does not know
  the connection, \<open>accept\<close> returns a stream and queues a response, and this response lets
  \<open>connect\<close> return a stream such that the two are in step in both directions; each side has
  registered its channel under the id and address that the other side's packets carry.
\<close>

theorem handshake:
  assumes "runtime E view"
    and "connect_begin E s w0 = ret (Inr (b, i, c, q), w1)"
    and "last (out_q (view w1) (outgoing_tx s)) = (syn, b)"
    and "out_q (view w2) (syn_rx (listener_socket l)) = (syn, a) # syns"
    and "tables (view w2) (routing_table (listener_socket l)) (connection_id syn + 1, a) = None"
    and "out_rx (view w2) (outgoing_tx (listener_socket l))"
  shows "\<exists>stB w3 syn_ack stA. accept E l w2 = ret (Inr stB, w3) \<and>
    last (out_q (view w3) (outgoing_tx (listener_socket l))) = (syn_ack, a) \<and>
    (\<forall>w4. recv (inbound E) c w1 = (Some syn_ack, w4) \<longrightarrow> connect E s w0 = ret (Inr stA, w4)) \<and>
    connect_finish s (b, i, c, q) (Some syn_ack) = Ret stA \<and> in_step stA stB \<and> in_step stB stA \<and>
    remote_addr stA = b \<and> remote_addr stB = a \<and>
    tables (view w1) (routing_table s) (connection_id syn_ack, b) = Some (inbound_packets stA) \<and>
    tables (view w3) (routing_table (listener_socket l)) (connection_id_send stA, a) =
      Some (inbound_packets stB)"
proof -
  let ?sB = "listener_socket l"
  have q: "q = 2" and v1: "view w1 = upd_out_q (outgoing_tx s)
      (out_q (added_connection (routing_table s) (i, b) c (view w0)) (outgoing_tx s) @
        [(packet_new Syn 1 i 0 0 0 1 0 [] [], b)]) (added_connection (routing_table s) (i, b) c (view w0))"
    using runtime.connect_begin_spec [OF assms(1,2)] by (simp_all add: Let_def)
  with assms(3) have syn: "syn = packet_new Syn 1 i 0 0 0 1 0 [] []" by simp
  from runtime.accept_new [OF assms(1,4-6)] obtain seq d w3 where
    acc: "accept E l w2 = ret (Inr (utp_stream_new ?sB (connection_id syn + 1) (connection_id syn) a d
      (seq + 1) (seq_number syn) Map.empty [] []), w3)"
    and v3: "view w3 = upd_out_q (outgoing_tx ?sB)
      (out_q (added_connection (routing_table ?sB) (connection_id syn + 1, a) d
        (upd_out_q (syn_rx ?sB) syns (view w2))) (outgoing_tx ?sB) @
       [(packet_new State 1 (connection_id syn) 0 0 0 seq (seq_number syn) [] [], a)])
      (added_connection (routing_table ?sB) (connection_id syn + 1, a) d
        (upd_out_q (syn_rx ?sB) syns (view w2)))" by (auto simp: Let_def)
  let ?ack = "packet_new State 1 (connection_id syn) 0 0 0 seq (seq_number syn) [] []"
  let ?stA = "utp_stream_new s i (i + 1) b c 2 seq Map.empty [] []"
  have fin: "connect_finish s (b, i, c, q) (Some ?ack) = Ret ?stA"
    by (simp add: connect_finish_def packet_new_def q)
  have conn: "connect E s w0 = ret (Inr ?stA, w4)" if "recv (inbound E) c w1 = (Some ?ack, w4)" for w4
    using assms(2) that fin by (simp add: connect_def)
  have ids: "connection_id syn = i" "seq_number syn = 1" "connection_id ?ack = i"
    by (simp_all add: syn packet_new_def)
  show ?thesis
    by (rule exI, rule exI, rule exI [of _ ?ack], rule exI [of _ ?stA], intro conjI, rule acc)
      (use fin conn v1 v3 ids in \<open>simp_all add: in_step_def utp_stream_new_def added_connection_def\<close>)
qed

text \<open>
  C40. A SYN for a connection that is already registered, for instance a repeated one, makes
  \<open>accept\<close> panic.
\<close>

theorem repeated_syn_panics:
  assumes "runtime E view"
    and "out_q (view w) (syn_rx (listener_socket l)) = (syn, a) # q"
    and "tables (view w) (routing_table (listener_socket l)) (connection_id syn + 1, a) \<noteq> None"
  shows "accept E l w = abort Todo"
  using runtime.accept_known [OF assms] .

section \<open>Examples\<close>

definition example_listener :: utp_listener where
  "example_listener = utp_listener_new example_socket"

definition example_syn :: packet where
  "example_syn = packet_new Syn 1 7 0 0 0 1 0 [] []"

definition example_syn_world :: sim where
  "example_syn_world = sim_init\<lparr>out_q := (\<lambda>_. [])(4 := [(example_syn, SocketAddrV4 0 9)])\<rparr>"

lemmas utp_listener_examples [example_eval] = example_listener_def utp_listener_new_def
    example_syn_def example_syn_world_def

lemma example_connect:
  "\<exists>w1. connect_begin sim_env example_socket sim_init =
     ret (Inr (SocketAddrV4 0x7f000001 9000, 7, 10, 2), w1) \<and>
     out_q (sim_view w1) 2 = [(example_syn, SocketAddrV4 0x7f000001 9000)]"
  by (simp add: connect_begin_def register_connection.simps send_to_def sim_eval example_eval)

theorem handshake_witness:
  "\<exists>stB w3 stA. accept sim_env example_listener example_syn_world = ret (Inr stB, w3) \<and>
     in_step stA stB \<and> in_step stB stA"
proof -
  obtain w1 where con: "connect_begin sim_env example_socket sim_init =
      ret (Inr (SocketAddrV4 0x7f000001 9000, 7, 10, 2), w1)"
    "out_q (sim_view w1) 2 = [(example_syn, SocketAddrV4 0x7f000001 9000)]" using example_connect by blast
  show ?thesis
    using handshake [OF sim_rt.runtime_axioms con(1), of example_syn example_syn_world example_listener
        "SocketAddrV4 0 9" "[]"] con(2)
    by (auto simp: example_eval)
qed

theorem repeated_syn_panics_witness:
  "accept sim_env example_listener (example_syn_world\<lparr>tables := \<lambda>_. [(8, SocketAddrV4 0 9) \<mapsto> 5]\<rparr>) =
     abort Todo"
  by (rule repeated_syn_panics [OF sim_rt.runtime_axioms, where syn = example_syn and q = "[]"])
    (simp_all add: example_eval packet_new_def)

end
