(* ===== verification/Utp_Session.thy ===== *)
theory Utp_Session
  imports Utp_Listener
begin

text \<open>
  A stream in use: its owner reads, writes and flushes in any order, while packets from the
  peer arrive in between, lost, repeated and reordered at will.  The step relation is over the
  data handed out so far, the stream and the world; the invariant over it gives that a reader
  only ever gets a prefix of what the peer sent, and nothing from a lost segment on.
\<close>

section \<open>Steps\<close>

type_synonym 'w session = "bytes \<times> utp_stream \<times> 'w"

inductive session_step ::
  "'w ext \<Rightarrow> ('w \<Rightarrow> rt) \<Rightarrow> u16 \<Rightarrow> bytes list \<Rightarrow> 'w session \<Rightarrow> 'w session \<Rightarrow> bool"
  for E :: "'w ext" and view :: "'w \<Rightarrow> rt" and s :: u16 and msgs :: "bytes list"
where
  reading: "poll_read E st n w = ret (r, st', w') \<Longrightarrow>
    session_step E view s msgs (out, st, w) (out @ bytes_read r, st', w')"
| writing: "poll_write E st b w = ret (r, st', w') \<Longrightarrow>
    session_step E view s msgs (out, st, w) (out, st', w')"
| flushing: "poll_flush E st w = ret (r, st', w') \<Longrightarrow>
    session_step E view s msgs (out, st, w) (out, st', w')"
| arriving: "in_q (view w') (inbound_packets st) = in_q (view w) (inbound_packets st) @ ps \<Longrightarrow>
    \<forall>p\<in>set ps. genuine s msgs p \<Longrightarrow>
    session_step E view s msgs (out, st, w) (out, st, w')"

inductive_cases session_stepE [elim]: "session_step E view s msgs (out, st, w) x"

section \<open>Invariant\<close>

definition session_inv :: "('w \<Rightarrow> rt) \<Rightarrow> u16 \<Rightarrow> bytes list \<Rightarrow> 'w session \<Rightarrow> bool" where
  "session_inv view s msgs x \<longleftrightarrow> (case x of (out, st, w) \<Rightarrow>
     rx_inv s msgs out st \<and> tx_inv st \<and>
     (\<forall>p\<in>set (in_q (view w) (inbound_packets st)). genuine s msgs p))"

context runtime
begin

lemma write_frame:
  assumes "poll_write E st b w = ret (r, st', w')"
  shows "in_q (view w') = in_q (view w) \<and> inbound_packets st' = inbound_packets st \<and>
    rx_at s msgs out k st' = rx_at s msgs out k st"
proof (cases "is_shutdown st")
  case open_: False
  show ?thesis
  proof (cases "out_rx (view w) (stream_out st)")
    case True
    from poll_write_spec [OF open_ True refl, of b] assms show ?thesis
      by (auto simp: after_write_def rx_at_def)
  next
    case closed: False
    show ?thesis
    proof (cases "chunks MAX_DATA_SEGMENT_SIZE b = []")
      case True
      with assms open_ show ?thesis by (simp add: poll_write_def)
    next
      case False
      from write_chunks_closed [OF closed False, of 0] assms open_ show ?thesis
        by (auto simp: poll_write_def)
    qed
  qed
qed (use assms in \<open>simp add: poll_write_def\<close>)

lemma flush_frame:
  assumes "poll_flush E st w = ret (r, st', w')" and "rx_at s msgs out k st"
    and "\<forall>p\<in>set (in_q (view w) (inbound_packets st)). genuine s msgs p"
  shows "rx_at s msgs out k st' \<and> inbound_packets st' = inbound_packets st \<and>
    (\<exists>taken. in_q (view w) (inbound_packets st) = taken @ in_q (view w') (inbound_packets st))"
  using process_packets_rx [OF assms(2,3)] assms(1)
  by (auto simp: poll_flush_def split: if_splits)

lemma session_step_inv:
  assumes "length msgs < 2 ^ 16" and "session_step E view s msgs x y" and "session_inv view s msgs x"
  shows "session_inv view s msgs y"
  using assms(2,3)
proof cases
  case (reading st n w r st' w' out)
  with assms(3) obtain k where k: "rx_at s msgs out k st"
    "\<forall>p\<in>set (in_q (view w) (inbound_packets st)). genuine s msgs p" "tx_inv st"
    by (auto simp: session_inv_def rx_inv_def)
  from poll_read_rx [OF assms(1) k(1,2), of n] reading(3) obtain k' taken where
    "rx_at s msgs (out @ bytes_read r) k' st'" "inbound_packets st' = inbound_packets st"
    "in_q (view w) (inbound_packets st) = taken @ in_q (view w') (inbound_packets st)" by auto
  with k(2) read_keeps_window [OF k(3) reading(3)] reading(2) show ?thesis
    by (auto simp: session_inv_def rx_inv_def)
next
  case (writing st b w r st' w' out)
  with assms(3) write_frame [OF writing(3)] write_keeps_window [OF _ writing(3)] show ?thesis
    by (auto simp: session_inv_def rx_inv_def)
next
  case (flushing st w r st' w' out)
  with assms(3) obtain k where k: "rx_at s msgs out k st"
    "\<forall>p\<in>set (in_q (view w) (inbound_packets st)). genuine s msgs p" "tx_inv st"
    by (auto simp: session_inv_def rx_inv_def)
  from flush_frame [OF flushing(3) k(1,2)] k(2) flush_keeps_window [OF k(3) flushing(3)] flushing(2)
  show ?thesis by (auto simp: session_inv_def rx_inv_def)
next
  case (arriving w' st w ps out)
  with assms(3) show ?thesis by (auto simp: session_inv_def)
qed

lemma session_read_returns:
  assumes "length msgs < 2 ^ 16" and "session_inv view s msgs (out, st, w)"
  shows "\<exists>r st' w'. poll_read E st n w = ret (r, st', w')"
proof -
  from assms(2) obtain k where "rx_at s msgs out k st"
    "\<forall>p\<in>set (in_q (view w) (inbound_packets st)). genuine s msgs p"
    by (auto simp: session_inv_def rx_inv_def)
  from poll_read_rx [OF assms(1) this, of n] show ?thesis by blast
qed

end

text \<open>A session with a peer that sends a bounded number of segments.\<close>

locale session = runtime E view for E :: "'w ext" and view :: "'w \<Rightarrow> rt" +
  fixes s :: u16 and msgs :: "bytes list"
  assumes few_segments: "length msgs < 2 ^ 16"

sublocale session \<subseteq> invariant "session_step E view s msgs" "session_inv view s msgs"
  using session_step_inv [OF few_segments] by unfold_locales

context session
begin

lemma session_inv_reachable:
  "(session_step E view s msgs)\<^sup>*\<^sup>* x y \<Longrightarrow> session_inv view s msgs x \<Longrightarrow> session_inv view s msgs y"
  by (rule reachable_inv)

lemma out_is_prefix: "session_inv view s msgs (out, st, w) \<Longrightarrow> \<exists>rest. concat msgs = out @ rest"
  by (auto simp: session_inv_def rx_inv_def rx_at_def)
    (metis append_assoc append_take_drop_id concat_append)

end

section \<open>Properties\<close>

lemma session_start:
  assumes "in_step peer st" and "in_step st peer" and "in_q (view w) (inbound_packets st) = []"
  shows "session_inv view (stream_seq peer) msgs ([], st, w)"
  using in_step_inv [OF assms(1)] in_step_inv [OF assms(2)] assms(3)
  by (auto simp: session_inv_def rx_inv_def)

text \<open>
  C5. Whatever the order in which the owner of a stream reads, writes and flushes, and however
  the network loses, repeats and reorders the packets of the peer: the data handed out so far
  is a prefix of the data the peer sent, as long as the peer has sent fewer than 65536
  segments; the next read returns without a panic, and the data in flight is numbered
  consecutively.
\<close>

theorem delivered_is_prefix:
  assumes "runtime E view" and "length msgs < 2 ^ 16"
    and "in_step peer st0" and "in_step st0 peer" and "in_q (view w0) (inbound_packets st0) = []"
    and "(session_step E view (stream_seq peer) msgs)\<^sup>*\<^sup>* ([], st0, w0) (out, st, w)"
  shows "(\<exists>rest. concat msgs = out @ rest) \<and> tx_inv st \<and>
    (\<exists>r st' w'. poll_read E st n w = ret (r, st', w'))"
proof -
  have "session_inv view (stream_seq peer) msgs ([], st0, w0)"
    by (rule session_start [where view = view, OF assms(3-5)])
  moreover have session: "session E view msgs" using assms(1,2) by (simp add: session_def session_axioms_def)
  ultimately have inv: "session_inv view (stream_seq peer) msgs (out, st, w)"
    using session.session_inv_reachable [OF _ assms(6)] by blast
  from session.out_is_prefix [OF session inv] runtime.session_read_returns [OF assms(1,2) inv] inv
  show ?thesis by (auto simp: session_inv_def)
qed

section \<open>A lost segment\<close>

text \<open>No copy of segment \<open>i\<close> is in the channel of the stream.\<close>

definition without_segment :: "('w \<Rightarrow> rt) \<Rightarrow> u16 \<Rightarrow> nat \<Rightarrow> 'w session \<Rightarrow> bool" where
  "without_segment view s i x \<longleftrightarrow> (case x of (out, st, w) \<Rightarrow>
     \<forall>p\<in>set (in_q (view w) (inbound_packets st)). packet_type p = Data \<longrightarrow> seq_number p \<noteq> s + of_nat i)"

definition lossy_step ::
  "'w ext \<Rightarrow> ('w \<Rightarrow> rt) \<Rightarrow> u16 \<Rightarrow> bytes list \<Rightarrow> nat \<Rightarrow> 'w session \<Rightarrow> 'w session \<Rightarrow> bool"
where
  "lossy_step E view s msgs i x y \<longleftrightarrow> session_step E view s msgs x y \<and> without_segment view s i y"

text \<open>What the lost segment holds makes no difference.\<close>

lemma lossy_step_update:
  assumes "lossy_step E view s msgs i x y"
  shows "session_step E view s (msgs[i := d]) x y"
proof -
  from assms have "session_step E view s msgs x y" and lost: "without_segment view s i y"
    by (simp_all add: lossy_step_def)
  from this(1) show ?thesis
  proof cases
    case (arriving w' st w ps out)
    have "genuine s (msgs[i := d]) p" if "p \<in> set ps" for p
    proof -
      from that lost arriving(2,3) have "packet_type p = Data \<Longrightarrow> seq_number p \<noteq> s + of_nat i"
        by (auto simp: without_segment_def)
      moreover have "genuine s msgs p" using that arriving(4) by blast
      ultimately show ?thesis by (auto simp: genuine_def) (metis nth_list_update_neq)
    qed
    with arriving show ?thesis by (auto intro: session_step.arriving)
  qed (auto intro: session_step.intros)
qed

lemma lossy_run_update:
  "(lossy_step E view s msgs i)\<^sup>*\<^sup>* x y \<Longrightarrow> (session_step E view s (msgs[i := d]))\<^sup>*\<^sup>* x y"
  by (induction rule: rtranclp_induct) (auto intro: rtranclp.rtrancl_into_rtrancl lossy_step_update)

lemma common_prefix:
  assumes "ys @ b # us = out @ rest" and "ys @ c # vs = out @ rest'" and "b \<noteq> c"
  shows "\<exists>rest. ys = out @ rest"
proof -
  from assms(1) consider zs where "ys = out @ zs" | zs where "out = ys @ b # zs"
    by (auto simp: append_eq_append_conv2 Cons_eq_append_conv)
  then show ?thesis using assms(2,3) by cases auto
qed

text \<open>
  C23. Nothing is ever read past a lost segment: as long as no copy of segment \<open>i\<close> arrives,
  whatever else arrives and whatever the owner of the stream does, all that has been handed out
  is a prefix of the segments before it, for a peer that sends fewer than 65536 segments.
\<close>

theorem nothing_past_a_gap:
  assumes "runtime E view" and "length msgs < 2 ^ 16" and "i < length msgs"
    and "in_step peer st0" and "in_step st0 peer" and "in_q (view w0) (inbound_packets st0) = []"
    and "(lossy_step E view (stream_seq peer) msgs i)\<^sup>*\<^sup>* ([], st0, w0) (out, st, w)"
  shows "\<exists>rest. concat (take i msgs) = out @ rest"
proof -
  have "\<exists>rest. concat (take i msgs) @ b # concat (drop (Suc i) msgs) = out @ rest" for b
  proof -
    have session: "session E view (msgs[i := [b]])"
      using assms(1,2) by (simp add: session_def session_axioms_def)
    have "session_inv view (stream_seq peer) (msgs[i := [b]]) ([], st0, w0)"
      by (rule session_start [where view = view, OF assms(4-6)])
    from session.out_is_prefix [OF session session.session_inv_reachable
        [OF session lossy_run_update [OF assms(7)] this]] assms(3)
    show ?thesis by (simp add: upd_conv_take_nth_drop)
  qed
  from this [of 0] this [of 1] show ?thesis using common_prefix by fastforce
qed

section \<open>Example\<close>

definition example_peer :: utp_stream where
  "example_peer = utp_stream_new example_socket 8 7 (SocketAddrV4 0 1) 6 101 1 Map.empty [] []"

lemma example_in_step: "in_step example_peer example_stream" "in_step example_stream example_peer"
  by (simp_all add: in_step_def example_peer_def example_stream_def utp_stream_new_def)

interpretation sim_session: session sim_env sim_view 101 "[[1, 2], [3]]"
  by unfold_locales simp

text \<open>Two segments arrive in the wrong order, one of them twice, and are read.\<close>

theorem delivered_is_prefix_witness:
  "\<exists>r st' w' rest. poll_read sim_env example_stream 2 (example_read_world example_queue) =
     ret (r, st', w') \<and> [1, 2, 3] = bytes_read r @ rest \<and> tx_inv st'"
proof -
  let ?msgs = "[[1, 2], [3]] :: bytes list"
  let ?step = "session_step sim_env sim_view (stream_seq example_peer) ?msgs"
  let ?w = "example_read_world example_queue"
  have seq: "stream_seq example_peer = 101" by (simp add: example_peer_def utp_stream_new_def)
  have gen: "\<forall>p\<in>set example_queue. genuine 101 ?msgs p"
    by (auto simp: example_queue_def genuine_def less_Suc_eq)
  have arrive: "?step ([], example_stream, example_read_world []) ([], example_stream, ?w)"
    using gen by (intro arriving) (simp_all add: seq)
  have "session_inv sim_view 101 ?msgs ([], example_stream, ?w)"
    using gen in_step_inv [OF example_in_step(1), of ?msgs] in_step_inv [OF example_in_step(2), of "[]"]
    by (auto simp: session_inv_def rx_inv_def seq)
  from sim_rt.session_read_returns [OF _ this, of 2] obtain r st' w' where
    run: "poll_read sim_env example_stream 2 ?w = ret (r, st', w')" by force
  have "?step ([], example_stream, ?w) ([] @ bytes_read r, st', w')" by (rule reading [OF run])
  then have "?step\<^sup>*\<^sup>* ([], example_stream, example_read_world []) ([] @ bytes_read r, st', w')"
    by (rule converse_rtranclp_into_rtranclp [where r = ?step, OF arrive r_into_rtranclp])
  from delivered_is_prefix [OF sim_rt.runtime_axioms _ example_in_step _ this, of 0] run show ?thesis
    by auto
qed

text \<open>The second of two segments arrives, the first does not.\<close>

theorem nothing_past_a_gap_witness:
  "\<exists>r st' w'. poll_read sim_env example_stream 2 (example_read_world [example_segment 1 [3]]) =
     ret (r, st', w') \<and> bytes_read r = []"
proof -
  let ?msgs = "[[1, 2], [3]] :: bytes list"
  let ?step = "lossy_step sim_env sim_view (stream_seq example_peer) ?msgs 0"
  let ?w = "example_read_world [example_segment 1 [3]]"
  have seq: "stream_seq example_peer = 101" by (simp add: example_peer_def utp_stream_new_def)
  have gen: "\<forall>p\<in>set [example_segment 1 [3]]. genuine 101 ?msgs p" by (simp add: genuine_def) (rule exI [of _ 1], simp)
  have "session_step sim_env sim_view 101 ?msgs ([], example_stream, example_read_world []) ([], example_stream, ?w)"
    by (rule arriving [OF _ gen]) simp
  then have arrive: "?step ([], example_stream, example_read_world []) ([], example_stream, ?w)"
    by (simp add: lossy_step_def seq without_segment_def)
  have at: "rx_at 101 ?msgs [] 0 example_stream" using in_step_inv [OF example_in_step(1), of ?msgs] seq by simp
  obtain r st' w' taken where run: "poll_read sim_env example_stream 2 ?w = ret (r, st', w')"
    and same: "inbound_packets st' = 5" and rest: "[example_segment 1 [3]] = taken @ in_q w' 5"
    using sim_rt.poll_read_rx [OF _ at, of ?w 2] gen by auto
  have "\<forall>p\<in>set (in_q w' 5). p = example_segment 1 [3]"
    using arg_cong [OF rest, of set] by auto
  with same have "without_segment sim_view 101 0 ([] @ bytes_read r, st', w')"
    by (auto simp: without_segment_def)
  then have "?step ([], example_stream, ?w) ([] @ bytes_read r, st', w')"
    using reading [OF run, where out = "[]"] unfolding lossy_step_def seq by blast
  then have "?step\<^sup>*\<^sup>* ([], example_stream, example_read_world []) ([] @ bytes_read r, st', w')"
    by (rule converse_rtranclp_into_rtranclp [where r = ?step, OF arrive r_into_rtranclp])
  from nothing_past_a_gap [OF sim_rt.runtime_axioms _ _ example_in_step _ this] run show ?thesis
    by auto
qed

end
