(* ===== verification/Utp_Transfer.thy ===== *)
theory Utp_Transfer
  imports Utp_Session
begin

text \<open>
  The way of data from a write on one side to a read on the other: through the outgoing channel
  and the sender task of the first socket, the network, and the receiver task and the routing
  table of the second; and of the acknowledgement back.  One lemma per leg.
\<close>

section \<open>The legs\<close>

text \<open>A sender task that leaves nothing behind has handed over all that was queued.\<close>

lemma sender_leg:
  assumes "runtime E view" and "packet_sender_poll E ps w = ret (r, ps', w')"
    and "outgoing_buffer ps' = []" and "out_q (view w') (outgoing_rx ps) = []"
  shows "sent (view w') (ps_socket ps) = sent (view w) (ps_socket ps) @
    datagrams (buf E) (outgoing_buffer ps @ out_q (view w) (outgoing_rx ps))"
proof -
  from assms(1) have "outbound_channels E view" "udp_sockets E view" by (simp_all add: runtime_def)
  then show ?thesis by (rule packet_sender_poll_spec [OF _ _ assms(2)]) (use assms(3,4) in auto)
qed

text \<open>Datagrams of one connection, all from its peer, reach its channel.\<close>

lemma packets_for_connection:
  assumes "\<And>d a'. (d, a') \<in> set ds \<Longrightarrow> a' = a \<and> (\<exists>p. decode_datagram B d = Some p \<and>
      packet_type p \<noteq> Syn \<and> connection_id p = i)"
  shows "set (packets_for B (i, a) ds) = {p. \<exists>d. (d, a) \<in> set ds \<and> decode_datagram B d = Some p}"
  using assms
proof (induction ds)
  case (Cons da ds)
  obtain d a' where da: "da = (d, a')" by fastforce
  with Cons.prems [of d a'] obtain p where
    p: "a' = a" "decode_datagram B d = Some p" "packet_type p \<noteq> Syn" "connection_id p = i" by auto
  have "set (packets_for B (i, a) ds) = {p. \<exists>d. (d, a) \<in> set ds \<and> decode_datagram B d = Some p}"
    by (rule Cons.IH) (rule Cons.prems, simp)
  with da p show ?case by auto
qed simp

lemma receiver_leg:
  assumes "runtime E view" and "\<And>h w. alive E h w"
    and "table_inv (view w)" and "tables (view w) (pr_routing_table pr) (i, a) = Some c"
    and "in_rx (view w) c" and "out_rx (view w) (syn_tx pr)" and "in_q (view w) c = []"
    and "packet_receiver_poll E pr w = ret (r, w')" and "arrived (view w') (pr_socket pr) = []"
    and "set (arrived (view w) (pr_socket pr)) = (\<lambda>p. (bytes_from_packet (buf E) p, a)) ` set pkts"
    and "\<And>p. p \<in> set pkts \<Longrightarrow> decode_datagram (buf E) (bytes_from_packet (buf E) p) = Some p \<and>
      packet_type p \<noteq> Syn \<and> connection_id p = i"
  shows "set (in_q (view w') c) = set pkts"
proof -
  from assms(2,8) have "receive_loop E pr w = Some (Ret (r, w'))"
    by (simp add: packet_receiver_poll_def)
  from runtime.receive_loop_routes [OF assms(1) this assms(2-6)] assms(7,9)
  have "in_q (view w') c = packets_for (buf E) (i, a) (arrived (view w) (pr_socket pr))" by auto
  moreover have "set (packets_for (buf E) (i, a) (arrived (view w) (pr_socket pr))) =
      {p. \<exists>d. (d, a) \<in> set (arrived (view w) (pr_socket pr)) \<and> decode_datagram (buf E) d = Some p}"
    using assms(10,11) by (intro packets_for_connection) auto
  ultimately show ?thesis using assms(10,11) by auto
qed

text \<open>The packets of a write are what the peer's stream waits for.\<close>

lemma write_leg:
  assumes "runtime E view" and "in_step st peer" and "out_rx (view w) (stream_out st)"
    and "poll_write E st b w = ret (r, st', w')"
  defines "cs \<equiv> chunks MAX_DATA_SEGMENT_SIZE b"
  obtains pkts where "length pkts = length cs"
    "out_q (view w') (stream_out st) = out_q (view w) (stream_out st) @
      map (\<lambda>p. (p, remote_addr st)) pkts"
    "stream_seq st' = stream_seq st + of_nat (length cs)"
    "\<And>p. p \<in> set pkts \<Longrightarrow> genuine (stream_seq st) cs p \<and> packet_type p = Data \<and>
      connection_id p = connection_id_recv peer \<and>
      decode_datagram (buf E) (bytes_from_packet (buf E) p) = Some p"
    "\<And>i. i < length cs \<Longrightarrow> seq_number (pkts ! i) = stream_seq st + of_nat i"
proof -
  have open_: "\<not> is_shutdown st" and id: "connection_id_send st = connection_id_recv peer"
    using assms(2) by (simp_all add: in_step_def)
  from assms(1) have B: "bytes_crate (buf E)" by (simp add: runtime_def)
  from runtime.poll_write_spec [OF assms(1) open_ assms(3) refl, of b] assms(4) obtain ts where
    ts: "length ts = length cs" and st': "st' = after_write st cs"
    and v: "view w' = upd_out_q (stream_out st) (out_q (view w) (stream_out st) @
      map (\<lambda>p. (p, remote_addr st)) (data_packets st (stream_seq st) ts cs)) (view w)"
    by (auto simp: cs_def)
  let ?pkts = "data_packets st (stream_seq st) ts cs"
  have nth: "?pkts ! i = stream_packet st Data (ts ! i) (stream_seq st + of_nat i) (cs ! i)"
    if "i < length cs" for i using in_data_packets [OF ts that] .
  have "genuine (stream_seq st) cs p \<and> packet_type p = Data \<and> connection_id p = connection_id_recv peer"
    if "p \<in> set ?pkts" for p
    using that ts nth id by (auto simp: in_set_conv_nth genuine_def packet_new_def)
  moreover have "decode_datagram (buf E) (bytes_from_packet (buf E) p) = Some p" if "p \<in> set ?pkts" for p
    using data_packets_fit [OF B _ ts that] chunks_bounds by (auto simp: cs_def)
  moreover have "seq_number (?pkts ! i) = stream_seq st + of_nat i" if "i < length cs" for i
    using nth [OF that] by (simp add: packet_new_def)
  ultimately show ?thesis
    using ts v st' by (intro that [of ?pkts]) (simp_all add: after_write_def)
qed

text \<open>A read acknowledges what is in order.\<close>

lemma read_leg:
  assumes "runtime E view" and "in_tx (view w) (inbound_packets st)" and "out_rx (view w) (stream_out st)"
    and "poll_read E st n w = ret (r, st', w')"
  obtains t where "out_q (view w') (stream_out st) = out_q (view w) (stream_out st) @
      [(stream_packet st' State t (stream_seq st') [], remote_addr st)]"
    "connection_id_send st' = connection_id_send st"
proof -
  obtain tps rest where abs: "read_absorbs E view st n w tps rest"
    using runtime.poll_read_spec [OF assms(1)] by blast
  with assms(4) obtain st1 where st1: "absorb st tps = Ret st1"
    by (cases "absorb st tps") (simp_all add: read_absorbs_def)
  from abs st1 assms(2) obtain k where
    "read_ends E view (upd_in_q (inbound_packets st) rest (view w)) (reassembled k st1) n (poll_read E st n w)"
    unfolding read_absorbs_def by (simp only: outcome.case) blast
  with absorb_frame [OF st1] assms(3,4) that show thesis
    by (auto simp: read_ends_def read_result_def reassembled_def packet_new_def)
qed

text \<open>Acknowledgements of everything in flight, however often they arrive, end a flush.\<close>

lemma absorb_full_acks:
  assumes "\<forall>p\<in>set (map snd tps). packet_type p = State \<and> ack_number p + 1 = stream_seq st"
    and "tx_inv st" and "length (unacked_data st) < 65535"
    and "unat (window_start st) + length (unacked_data st) \<le> 65536" and "absorb st tps = Ret st1"
  shows "tps \<noteq> [] \<or> unacked_data st = [] \<Longrightarrow> unacked_data st1 = []"
  using assms
proof (induction tps arbitrary: st)
  case (Cons tp tps)
  obtain t p where tp: "tp = (t, p)" by fastforce
  have acks: "acks_first st (length (unacked_data st)) p"
    using Cons.prems(2) by (simp add: tp acks_first_def window_start_def)
  from absorb_ack [OF acks Cons.prems(4), of t] Cons.prems(6) obtain st2 where
    st2: "absorb_packet st tp = Ret st2" "absorb st2 tps = Ret st1" "stream_seq st2 = stream_seq st"
    "unacked_data st2 = pop_acked (ack_number p) (unacked_data st)" by (auto simp: tp)
  have "pop_acked (ack_number p) (unacked_data st) = []"
    using pop_acked_window [OF Cons.prems(3) acks Cons.prems(5)] by (cases "unacked_data st") auto
  with st2 have none: "unacked_data st2 = []" by simp
  have "unat (stream_seq st) \<le> 65536" using unsigned_less [of "stream_seq st", where 'a = nat] by simp
  then show ?case
    by (intro Cons.IH [of st2]) (use none st2 Cons.prems(2) in \<open>simp_all add: tx_inv_def window_start_def\<close>)
qed simp

lemma flush_leg:
  assumes "prompt_runtime E view" and "in_tx (view w) (inbound_packets st)" and "\<not> is_shutdown st"
    and "in_q (view w) (inbound_packets st) \<noteq> []"
    and "\<forall>p\<in>set (in_q (view w) (inbound_packets st)). packet_type p = State \<and> ack_number p + 1 = stream_seq st"
    and "tx_inv st" and "length (unacked_data st) < 65535"
    and "unat (window_start st) + length (unacked_data st) \<le> 65536"
  shows "\<exists>st' w'. poll_flush E st w = ret (Ready (Inr ()), st', w') \<and> unacked_data st' = []"
proof -
  have "\<forall>p\<in>set (in_q (view w) (inbound_packets st)). packet_type p \<in> {Data, State}"
    using assms(5) by simp
  then obtain tps st1 w' where run: "map snd tps = in_q (view w) (inbound_packets st)" "absorb st tps = Ret st1"
    "poll_flush E st w = ret (if unacked_data st1 = [] then Ready (Inr ()) else Pending, st1, w')"
    using prompt_runtime.flush_drains [OF assms(1) _ assms(2,3)] by metis
  have "unacked_data st1 = []"
    by (rule absorb_full_acks [OF _ assms(6-8) run(2)]) (use assms(4,5) run(1) in auto)
  with run(3) show ?thesis by auto
qed

end
