(* ===== verification/Utp_Network.thy ===== *)
theory Utp_Network
  imports Utp_Session "HOL-Library.Sublist"
begin

text \<open>
  Two connected streams and the network between them.  The ends read, write and flush in any
  order; the network delivers any packet that was ever sent, any number of times and in any
  order, or never.  Every step is a step of a byte pipe with the same visible event, and a flush on
  one end completes only when the other end has received everything, as long as the 16-bit
  numbers do not wrap.  The
  direction from end A to end B is considered; the other one is the same with the ends swapped.
\<close>

section \<open>Steps\<close>

text \<open>
  \<open>segs\<close> are the segments that A has queued so far, \<open>read_b\<close> the bytes handed to the reader at B,
  and the two wires hold all the packets that A and B have queued for sending.
\<close>

record 'w net =
  end_a :: utp_stream
  end_b :: utp_stream
  world :: 'w
  segs :: "bytes list"
  read_b :: bytes
  wire_ab :: "packet set"
  wire_ba :: "packet set"

text \<open>What an operation adds to an outgoing channel.\<close>

definition queued :: "('w \<Rightarrow> rt) \<Rightarrow> handle \<Rightarrow> 'w \<Rightarrow> 'w \<Rightarrow> packet set" where
  "queued view h w w' = set (map fst (drop (length (out_q (view w) h)) (out_q (view w') h)))"

text \<open>The segments that a write has queued, according to its result.\<close>

definition written_segments :: "(io_error + nat) poll \<Rightarrow> bytes \<Rightarrow> bytes list" where
  "written_segments r b = (if r = Ready (Inr (length b)) then chunks MAX_DATA_SEGMENT_SIZE b else [])"

text \<open>
  What the owners see of the direction from A to B: the bytes of which A is told that they are
  written, the bytes handed to the reader at B, and that a flush of A has completed.
\<close>

datatype pipe_event = Wrote bytes | Got bytes | Flushed | Silent

definition bytes_written :: "(io_error + nat) poll \<Rightarrow> bytes \<Rightarrow> bytes" where
  "bytes_written r b = (case r of Ready (Inr m) \<Rightarrow> take m b | _ \<Rightarrow> [])"

definition flush_event :: "(io_error + unit) poll \<Rightarrow> pipe_event" where
  "flush_event r = (if r = Ready (Inr ()) then Flushed else Silent)"

text \<open>The two owners use their ends.\<close>

inductive use_step :: "'w ext \<Rightarrow> ('w \<Rightarrow> rt) \<Rightarrow> 'w net \<Rightarrow> pipe_event \<Rightarrow> 'w net \<Rightarrow> bool"
  for E :: "'w ext" and view :: "'w \<Rightarrow> rt"
where
  a_writes: "poll_write E (end_a n) b (world n) = ret (r, st, w) \<Longrightarrow>
    use_step E view n (Wrote (bytes_written r b)) (n\<lparr>end_a := st, world := w, segs := segs n @ written_segments r b,
      wire_ab := wire_ab n \<union> queued view (stream_out (end_a n)) (world n) w\<rparr>)"
| a_reads: "poll_read E (end_a n) l (world n) = ret (r, st, w) \<Longrightarrow>
    use_step E view n Silent (n\<lparr>end_a := st, world := w,
      wire_ab := wire_ab n \<union> queued view (stream_out (end_a n)) (world n) w\<rparr>)"
| a_flushes: "poll_flush E (end_a n) (world n) = ret (r, st, w) \<Longrightarrow>
    use_step E view n (flush_event r) (n\<lparr>end_a := st, world := w\<rparr>)"
| b_writes: "poll_write E (end_b n) b (world n) = ret (r, st, w) \<Longrightarrow>
    use_step E view n Silent (n\<lparr>end_b := st, world := w,
      wire_ba := wire_ba n \<union> queued view (stream_out (end_b n)) (world n) w\<rparr>)"
| b_reads: "poll_read E (end_b n) l (world n) = ret (r, st, w) \<Longrightarrow>
    use_step E view n (Got (bytes_read r)) (n\<lparr>end_b := st, world := w, read_b := read_b n @ bytes_read r,
      wire_ba := wire_ba n \<union> queued view (stream_out (end_b n)) (world n) w\<rparr>)"
| b_flushes: "poll_flush E (end_b n) (world n) = ret (r, st, w) \<Longrightarrow>
    use_step E view n Silent (n\<lparr>end_b := st, world := w\<rparr>)"

text \<open>
  The network runs in between.  Everything else in the world may change when packets are
  delivered.
\<close>

inductive net_step :: "'w ext \<Rightarrow> ('w \<Rightarrow> rt) \<Rightarrow> 'w net \<Rightarrow> pipe_event \<Rightarrow> 'w net \<Rightarrow> bool"
  for E :: "'w ext" and view :: "'w \<Rightarrow> rt"
where
  uses: "use_step E view n e n' \<Longrightarrow> net_step E view n e n'"
| delivers: "in_q (view w) (inbound_packets (end_a n)) = in_q (view (world n)) (inbound_packets (end_a n)) @ as \<Longrightarrow>
    in_q (view w) (inbound_packets (end_b n)) = in_q (view (world n)) (inbound_packets (end_b n)) @ bs \<Longrightarrow>
    set as \<subseteq> wire_ba n \<Longrightarrow> set bs \<subseteq> wire_ab n \<Longrightarrow>
    net_step E view n Silent (n\<lparr>world := w\<rparr>)"

definition net_init :: "utp_stream \<Rightarrow> utp_stream \<Rightarrow> 'w \<Rightarrow> 'w net" where
  "net_init a b w = \<lparr>end_a = a, end_b = b, world = w, segs = [], read_b = [], wire_ab = {}, wire_ba = {}\<rparr>"

section \<open>What the operations do\<close>

lemma queued_append [simp]: "out_q (view w') h = out_q (view w) h @ xs \<Longrightarrow> queued view h w w' = fst ` set xs"
  by (simp add: queued_def)

lemma queued_same [simp]: "out_q (view w') h = out_q (view w) h \<Longrightarrow> queued view h w w' = {}"
  by (simp add: queued_def)

context runtime
begin

lemma read_effect:
  assumes "poll_read E st l w = ret (r, st', w')"
  obtains tps rest st1 where "in_q (view w) (inbound_packets st) = map snd tps @ rest"
    "absorb st tps = Ret st1" "unacked_data st' = unacked_data st1" "stream_seq st' = stream_seq st"
    "in_q (view w') = (in_q (view w))(inbound_packets st := rest)"
    "inbound_packets st' = inbound_packets st"
    "connection_id_send st' = connection_id_send st"
    "\<And>p. p \<in> queued view (stream_out st) w w' \<Longrightarrow> \<exists>t. p = stream_packet st' State t (stream_seq st') []"
proof -
  obtain tps rest where abs: "read_absorbs E view st l w tps rest" using poll_read_spec by blast
  then have q: "in_q (view w) (inbound_packets st) = map snd tps @ rest" by (simp add: read_absorbs_def)
  from abs assms obtain st1 where st1: "absorb st tps = Ret st1"
    by (cases "absorb st tps") (simp_all add: read_absorbs_def)
  note frame = absorb_frame [OF st1]
  from abs st1 consider
      w1 where "poll_read E st l w = ret (Ready (Inr []), st1\<lparr>is_shutdown := True\<rparr>, w1)" "rest = []"
        "view w1 = upd_in_q (inbound_packets st) [] (view w)"
    | k where "read_ends E view (upd_in_q (inbound_packets st) rest (view w)) (reassembled k st1) l
        (poll_read E st l w)"
    unfolding read_absorbs_def by (simp only: outcome.case) blast
  then show ?thesis
  proof cases
    case 1
    with assms q st1 frame show ?thesis by (intro that [of tps rest st1]) auto
  next
    case (2 k)
    have out: "stream_out (reassembled k st1) = stream_out st" using frame by (simp add: reassembled_def)
    show ?thesis
    proof (cases "out_rx (view w) (stream_out st)")
      case True
      with 2 out assms q st1 frame show ?thesis
        by (intro that [of tps rest st1])
          (auto simp: read_ends_def read_result_def reassembled_def)
    next
      case False
      with 2 out assms q st1 frame show ?thesis
        by (intro that [of tps rest st1]) (auto simp: read_ends_def reassembled_def)
    qed
  qed
qed

lemma flush_effect:
  assumes "poll_flush E st w = ret (r, st', w')"
  obtains tps rest st1 where "in_q (view w) (inbound_packets st) = map snd tps @ rest"
    "absorb st tps = Ret st1" "unacked_data st' = unacked_data st1" "stream_seq st' = stream_seq st"
    "in_q (view w') = (in_q (view w))(inbound_packets st := rest)"
    "inbound_packets st' = inbound_packets st"
proof (cases rule: process_packets_cases [of st w])
  case (returns tps rest st1 terminated w1)
  with assms absorb_frame [OF returns(2)] show ?thesis
    by (intro that [of tps rest st1]) (auto simp: poll_flush_def split: if_splits)
qed (use assms in \<open>simp add: poll_flush_def\<close>)

lemma write_effect:
  assumes "poll_write E st b w = ret (r, st', w')"
  shows "st' = after_write st (written_segments r b) \<and> in_q (view w') = in_q (view w) \<and>
    (\<exists>ts. length ts = length (written_segments r b) \<and> queued view (stream_out st) w w' =
      set (data_packets st (stream_seq st) ts (written_segments r b)))"
proof -
  have same: "?thesis" if "st' = st" "view w' = view w" "written_segments r b = []"
    using that by (auto simp: after_write_def)
  show ?thesis
  proof (cases "is_shutdown st")
    case True
    with assms same show ?thesis by (auto simp: poll_write_def written_segments_def)
  next
    case open_: False
    show ?thesis
    proof (cases "out_rx (view w) (stream_out st)")
      case True
      from poll_write_spec [OF open_ True refl, of b] assms show ?thesis
        by (auto simp: written_segments_def image_image)
    next
      case closed: False
      show ?thesis
      proof (cases "chunks MAX_DATA_SEGMENT_SIZE b = []")
        case True
        with assms open_ same show ?thesis by (auto simp: poll_write_def written_segments_def)
      next
        case False
        from write_chunks_closed [OF closed False, of 0] assms open_ same show ?thesis
          by (auto simp: poll_write_def written_segments_def)
      qed
    qed
  qed
qed

end

section \<open>Acknowledgements in transit\<close>

text \<open>
  The window of A: the segments from number \<open>m\<close> on.  An acknowledgement from B names a segment
  that B has reassembled, the last of the first \<open>j\<close>.
\<close>

definition numbered :: "u16 \<Rightarrow> bytes list \<Rightarrow> (u16 \<times> bytes) list" where
  "numbered s ms = zip (seq_from s (length ms)) ms"

definition ack_ok :: "u16 \<Rightarrow> nat \<Rightarrow> packet \<Rightarrow> bool" where
  "ack_ok s k p \<longleftrightarrow> packet_type p = Data \<or>
     packet_type p = State \<and> (\<exists>j\<le>k. ack_number p + 1 = s + of_nat j)"

definition no_wrap :: "u16 \<Rightarrow> bytes list \<Rightarrow> bool" where
  "no_wrap s ms \<longleftrightarrow> s \<noteq> 0 \<and> unat s + length ms \<le> 65536"

lemma length_numbered [simp]: "length (numbered s ms) = length ms"
  by (simp add: numbered_def)

lemma numbered_append:
  "numbered s (ms @ cs) = numbered s ms @ zip (seq_from (s + of_nat (length ms)) (length cs)) cs"
  by (simp add: numbered_def seq_from_append)

lemma ack_ok_mono: "ack_ok s k p \<Longrightarrow> k \<le> k' \<Longrightarrow> ack_ok s k' p"
  unfolding ack_ok_def by (meson order_trans)

lemma pop_acked_numbered:
  assumes "no_wrap s ms" and "m \<le> length ms" and "j \<le> length ms" and "a + 1 = s + of_nat j"
  shows "pop_acked a (drop m (numbered s ms)) = drop (max m j) (numbered s ms)"
proof -
  let ?u = "drop m (numbered s ms)"
  have s: "0 < unat s" "unat s + length ms \<le> 65536" using assms(1) by (auto simp: no_wrap_def unat_gt_0)
  have num: "unat (fst (?u ! i)) = unat s + m + i" if "m + i < length ms" for i
    using that s unat_plus [of s "m + i"] by (simp add: numbered_def nth_seq_from)
  have a: "unat a = unat s + j - 1"
  proof (cases j)
    case 0
    with assms(1,4) have "a = s - 1" "s \<noteq> 0" by (simp_all add: algebra_simps no_wrap_def)
    with 0 show ?thesis by (simp add: unat_minus_one)
  next
    case (Suc i)
    with assms(4) have "a = s + of_nat i" by (simp add: algebra_simps)
    with Suc s assms(3) show ?thesis by (simp add: unat_plus)
  qed
  have "pop_acked a ?u = drop (j - m) ?u"
  proof (rule pop_acked_eq)
    show "j - m \<le> length ?u" using assms(2,3) by simp
    show "fst (?u ! i) \<le> a" if "i < j - m" for i
      using num [of i] that assms(3) a by (simp add: word_le_nat_alt)
    show "\<not> fst (?u ! (j - m)) \<le> a" if "j - m < length ?u"
      using num [of "j - m"] that a s unfolding word_le_nat_alt by simp
  qed
  then show ?thesis by (simp add: max_def)
qed

lemma absorb_ack_ok:
  assumes "no_wrap s ms" and "ack_ok s k (snd tp)" and "k \<le> length ms" and "m \<le> k"
    and "unacked_data st = drop m (numbered s ms)" and "absorb_packet st tp = Ret st'"
  obtains m' where "m \<le> m'" "m' \<le> k" "unacked_data st' = drop m' (numbered s ms)"
proof (cases "unacked_data st' = unacked_data st")
  case True
  with assms that show ?thesis by auto
next
  case False
  with assms(2,6) have state: "packet_type (snd tp) = State"
    and pop: "unacked_data st' = pop_acked (ack_number (snd tp)) (unacked_data st)"
    by (auto simp: absorb_packet_def handle_packet_def ack_ok_def split: outcome.splits bool.splits)
  from state assms(2) obtain j where j: "j \<le> k" "ack_number (snd tp) + 1 = s + of_nat j"
    by (auto simp: ack_ok_def)
  with pop pop_acked_numbered [OF assms(1) _ _ j(2), of m] assms(3,4,5)
  show ?thesis by (intro that [of "max m j"]) simp_all
qed

lemma absorb_acks_ok:
  assumes "no_wrap s ms" and "k \<le> length ms"
    and "\<forall>p\<in>set (map snd tps). ack_ok s k p" and "m \<le> k"
    and "unacked_data st = drop m (numbered s ms)" and "absorb st tps = Ret st'"
  shows "\<exists>m'\<ge>m. m' \<le> k \<and> unacked_data st' = drop m' (numbered s ms)"
  using assms(3-)
proof (induction tps arbitrary: st m)
  case (Cons tp tps)
  from Cons.prems(4) obtain st1 where st1: "absorb_packet st tp = Ret st1" "absorb st1 tps = Ret st'"
    by (auto split: outcome.splits)
  from Cons.prems(1) have "ack_ok s k (snd tp)" by simp
  from absorb_ack_ok [OF assms(1) this assms(2) Cons.prems(2,3) st1(1)] obtain m1 where
    m1: "m \<le> m1" "m1 \<le> k" "unacked_data st1 = drop m1 (numbered s ms)" .
  from Cons.IH [OF _ m1(2,3) st1(2)] Cons.prems(1) m1(1) show ?case by (auto intro: order_trans)
qed auto

section \<open>Invariant\<close>

text \<open>
  \<open>k\<close> segments have been reassembled at B.  A's window starts at a segment that is not beyond
  them, every packet on its way to B is a segment or an acknowledgement, and every
  acknowledgement on its way to A is for some of the \<open>k\<close> segments.
\<close>

definition net_ok :: "('w \<Rightarrow> rt) \<Rightarrow> u16 \<Rightarrow> nat \<Rightarrow> 'w net \<Rightarrow> bool" where
  "net_ok view s k n \<longleftrightarrow> inbound_packets (end_a n) \<noteq> inbound_packets (end_b n) \<and>
     rx_at s (segs n) (read_b n) k (end_b n) \<and>
     stream_seq (end_a n) = s + of_nat (length (segs n)) \<and>
     (\<exists>m\<le>k. unacked_data (end_a n) = drop m (numbered s (segs n))) \<and>
     (\<forall>p\<in>wire_ab n \<union> set (in_q (view (world n)) (inbound_packets (end_b n))). genuine s (segs n) p) \<and>
     (\<forall>p\<in>wire_ba n \<union> set (in_q (view (world n)) (inbound_packets (end_a n))). ack_ok s k p)"

lemma no_wrap_few: "no_wrap s ms \<Longrightarrow> length ms < 2 ^ 16"
  using unat_gt_0 [of s] by (auto simp: no_wrap_def)

lemma no_wrap_append: "no_wrap s (ms @ cs) \<Longrightarrow> no_wrap s ms"
  by (simp add: no_wrap_def)

lemma genuine_append: "genuine s ms p \<Longrightarrow> genuine s (ms @ cs) p"
  by (force simp: genuine_def nth_append)

lemma segments_at_append: "segments_at s ms m \<Longrightarrow> segments_at s (ms @ cs) m"
  by (fastforce simp: segments_at_def nth_append)

lemma rx_at_append: "rx_at s ms out k st \<Longrightarrow> rx_at s (ms @ cs) out k st"
  by (simp add: rx_at_def segments_at_append)

lemma data_packets_genuine:
  assumes "stream_seq st = s + of_nat (length ms)" and "length ts = length cs"
    and "p \<in> set (data_packets st (stream_seq st) ts cs)"
  shows "genuine s (ms @ cs) p"
proof -
  from assms(2,3) obtain i where i: "i < length cs"
    "p = stream_packet st Data (ts ! i) (stream_seq st + of_nat i) (cs ! i)"
    by (auto simp: in_set_conv_nth in_data_packets)
  with assms(1) show ?thesis
    by (auto simp: genuine_def packet_new_def nth_append intro!: exI [of _ "length ms + i"])
qed

lemma data_packets_type: "p \<in> set (data_packets st q ts cs) \<Longrightarrow> packet_type p = Data"
  by (induction st q ts cs rule: data_packets.induct) (auto simp: packet_new_def)

context runtime
begin

lemma a_writes_ok:
  assumes "net_ok view s k n" and "poll_write E (end_a n) b (world n) = ret (r, st, w)"
  shows "net_ok view s k (n\<lparr>end_a := st, world := w, segs := segs n @ written_segments r b,
    wire_ab := wire_ab n \<union> queued view (stream_out (end_a n)) (world n) w\<rparr>)"
proof -
  let ?cs = "written_segments r b"
  from write_effect [OF assms(2)] obtain ts where st: "st = after_write (end_a n) ?cs"
    and q: "in_q (view w) = in_q (view (world n))" and ts: "length ts = length ?cs"
    and new: "queued view (stream_out (end_a n)) (world n) w =
      set (data_packets (end_a n) (stream_seq (end_a n)) ts ?cs)" by blast
  from assms(1) obtain m where m: "m \<le> k" "k \<le> length (segs n)"
    "unacked_data (end_a n) = drop m (numbered s (segs n))" by (auto simp: net_ok_def rx_at_def)
  then have "unacked_data st = drop m (numbered s (segs n @ ?cs))"
    using assms(1) by (simp add: st after_write_def numbered_append net_ok_def)
  with assms(1) m(1) q st new data_packets_genuine [OF _ ts] show ?thesis
    by (auto simp: net_ok_def after_write_def rx_at_append genuine_append)
qed

text \<open>What reading and flushing have in common: packets from B are handled.\<close>

lemma a_handles_ok:
  assumes "net_ok view s k n" and "no_wrap s (segs n)"
    and "in_q (view (world n)) (inbound_packets (end_a n)) = map snd tps @ rest"
    and "absorb (end_a n) tps = Ret st1" and "unacked_data st = unacked_data st1"
    and "stream_seq st = stream_seq (end_a n)" and "inbound_packets st = inbound_packets (end_a n)"
    and "in_q (view w) = (in_q (view (world n)))(inbound_packets (end_a n) := rest)"
    and "\<forall>p\<in>ps. packet_type p = State"
  shows "net_ok view s k (n\<lparr>end_a := st, world := w, wire_ab := wire_ab n \<union> ps\<rparr>)"
proof -
  from assms(1) obtain m where m: "m \<le> k" "k \<le> length (segs n)"
    "unacked_data (end_a n) = drop m (numbered s (segs n))" by (auto simp: net_ok_def rx_at_def)
  have "\<forall>p\<in>set (map snd tps). ack_ok s k p" using assms(1,3) by (auto simp: net_ok_def)
  from absorb_acks_ok [OF assms(2) m(2) this m(1,3) assms(4)] obtain m' where
    "m' \<le> k" "unacked_data st = drop m' (numbered s (segs n))" using assms(5) by auto
  with assms show ?thesis by (auto simp: net_ok_def genuine_def)
qed

lemma a_reads_ok:
  assumes "net_ok view s k n" and "no_wrap s (segs n)"
    and "poll_read E (end_a n) l (world n) = ret (r, st, w)"
  shows "net_ok view s k (n\<lparr>end_a := st, world := w,
    wire_ab := wire_ab n \<union> queued view (stream_out (end_a n)) (world n) w\<rparr>)"
proof (rule read_effect [OF assms(3)], rule a_handles_ok [OF assms(1,2)])
  fix tps rest st1
  assume new: "\<And>p. p \<in> queued view (stream_out (end_a n)) (world n) w \<Longrightarrow>
    \<exists>t. p = stream_packet st State t (stream_seq st) []"
  show "\<forall>p\<in>queued view (stream_out (end_a n)) (world n) w. packet_type p = State"
    using new by (fastforce simp: packet_new_def)
qed

lemma b_takes_ok:
  assumes "net_ok view s k n" and "rx_at s (segs n) out k' st" and "k \<le> k'"
    and "inbound_packets st = inbound_packets (end_b n)"
    and "set (in_q (view w) (inbound_packets (end_b n))) \<subseteq> set (in_q (view (world n)) (inbound_packets (end_b n)))"
    and "in_q (view w) (inbound_packets (end_a n)) = in_q (view (world n)) (inbound_packets (end_a n))"
    and "\<forall>p\<in>ps. ack_ok s k' p"
  shows "net_ok view s k' (n\<lparr>end_b := st, world := w, read_b := out, wire_ba := wire_ba n \<union> ps\<rparr>)"
  using assms by (auto simp: net_ok_def intro: ack_ok_mono order_trans)

lemma b_reads_ok:
  assumes "net_ok view s k n" and "no_wrap s (segs n)"
    and "poll_read E (end_b n) l (world n) = ret (r, st, w)"
  shows "\<exists>k'\<ge>k. net_ok view s k' (n\<lparr>end_b := st, world := w, read_b := read_b n @ bytes_read r,
      wire_ba := wire_ba n \<union> queued view (stream_out (end_b n)) (world n) w\<rparr>)"
proof -
  from assms(1) have gen:
    "\<forall>p\<in>set (in_q (view (world n)) (inbound_packets (end_b n))). genuine s (segs n) p"
    and rx: "rx_at s (segs n) (read_b n) k (end_b n)" by (simp_all add: net_ok_def)
  from poll_read_rx [OF no_wrap_few [OF assms(2)] rx gen, of l] assms(3) obtain k' taken where
    at: "k \<le> k'" "rx_at s (segs n) (read_b n @ bytes_read r) k' st"
    "inbound_packets st = inbound_packets (end_b n)"
    "in_q (view (world n)) (inbound_packets (end_b n)) = taken @ in_q (view w) (inbound_packets (end_b n))"
    by auto
  from read_effect [OF assms(3)] obtain rest where
    q: "in_q (view w) = (in_q (view (world n)))(inbound_packets (end_b n) := rest)"
    and new: "\<And>p. p \<in> queued view (stream_out (end_b n)) (world n) w \<Longrightarrow>
      \<exists>t. p = stream_packet st State t (stream_seq st) []" by metis
  have "\<forall>p\<in>queued view (stream_out (end_b n)) (world n) w. ack_ok s k' p"
    using new at(2) by (fastforce simp: ack_ok_def rx_at_def packet_new_def)
  moreover have "in_q (view w) (inbound_packets (end_a n)) = in_q (view (world n)) (inbound_packets (end_a n))"
    using q assms(1) by (simp add: net_ok_def)
  moreover have "set (in_q (view w) (inbound_packets (end_b n)))
      \<subseteq> set (in_q (view (world n)) (inbound_packets (end_b n)))" using at(4) by simp
  ultimately show ?thesis using b_takes_ok [OF assms(1) at(2,1,3)] at(1) by blast
qed

lemma b_writes_ok:
  assumes "net_ok view s k n" and "poll_write E (end_b n) b (world n) = ret (r, st, w)"
  shows "net_ok view s k (n\<lparr>end_b := st, world := w,
    wire_ba := wire_ba n \<union> queued view (stream_out (end_b n)) (world n) w\<rparr>)"
proof -
  have "\<forall>p\<in>queued view (stream_out (end_b n)) (world n) w. ack_ok s k p"
    using write_effect [OF assms(2)] by (auto simp: ack_ok_def dest!: data_packets_type)
  moreover have "rx_at s (segs n) (read_b n) k st" "inbound_packets st = inbound_packets (end_b n)"
    "in_q (view w) = in_q (view (world n))"
    using write_frame [OF assms(2), of s "segs n" "read_b n" k] assms(1) by (simp_all add: net_ok_def)
  ultimately have "net_ok view s k (n\<lparr>end_b := st, world := w, read_b := read_b n,
      wire_ba := wire_ba n \<union> queued view (stream_out (end_b n)) (world n) w\<rparr>)"
    by (intro b_takes_ok [OF assms(1)]) simp_all
  then show ?thesis by (simp add: net_ok_def)
qed

lemma b_flushes_ok:
  assumes "net_ok view s k n" and "poll_flush E (end_b n) (world n) = ret (r, st, w)"
  shows "net_ok view s k (n\<lparr>end_b := st, world := w\<rparr>)"
proof -
  have rx: "rx_at s (segs n) (read_b n) k (end_b n)"
    "\<forall>p\<in>set (in_q (view (world n)) (inbound_packets (end_b n))). genuine s (segs n) p"
    using assms(1) by (simp_all add: net_ok_def)
  from flush_frame [OF assms(2) rx] obtain taken where
    "rx_at s (segs n) (read_b n) k st" "inbound_packets st = inbound_packets (end_b n)"
    "in_q (view (world n)) (inbound_packets (end_b n)) = taken @ in_q (view w) (inbound_packets (end_b n))"
    by blast
  moreover from flush_effect [OF assms(2)] assms(1) have
    "in_q (view w) (inbound_packets (end_a n)) = in_q (view (world n)) (inbound_packets (end_a n))"
    by (metis fun_upd_other net_ok_def)
  ultimately have "net_ok view s k (n\<lparr>end_b := st, world := w, read_b := read_b n,
      wire_ba := wire_ba n \<union> {}\<rparr>)"
    by (intro b_takes_ok [OF assms(1)]) simp_all
  then show ?thesis by (simp add: net_ok_def)
qed

text \<open>
  One step from a state with the invariant: it is kept, the number of segments reassembled at B
  does not go down, and only a write of A adds segments.
\<close>

lemma use_step_ok:
  assumes "use_step E view n e n'" and "net_ok view s k n" and "no_wrap s (segs n')"
  shows "\<exists>k'\<ge>k. net_ok view s k' n'"
  using assms(1)
proof cases
  case (a_writes b r st w)
  with a_writes_ok [OF assms(2) a_writes(3)] show ?thesis by blast
next
  case (a_reads l r st w)
  from assms(3) a_reads have "no_wrap s (segs n)" by simp
  with a_reads_ok [OF assms(2) _ a_reads(3)] a_reads(2) show ?thesis by blast
next
  case (a_flushes r st w)
  from assms(3) a_flushes have "no_wrap s (segs n)" by simp
  with flush_effect [OF a_flushes(3)] a_handles_ok [OF assms(2), of _ _ _ st w "{}"] a_flushes(2)
  show ?thesis by simp (metis order_refl)
next
  case (b_writes b r st w)
  with b_writes_ok [OF assms(2) b_writes(3)] show ?thesis by blast
next
  case (b_reads l r st w)
  with assms(3) b_reads_ok [OF assms(2) _ b_reads(3)] show ?thesis by simp
next
  case (b_flushes r st w)
  with b_flushes_ok [OF assms(2) b_flushes(3)] show ?thesis by blast
qed

lemma net_step_ok:
  assumes "net_step E view n e n'" and "net_ok view s k n" and "no_wrap s (segs n')"
  shows "\<exists>k'\<ge>k. net_ok view s k' n'"
  using assms(1)
proof cases
  case uses
  with use_step_ok assms(2,3) show ?thesis by blast
next
  case (delivers w as bs)
  with assms(2) have "net_ok view s k n'" by (auto simp: net_ok_def)
  then show ?thesis by blast
qed

lemma net_step_segs: "net_step E view n e n' \<Longrightarrow> \<exists>cs. segs n' = segs n @ cs"
  by (auto elim!: net_step.cases use_step.cases)

end

section \<open>A byte pipe\<close>

text \<open>
  The abstract specification of a connection in one direction: bytes enter in the order in
  which they are written, wait in transit, move to a buffer at the receiver and leave it, in
  the same order, to the reader.
\<close>

record pipe =
  transit :: bytes
  buffered :: bytes
  handed_out :: bytes

definition pipe_write :: "bytes \<Rightarrow> pipe \<Rightarrow> pipe" where
  "pipe_write b p = p\<lparr>transit := transit p @ b\<rparr>"

text \<open>\<open>i\<close> bytes arrive, and \<open>j\<close> bytes of the buffer are handed out.\<close>

definition pipe_move :: "nat \<Rightarrow> nat \<Rightarrow> pipe \<Rightarrow> pipe" where
  "pipe_move i j p = (let b = buffered p @ take i (transit p)
     in p\<lparr>transit := drop i (transit p), buffered := drop j b, handed_out := handed_out p @ take j b\<rparr>)"

text \<open>
  Each step with its event.  A read gets the bytes that leave the buffer, a flush completes only
  when nothing is in transit, and bytes may arrive at any time.
\<close>

inductive pipe_step :: "pipe \<Rightarrow> pipe_event \<Rightarrow> pipe \<Rightarrow> bool" where
  writes: "pipe_step p (Wrote b) (pipe_write b p)"
| reads: "pipe_step p (Got (take j (buffered p @ take i (transit p)))) (pipe_move i j p)"
| flushes: "transit p = [] \<Longrightarrow> pipe_step p Flushed p"
| moves: "pipe_step p Silent (pipe_move i 0 p)"

abbreviation empty_pipe :: pipe where
  "empty_pipe \<equiv> \<lparr>transit = [], buffered = [], handed_out = []\<rparr>"

text \<open>All the bytes that the events of a run have written and read.\<close>

definition all_written :: "pipe_event list \<Rightarrow> bytes" where
  "all_written es = concat (map (\<lambda>e. case e of Wrote b \<Rightarrow> b | _ \<Rightarrow> []) es)"

definition all_read :: "pipe_event list \<Rightarrow> bytes" where
  "all_read es = concat (map (\<lambda>e. case e of Got b \<Rightarrow> b | _ \<Rightarrow> []) es)"

lemma pipe_move_bytes:
  "handed_out (pipe_move i j p) @ buffered (pipe_move i j p) @ transit (pipe_move i j p) =
     handed_out p @ buffered p @ transit p"
proof -
  have "take j b @ drop j b @ drop i (transit p) = buffered p @ transit p"
    if "b = buffered p @ take i (transit p)" for b
    unfolding append_assoc [symmetric] append_take_drop_id unfolding that by simp
  then show ?thesis by (simp add: pipe_move_def Let_def del: take_append drop_append)
qed

lemma handed_out_move [simp]:
  "handed_out (pipe_move i j p) = handed_out p @ take j (buffered p @ take i (transit p))"
  by (simp add: pipe_move_def Let_def)

lemma all_snoc [simp]:
  "all_written (es @ [e]) = all_written es @ (case e of Wrote b \<Rightarrow> b | _ \<Rightarrow> [])"
  "all_read (es @ [e]) = all_read es @ (case e of Got b \<Rightarrow> b | _ \<Rightarrow> [])"
  "all_written [] = []" "all_read [] = []"
  by (simp_all add: all_written_def all_read_def)

lemma pipe_trace:
  assumes "runs pipe_step empty_pipe es p"
  shows "handed_out p = all_read es \<and> handed_out p @ buffered p @ transit p = all_written es"
  using assms
proof (induction empty_pipe es p rule: runs.induct)
  case (runs_snoc es p e p')
  then have here: "handed_out p = all_read es" "all_written es = handed_out p @ buffered p @ transit p"
    by metis+
  from runs_snoc.hyps(3) show ?case
  proof cases
    case (writes b)
    then show ?thesis unfolding all_snoc here(2) by (simp add: here(1) pipe_write_def)
  next
    case (reads j i)
    then show ?thesis unfolding all_snoc here(2) pipe_move_bytes [of i j p, symmetric] by (simp add: here(1))
  next
    case (moves i)
    then show ?thesis unfolding all_snoc here(2) pipe_move_bytes [of i 0 p, symmetric] by (simp add: here(1))
  qed (use here in simp)
qed simp

text \<open>The pipe that the network implements.\<close>

definition net_pipe :: "'w net \<Rightarrow> pipe" where
  "net_pipe n =
     \<lparr>transit = drop (length (read_b n @ received_data (end_b n))) (concat (segs n)),
      buffered = received_data (end_b n), handed_out = read_b n\<rparr>"

lemma rx_at_prefix:
  assumes "rx_at s ms out k st"
  shows "out @ received_data st = concat (take k ms) \<and> prefix (out @ received_data st) (concat ms)"
  using assms by (metis append_take_drop_id concat_append prefixI rx_at_def)

lemma net_ok_prefix:
  "net_ok view s k n \<Longrightarrow> prefix (read_b n @ received_data (end_b n)) (concat (segs n))"
  unfolding net_ok_def using rx_at_prefix by blast

lemma take_drop_length: "take (length xs) (xs @ ys) = xs" "drop (length xs) (xs @ ys) = ys"
  by simp_all

text \<open>Growth at the far end, as one move of the pipe.\<close>

lemma pipe_moves:
  assumes "prefix (read_b n @ received_data (end_b n)) (read_b n' @ received_data (end_b n'))"
    and "prefix (read_b n' @ received_data (end_b n')) (concat (segs n))"
    and "read_b n' = read_b n @ x" and "segs n' = segs n"
  obtains i where "net_pipe n' = pipe_move i (length x) (net_pipe n)"
    "x = take (length x) (buffered (net_pipe n) @ take i (transit (net_pipe n)))"
proof -
  from assms(1,2) obtain u v where eqs:
    "read_b n' @ received_data (end_b n') = read_b n @ received_data (end_b n) @ u"
    "concat (segs n) = read_b n' @ received_data (end_b n') @ v"
    by (auto simp: prefix_def)
  with assms(3) have both: "received_data (end_b n) @ u = x @ received_data (end_b n')" by simp
  have here: "transit (net_pipe n) = u @ v"
  proof -
    have "concat (segs n) = (read_b n @ received_data (end_b n)) @ u @ v" using eqs by simp
    then show ?thesis by (simp only: net_pipe_def pipe.simps take_drop_length)
  qed
  moreover have "transit (net_pipe n') = v"
  proof -
    have "concat (segs n') = (read_b n' @ received_data (end_b n')) @ v" using eqs assms(4) by simp
    then show ?thesis by (simp only: net_pipe_def pipe.simps take_drop_length)
  qed
  ultimately have "net_pipe n' = pipe_move (length u) (length x) (net_pipe n)"
    using assms(3) both
    by (simp add: net_pipe_def pipe_move_def Let_def take_drop_length del: take_append drop_append)
  moreover have "buffered (net_pipe n) @ take (length u) (transit (net_pipe n)) = x @ received_data (end_b n')"
    unfolding here take_drop_length using both by (simp add: net_pipe_def)
  ultimately show thesis using that take_drop_length(1) by metis
qed

context runtime
begin

lemma write_bytes:
  assumes "poll_write E st b w = ret (r, st', w')"
  shows "concat (written_segments r b) = bytes_written r b"
proof -
  have pos: "MAX_DATA_SEGMENT_SIZE \<noteq> 0"
    by (simp add: MAX_DATA_SEGMENT_SIZE_def MAX_DATAGRAM_SIZE_def PACKET_HEADER_LEN_def)
  then have same: "concat (chunks MAX_DATA_SEGMENT_SIZE b) = b" by (rule concat_chunks)
  consider "is_shutdown st" | "\<not> is_shutdown st" "out_rx (view w) (stream_out st)"
    | "\<not> is_shutdown st" "b = []"
    | "\<not> is_shutdown st" "\<not> out_rx (view w) (stream_out st)" "chunks MAX_DATA_SEGMENT_SIZE b \<noteq> []"
    using same by fastforce
  then show ?thesis
  proof cases
    case 2
    from poll_write_spec [OF 2 refl, of b] assms same show ?thesis
      by (auto simp: written_segments_def bytes_written_def)
  next
    case 4
    from write_chunks_closed [OF 4(2,3), of 0] assms 4(1) show ?thesis
      by (auto simp: poll_write_def written_segments_def bytes_written_def)
  qed (use assms in \<open>auto simp: poll_write_def written_segments_def bytes_written_def\<close>)
qed

lemma flush_empties_pipe:
  assumes "net_ok view s k n" and "no_wrap s (segs n)"
    and "poll_flush E (end_a n) (world n) = ret (Ready (Inr ()), st, w)"
  shows "transit (net_pipe n) = []"
proof -
  let ?n = "n\<lparr>end_a := st, world := w\<rparr>"
  from use_step_ok [OF a_flushes [OF assms(3)] assms(1)] assms(2) obtain k' where
    k': "net_ok view s k' ?n" by auto
  then obtain m where "m \<le> k'" "unacked_data st = drop m (numbered s (segs n))"
    by (auto simp: net_ok_def)
  moreover have "unacked_data st = []" using flush_result [OF assms(3)] by simp
  ultimately have "length (segs n) \<le> k'" by simp
  with k' have "read_b n @ received_data (end_b n) = concat (segs n)"
    by (simp add: net_ok_def rx_at_def)
  then show ?thesis by (simp add: net_pipe_def)
qed

text \<open>Every step of the network is a step of the pipe with the same event.\<close>

lemma net_step_pipe:
  assumes "net_step E view n e n'" and "net_ok view s k n" and "no_wrap s (segs n')"
  shows "pipe_step (net_pipe n) e (net_pipe n')"
proof -
  from net_step_ok [OF assms] obtain k' where k': "k \<le> k'" "net_ok view s k' n'" by blast
  then have pre: "prefix (read_b n' @ received_data (end_b n')) (concat (segs n'))"
    by (simp add: net_ok_prefix)
  have moved: "\<exists>i. net_pipe n' = pipe_move i (length x) (net_pipe n) \<and>
      x = take (length x) (buffered (net_pipe n) @ take i (transit (net_pipe n)))"
    if "segs n' = segs n" "read_b n' = read_b n @ x" for x
  proof -
    have "concat (take k (segs n)) = read_b n @ received_data (end_b n)"
      "concat (take k' (segs n')) = read_b n' @ received_data (end_b n')"
      using assms(2) k'(2) by (simp_all add: net_ok_def rx_at_def)
    moreover have "prefix (concat (take k (segs n))) (concat (take k' (segs n)))"
      using k'(1) by (metis append_take_drop_id concat_append min.absorb1 prefixI take_take)
    ultimately have "prefix (read_b n @ received_data (end_b n)) (read_b n' @ received_data (end_b n'))"
      using that(1) by simp
    with pipe_moves [OF this _ that(2,1)] pre that(1) show ?thesis by metis
  qed
  have silent: "pipe_step (net_pipe n) Silent (net_pipe n')" if "segs n' = segs n" "read_b n' = read_b n"
    using moved [of "[]"] that moves by fastforce
  show ?thesis
    using assms(1)
  proof cases
    case uses
    then show ?thesis
    proof cases
      case (a_writes b r st w)
      have "net_pipe n' = pipe_write (concat (written_segments r b)) (net_pipe n)"
        using prefix_length_le [OF net_ok_prefix [OF assms(2)]] a_writes(2)
        by (simp add: net_pipe_def pipe_write_def)
      then show ?thesis unfolding a_writes(1) write_bytes [OF a_writes(3)] by (simp add: writes)
    next
      case (a_flushes r st w)
      have "net_pipe n' = net_pipe n" "no_wrap s (segs n)"
        using a_flushes(2) assms(3) by (simp_all add: net_pipe_def)
      with flush_empties_pipe [OF assms(2), of st w] a_flushes silent show ?thesis
        by (auto simp: flush_event_def flushes)
    next
      case (b_reads l r st w)
      then obtain i where "net_pipe n' = pipe_move i (length (bytes_read r)) (net_pipe n)"
        "bytes_read r = take (length (bytes_read r)) (buffered (net_pipe n) @ take i (transit (net_pipe n)))"
        using moved [of "bytes_read r"] by auto
      with reads [of "net_pipe n" "length (bytes_read r)" i] b_reads(1) show ?thesis by metis
    qed (use silent in simp_all)
  qed (use silent in simp)
qed

end

text \<open>The network simulates the pipe, until the sequence numbers wrap.\<close>

sublocale runtime \<subseteq> net_sim: simulation "net_step E view" pipe_step net_pipe
  "\<lambda>n. \<exists>k. net_ok view s k n" "\<lambda>n. no_wrap s (segs n)" for s
proof
  fix n e n'
  assume step: "net_step E view n e n'"
  show "no_wrap s (segs n)" if "no_wrap s (segs n')"
    using net_step_segs [OF step] that no_wrap_append by metis
  show "pipe_step (net_pipe n) e (net_pipe n')" if "\<exists>k. net_ok view s k n" "no_wrap s (segs n')"
    using net_step_pipe [OF step] that by blast
  show "\<exists>k. net_ok view s k n'" if "\<exists>k. net_ok view s k n" "no_wrap s (segs n')"
    using net_step_ok [OF step] that by blast
qed

context runtime
begin

lemmas net_run_sim = net_sim.run_sim
lemmas net_run_keeps = net_sim.run_keeps

end

section \<open>Properties\<close>

lemma net_init_ok:
  assumes "in_step a b" and "inbound_packets a \<noteq> inbound_packets b"
    and "in_q (view w) (inbound_packets a) = []" and "in_q (view w) (inbound_packets b) = []"
  shows "net_ok view (stream_seq a) 0 (net_init a b w)"
  using in_step_inv [OF assms(1), of "[]"] assms
  by (simp add: net_ok_def net_init_def numbered_def in_step_def)

lemma net_ok_transit:
  assumes "net_ok view s k n"
  shows "concat (segs n) = handed_out (net_pipe n) @ buffered (net_pipe n) @ transit (net_pipe n)"
  using net_ok_prefix [OF assms] by (auto simp: net_pipe_def prefix_def)

lemma net_run_ok:
  assumes "runtime E view" and "in_step a b" and "inbound_packets a \<noteq> inbound_packets b"
    and "in_q (view w) (inbound_packets a) = []" and "in_q (view w) (inbound_packets b) = []"
    and "runs (net_step E view) (net_init a b w) es n" and "no_wrap (stream_seq a) (segs n)"
  shows "(\<exists>k. net_ok view (stream_seq a) k n) \<and> runs pipe_step empty_pipe es (net_pipe n)"
proof -
  have "net_pipe (net_init a b w) = empty_pipe"
    using assms(2) by (simp add: net_pipe_def net_init_def in_step_def)
  moreover have "\<exists>k. net_ok view (stream_seq a) k (net_init a b w)"
    using net_init_ok [where view = view and w = w, OF assms(2-5)] by blast
  ultimately show ?thesis
    using runtime.net_run_sim [OF assms(1,6) _ assms(7)]
      runtime.net_run_keeps [OF assms(1,6) _ assms(7)] by auto
qed

text \<open>
  C3. Two streams in step, over a network that loses, repeats, delays and reorders packets, while
  their owners read, write and flush in any order, are a byte pipe in each direction: from every
  state that the network reaches, every step is a step of the pipe with the same visible event (a
  write of these bytes, a read of these bytes, a completed flush), and the events of the whole run
  are a run of the pipe from the empty one.  What has been written is what has been read,
  followed by what waits in the buffer of the receiver and what is in transit.  This holds until
  the sequence numbers wrap.
\<close>

theorem network_refines_pipe:
  assumes "runtime E view" and "in_step a b" and "inbound_packets a \<noteq> inbound_packets b"
    and "in_q (view w) (inbound_packets a) = []" and "in_q (view w) (inbound_packets b) = []"
    and "runs (net_step E view) (net_init a b w) es n" and "no_wrap (stream_seq a) (segs n)"
  shows "(\<forall>e n'. net_step E view n e n' \<and> no_wrap (stream_seq a) (segs n') \<longrightarrow>
      pipe_step (net_pipe n) e (net_pipe n')) \<and>
    runs pipe_step empty_pipe es (net_pipe n) \<and> handed_out (net_pipe n) = all_read es \<and>
    concat (segs n) = all_written es \<and>
    all_written es = handed_out (net_pipe n) @ buffered (net_pipe n) @ transit (net_pipe n)"
proof -
  have ok: "\<exists>k. net_ok view (stream_seq a) k n" and run: "runs pipe_step empty_pipe es (net_pipe n)"
    using net_run_ok [OF assms(1-7)] by simp_all
  from pipe_trace [OF run] ok net_ok_transit have
    "handed_out (net_pipe n) = all_read es" "concat (segs n) = all_written es"
    "all_written es = handed_out (net_pipe n) @ buffered (net_pipe n) @ transit (net_pipe n)" by metis+
  moreover have "pipe_step (net_pipe n) e (net_pipe n')"
    if "net_step E view n e n'" "no_wrap (stream_seq a) (segs n')" for e n'
    using runtime.net_step_pipe [OF assms(1) that(1) _ that(2)] ok by blast
  ultimately show ?thesis using run by blast
qed

text \<open>
  C4. A flush that completes tells the truth: at that moment the peer has reassembled every byte
  that was written, and has handed it out or keeps it for its reader.  This holds until the
  sequence numbers wrap.
\<close>

theorem flush_means_received:
  assumes "runtime E view" and "in_step a b" and "inbound_packets a \<noteq> inbound_packets b"
    and "in_q (view w) (inbound_packets a) = []" and "in_q (view w) (inbound_packets b) = []"
    and "runs (net_step E view) (net_init a b w) es n" and "no_wrap (stream_seq a) (segs n)"
    and "poll_flush E (end_a n) (world n) = ret (Ready (Inr ()), st', w')"
  shows "read_b n @ received_data (end_b n) = concat (segs n)"
proof -
  from net_run_ok [OF assms(1-7)] obtain k where "net_ok view (stream_seq a) k n" by blast
  from net_ok_transit [OF this] runtime.flush_empties_pipe [OF assms(1) this assms(7,8)]
  show ?thesis by (simp add: net_pipe_def)
qed

context runtime
begin

lemma queued_valid:
  assumes "poll_write E st b w = ret (r1, st', w') \<or> poll_read E st n w = ret (r2, st', w')"
    and "p \<in> queued view (stream_out st) w w'"
  shows "wf_packet p \<and> packet_type p \<in> {Data, State} \<and> connection_id p = connection_id_send st \<and>
    length (bytes_from_packet (buf E) p) \<le> MAX_DATAGRAM_SIZE \<and>
    decode_datagram (buf E) (bytes_from_packet (buf E) p) = Some p"
proof -
  have "\<exists>t micros q d st0. p = stream_packet st0 t micros q d \<and> connection_id_send st0 = connection_id_send st \<and>
    length d \<le> MAX_DATA_SEGMENT_SIZE \<and> (t = Data \<or> t = State)"
    using assms(1)
  proof
    assume "poll_write E st b w = ret (r1, st', w')"
    from write_effect [OF this] assms(2) obtain ts i where
      "i < length (written_segments r1 b)"
      "p = stream_packet st Data (ts ! i) (stream_seq st + of_nat i) (written_segments r1 b ! i)"
      by (auto simp: in_set_conv_nth in_data_packets)
    moreover from this(1) chunks_bounds [OF nth_mem, of _ MAX_DATA_SEGMENT_SIZE b] have
      "length (written_segments r1 b ! i) \<le> MAX_DATA_SEGMENT_SIZE"
      by (simp add: written_segments_def split: if_splits)
    ultimately show ?thesis by blast
  next
    assume "poll_read E st n w = ret (r2, st', w')"
    from read_effect [OF this] assms(2) show ?thesis by (metis list.size(3) zero_le)
  qed
  then obtain t micros q d st0 where p: "p = stream_packet st0 t micros q d"
    "connection_id_send st0 = connection_id_send st" "length d \<le> MAX_DATA_SEGMENT_SIZE" "t = Data \<or> t = State"
    by blast
  from segment_decodes [OF bytes_crate_axioms p(3,4), of st0 micros q] p show ?thesis
    by (simp add: wf_packet_def packet_new_def)
qed

end

text \<open>
  C16. Every packet that a stream queues for sending is a well-formed data or acknowledgement
  packet that carries the connection id of the peer; its encoding fits the receive buffer of the
  peer and decodes to the packet.
\<close>

theorem queued_packets_valid:
  assumes "runtime E view"
    and "poll_write E st b w = ret (r1, st', w') \<or> poll_read E st n w = ret (r2, st', w')"
    and "p \<in> queued view (stream_out st) w w'"
  shows "wf_packet p \<and> packet_type p \<in> {Data, State} \<and> connection_id p = connection_id_send st \<and>
    length (bytes_from_packet (buf E) p) \<le> MAX_DATAGRAM_SIZE \<and>
    decode_datagram (buf E) (bytes_from_packet (buf E) p) = Some p"
  using runtime.queued_valid [OF assms] .

section \<open>Example\<close>

text \<open>Three bytes are written at one end, arrive, are read at the other one and acknowledged.\<close>

definition example_sent :: packet where
  "example_sent = packet_new Data 1 8 1000 0 0 2 100 [] [1, 2, 3]"

definition example_net_written :: sim where
  "example_net_written =
     sim_init\<lparr>sim_clock := 1001, out_q := (\<lambda>_. [])(2 := [(example_sent, SocketAddrV4 0 2)])\<rparr>"

definition example_writer :: utp_stream where
  "example_writer = after_write example_stream [[1, 2, 3]]"

definition example_net :: "bool \<Rightarrow> sim \<Rightarrow> sim net" where
  "example_net written w = (if written
     then \<lparr>end_a = example_writer, end_b = example_peer, world = w, segs = [[1, 2, 3]], read_b = [],
       wire_ab = {example_sent}, wire_ba = {}\<rparr>
     else net_init example_stream example_peer w)"

lemma example_ends [simp]:
  "inbound_packets example_peer = 6" "stream_ack example_peer = 1" "unacked_data example_peer = []"
  "inbound_data example_peer = Map.empty" "received_data example_peer = []"
  "stream_socket example_peer = example_socket"
  "\<not> is_shutdown example_stream"
  by (simp_all add: example_peer_def example_stream_def utp_stream_new_def)

lemma example_net_write:
  "poll_write sim_env example_stream [1, 2, 3] sim_init =
     ret (Ready (Inr 3), example_writer, example_net_written)"
proof -
  have "chunks MAX_DATA_SEGMENT_SIZE [1, 2, 3 :: u8] = [[1, 2, 3]]"
    by (simp add: chunks_step MAX_DATA_SEGMENT_SIZE_def MAX_DATAGRAM_SIZE_def PACKET_HEADER_LEN_def)
  then show ?thesis
    by (simp add: poll_write_def send_data_def send_packet_def send_to_def sim_eval current_micros_eq
        after_write_def example_writer_def example_net_written_def example_sent_def sim_init_def
        example_stream_def utp_stream_new_def example_socket_def packet_new_def)
qed

lemma example_net_step1:
  "net_step sim_env sim_view (example_net False sim_init) (Wrote [1, 2, 3]) (example_net True example_net_written)"
proof -
  have "segs (example_net True w) = [] @ written_segments (Ready (Inr 3)) [1, 2, 3]" for w
    by (simp add: example_net_def written_segments_def chunks_step MAX_DATA_SEGMENT_SIZE_def
        MAX_DATAGRAM_SIZE_def PACKET_HEADER_LEN_def)
  moreover have "queued sim_view 2 sim_init example_net_written = {example_sent}"
    by (simp add: queued_def example_net_written_def sim_init_def)
  ultimately show ?thesis
    using uses [OF a_writes [of sim_env "example_net False sim_init", where view = sim_view, OF _]]
      example_net_write
    by (force simp: example_net_def net_init_def example_socket_def bytes_written_def)
qed

lemma example_no_wrap: "no_wrap 2 [[1, 2, 3]]"
  by (simp add: no_wrap_def)

theorem network_refines_pipe_witness:
  "runs pipe_step empty_pipe [Wrote [1, 2, 3]] (net_pipe (example_net True example_net_written)) \<and>
   transit (net_pipe (example_net True example_net_written)) = [1, 2, 3]"
proof -
  let ?n = "example_net True example_net_written"
  have "runs (net_step sim_env sim_view) (net_init example_stream example_peer sim_init) ([] @ [Wrote [1, 2, 3]]) ?n"
    by (rule runs_snoc [OF runs_Nil]) (use example_net_step1 in \<open>simp add: example_net_def\<close>)
  from network_refines_pipe [OF sim_rt.runtime_axioms example_in_step(2) _ _ _ this] example_no_wrap
  show ?thesis by (simp add: example_net_def net_pipe_def sim_init_def)
qed

text \<open>The datagram arrives and is read; its acknowledgement arrives.\<close>

definition example_net_arrived :: sim where
  "example_net_arrived = sim_init\<lparr>in_q := (\<lambda>_. [])(6 := [example_sent])\<rparr>"

lemma example_net_genuine:
  "\<forall>p\<in>set (in_q (sim_view example_net_arrived) (inbound_packets example_peer)). genuine 2 [[1, 2, 3]] p"
  by (simp add: example_net_arrived_def genuine_def example_sent_def packet_new_def)

lemma example_net_read:
  obtains r st' w' t where "poll_read sim_env example_peer 2 example_net_arrived = ret (r, st', w')"
    "stream_ack st' = 2" "received_data st' = [3]" "in_q w' 5 = []"
    "queued sim_view 2 example_net_arrived w' = {stream_packet st' State t (stream_seq st') []}"
proof -
  note gen = example_net_genuine
  have here: "\<exists>p\<in>set (in_q (sim_view example_net_arrived) (inbound_packets example_peer)).
      packet_type p = Data \<and> seq_number p = 2 + of_nat i" if "i < length [[1, 2, 3 :: u8]]" for i
    using that by (simp add: example_net_arrived_def example_sent_def packet_new_def)
  from sim_rt.poll_read_completes [of "[[1, 2, 3]]" 2 "[]" 0 example_peer example_net_arrived 2, OF _ _ _ _ _ gen here]
  obtain r st' w' t where run: "poll_read sim_env example_peer 2 example_net_arrived = ret (r, st', w')"
    and ack: "stream_ack st' + 1 = 3" and data: "bytes_read r = [1, 2]" "bytes_read r @ received_data st' = [1, 2, 3]"
    and out: "out_q (sim_view w') 2 = out_q (sim_view example_net_arrived) 2 @
      [(stream_packet st' State t (stream_seq st') [], remote_addr example_peer)]"
    by (auto simp: rx_at_def segments_at_def example_net_arrived_def sim_init_def example_socket_def)
  obtain rest where "in_q (sim_view w') = (in_q (sim_view example_net_arrived))(inbound_packets example_peer := rest)"
    by (rule sim_rt.read_effect [OF run])
  then have "in_q w' 5 = []" by (simp add: example_net_arrived_def)
  moreover have "stream_ack st' = 2" using ack by (simp add: eq_diff_eq [symmetric])
  ultimately show thesis using that run data queued_append [where view = sim_view, OF out] by auto
qed

lemma example_net_run:
  obtains es n ack where "runs (net_step sim_env sim_view) (example_net False sim_init) es n"
    "end_a n = example_writer" "segs n = [[1, 2, 3]]" "in_q (world n) 5 = [ack]" "in_tx (world n) 5"
    "packet_type ack = State" "ack_number ack = 2" "received_data (end_b n) = [3]"
proof -
  let ?step = "net_step sim_env sim_view" and ?n2 = "example_net True example_net_arrived"
  obtain r st' w' t where rd: "poll_read sim_env example_peer 2 example_net_arrived = ret (r, st', w')"
    "stream_ack st' = 2" "received_data st' = [3]" "in_q w' 5 = []"
    "queued sim_view 2 example_net_arrived w' = {stream_packet st' State t (stream_seq st') []}"
    by (rule example_net_read)
  let ?ack = "stream_packet st' State t (stream_seq st') []"
  let ?n3 = "?n2\<lparr>end_b := st', world := w', read_b := read_b ?n2 @ bytes_read r,
    wire_ba := wire_ba ?n2 \<union> queued sim_view (stream_out (end_b ?n2)) (world ?n2) w'\<rparr>"
  let ?n4 = "?n3\<lparr>world := sim_init\<lparr>in_q := (in_q w')(5 := [?ack])\<rparr>\<rparr>"
  have chan: "inbound_packets st' = 6"
    using sim_rt.poll_read_rx [of "[[1, 2, 3]]" 2 "[]" 0 example_peer, OF _ _ example_net_genuine, of 2] rd(1)
    by (auto simp: rx_at_def segments_at_def)
  have writer: "inbound_packets example_writer = 5" by (simp add: example_writer_def after_write_def)
  have "?step (example_net True example_net_written) Silent (example_net True example_net_written\<lparr>world := example_net_arrived\<rparr>)"
    by (rule delivers [where as = "[]" and bs = "[example_sent]"])
      (simp_all add: example_net_def example_net_written_def example_net_arrived_def writer sim_init_def)
  then have two: "?step (example_net True example_net_written) Silent ?n2" by (simp add: example_net_def)
  have three: "?step ?n2 (Got (bytes_read r)) ?n3" using rd(1) by (intro uses b_reads) (simp add: example_net_def)
  have four: "?step ?n3 Silent ?n4"
    by (rule delivers [where as = "[?ack]" and bs = "[]"])
      (simp_all add: example_net_def writer chan rd(4,5) example_socket_def)
  note run = runs_snoc [where step = ?step, OF runs_snoc [where step = ?step,
        OF runs_snoc [where step = ?step, OF runs_snoc [where step = ?step,
            OF runs_Nil example_net_step1] two] three] four]
  show thesis
    by (rule that [OF run, of ?ack]) (simp_all add: example_net_def rd(2,3) packet_new_def sim_init_def)
qed

theorem flush_means_received_witness:
  "\<exists>es n st' w'. runs (net_step sim_env sim_view) (net_init example_stream example_peer sim_init) es n \<and>
     poll_flush sim_env (end_a n) (world n) = ret (Ready (Inr ()), st', w') \<and> segs n = [[1, 2, 3]] \<and>
     read_b n = [1, 2]"
proof -
  obtain es n ack where run: "runs (net_step sim_env sim_view) (example_net False sim_init) es n"
    "end_a n = example_writer" "segs n = [[1, 2, 3]]" "in_q (world n) 5 = [ack]" "in_tx (world n) 5"
    "packet_type ack = State" "ack_number ack = 2" "received_data (end_b n) = [3]"
    by (rule example_net_run)
  have "acks_first example_writer 1 ack"
    using run(6,7) by (simp add: acks_first_def window_start_def example_writer_def after_write_def)
  with sim_rt.flush_one_ack [of "world n" example_writer ack 1] run obtain st' w' where
    flush: "poll_flush sim_env (end_a n) (world n) = ret (Ready (Inr ()), st', w')"
    by (auto simp: example_writer_def after_write_def)
  from run(1) have reach: "runs (net_step sim_env sim_view) (net_init example_stream example_peer sim_init) es n"
    by (simp add: example_net_def)
  have "read_b n @ received_data (end_b n) = concat (segs n)"
    by (rule flush_means_received [OF sim_rt.runtime_axioms example_in_step(2) _ _ _ reach _ flush])
      (use run(3) example_no_wrap in \<open>simp_all add: sim_init_def\<close>)
  with run(3,8) reach flush show ?thesis by auto
qed

theorem queued_packets_valid_witness:
  "\<exists>st' w'. poll_write sim_env example_stream [1, 2, 3] sim_init = ret (Ready (Inr 3), st', w') \<and>
     decode_datagram list_buf (bytes_from_packet list_buf example_sent) = Some example_sent"
proof -
  have "example_sent \<in> queued sim_view (stream_out example_stream) sim_init example_net_written"
    by (simp add: queued_def example_net_written_def sim_init_def example_socket_def)
  with queued_packets_valid [OF sim_rt.runtime_axioms disjI1 [OF example_net_write], of example_sent]
  show ?thesis using example_net_write by simp
qed

end
