(* ===== verification/Utp_System.thy ===== *)
theory Utp_System
  imports Utp_Network
begin

text \<open>
  The whole system around a connection: two streams, the sender and the receiver task of each of
  their sockets, the datagrams between them, and everything else that goes on in the two
  processes and in the network.  Other connections use the same sockets, other hosts send
  whatever they like, and the network loses, repeats and reorders datagrams.  Every step of the
  system is a step of the network of packets of \<open>Utp_Network\<close> with the same event, and with it a
  step of the byte pipe.
\<close>

section \<open>Effects of the stream operations\<close>

text \<open>An operation takes packets from the inbound channel and queues packets for the peer.\<close>

definition stream_effect :: "('w \<Rightarrow> rt) \<Rightarrow> utp_stream \<Rightarrow> 'w \<Rightarrow> 'w \<Rightarrow> packet list \<Rightarrow> bool" where
  "stream_effect view st w w' ps \<longleftrightarrow> (\<exists>q. view w' =
     upd_out_q (stream_out st) (out_q (view w) (stream_out st) @ map (\<lambda>p. (p, remote_addr st)) ps)
       (upd_in_q (inbound_packets st) q (view w)))"

text \<open>What the operations keep of a stream.\<close>

definition same_ends :: "utp_stream \<Rightarrow> utp_stream \<Rightarrow> bool" where
  "same_ends st st' \<longleftrightarrow> stream_socket st' = stream_socket st \<and> remote_addr st' = remote_addr st \<and>
     connection_id_send st' = connection_id_send st \<and> connection_id_recv st' = connection_id_recv st \<and>
     inbound_packets st' = inbound_packets st"

lemma stream_effectI:
  "view w' = upd_out_q (stream_out st) (out_q (view w) (stream_out st) @
     map (\<lambda>p. (p, remote_addr st)) ps) (view w) \<Longrightarrow> stream_effect view st w w' ps"
  "view w' = upd_in_q (inbound_packets st) q (view w) \<Longrightarrow> stream_effect view st w w' []"
  "view w' = view w \<Longrightarrow> stream_effect view st w w' []"
  "view w' = upd_out_q (stream_out st) (out_q (view w) (stream_out st) @ [(p, remote_addr st)])
     (upd_in_q (inbound_packets st) q (view w)) \<Longrightarrow> stream_effect view st w w' [p]"
  by (auto simp: stream_effect_def upd_same [OF refl] intro: exI [of _ "in_q (view w) (inbound_packets st)"])

lemma stream_effect_queued: "stream_effect view st w w' ps \<Longrightarrow> queued view (stream_out st) w w' = set ps"
  by (auto simp: stream_effect_def queued_def image_image)

context runtime
begin

lemma write_stream_effect:
  assumes "poll_write E st b w = ret (r, st', w')"
  shows "(\<exists>ps. stream_effect view st w w' ps) \<and> same_ends st st'"
proof -
  have same: ?thesis if "st' = st" "view w' = view w"
    using stream_effectI(3) [where view = view, OF that(2)] that(1) by (auto simp: same_ends_def)
  consider "is_shutdown st" | "\<not> is_shutdown st" "out_rx (view w) (stream_out st)"
    | "\<not> is_shutdown st" "\<not> out_rx (view w) (stream_out st)" "chunks MAX_DATA_SEGMENT_SIZE b = []"
    | "\<not> is_shutdown st" "\<not> out_rx (view w) (stream_out st)" "chunks MAX_DATA_SEGMENT_SIZE b \<noteq> []"
    by blast
  then show ?thesis
  proof cases
    case 2
    from poll_write_spec [OF 2 refl, of b] assms obtain cs ts where
      "st' = after_write st cs" "view w' = upd_out_q (stream_out st) (out_q (view w) (stream_out st) @
        map (\<lambda>p. (p, remote_addr st)) (data_packets st (stream_seq st) ts cs)) (view w)" by auto
    with stream_effectI(1) [where view = view, OF this(2)] show ?thesis by (auto simp: same_ends_def after_write_def)
  next
    case 4
    from write_chunks_closed [OF 4(2,3), of 0] assms 4(1) same show ?thesis
      by (auto simp: poll_write_def)
  qed (use assms same in \<open>auto simp: poll_write_def\<close>)
qed

lemma read_stream_effect:
  assumes "poll_read E st l w = ret (r, st', w')"
  shows "(\<exists>ps. stream_effect view st w w' ps) \<and> same_ends st st'"
proof -
  obtain tps rest where abs: "read_absorbs E view st l w tps rest" using poll_read_spec by blast
  from abs assms obtain st1 where st1: "absorb st tps = Ret st1"
    by (cases "absorb st tps") (simp_all add: read_absorbs_def)
  note frame = absorb_frame [OF st1]
  from abs st1 assms consider
      "st' = st1\<lparr>is_shutdown := True\<rparr>" "view w' = upd_in_q (inbound_packets st) [] (view w)"
    | k where "read_ends E view (upd_in_q (inbound_packets st) rest (view w)) (reassembled k st1) l
        (poll_read E st l w)"
    unfolding read_absorbs_def by (simp only: outcome.case) blast
  then show ?thesis
  proof cases
    case 1
    with stream_effectI(2) [where view = view, OF 1(2)] frame show ?thesis by (auto simp: same_ends_def)
  next
    case (2 k)
    let ?st = "reassembled k st1"
    have out: "stream_out ?st = stream_out st" "remote_addr ?st = remote_addr st" "same_ends st ?st"
      using frame by (simp_all add: reassembled_def same_ends_def)
    show ?thesis
    proof (cases "out_rx (view w) (stream_out st)")
      case True
      with 2 assms out obtain p where "st' = snd (read_result ?st l)"
        "view w' = upd_out_q (stream_out st) (out_q (view w) (stream_out st) @ [(p, remote_addr st)])
          (upd_in_q (inbound_packets st) rest (view w))" by (auto simp: read_ends_def)
      with stream_effectI(4) [where view = view, OF this(2)] out(3) show ?thesis
        by (auto simp: same_ends_def read_result_def)
    next
      case False
      with 2 assms out have "st' = ?st" "view w' = upd_in_q (inbound_packets st) rest (view w)"
        by (auto simp: read_ends_def)
      with stream_effectI(2) [where view = view, OF this(2)] out(3) show ?thesis by auto
    qed
  qed
qed

lemma flush_stream_effect:
  assumes "poll_flush E st w = ret (r, st', w')"
  shows "stream_effect view st w w' [] \<and> same_ends st st'"
proof (cases rule: process_packets_cases [of st w])
  case (returns tps rest st1 terminated w1)
  with assms have "w' = w1" "st' = (if terminated then st1\<lparr>is_shutdown := True\<rparr> else st1)"
    by (auto simp: poll_flush_def split: if_splits)
  with stream_effectI(2) returns(4) absorb_frame [OF returns(2)] show ?thesis
    by (auto simp: same_ends_def)
qed (use assms in \<open>simp add: poll_flush_def\<close>)

end

section \<open>One direction\<close>

text \<open>
  A packet that does not concern the connection: a SYN, a packet with another id, or a packet for
  another socket.
\<close>

definition foreign :: "u16 \<Rightarrow> socket_addr \<Rightarrow> packet \<Rightarrow> socket_addr \<Rightarrow> bool" where
  "foreign i dst p a \<longleftrightarrow> packet_type p = Syn \<or> connection_id p \<noteq> i \<or> a \<noteq> dst"

text \<open>What may be on its way from one socket: packets of the connection, and foreign ones.\<close>

definition carried :: "buf_api \<Rightarrow> packet set \<Rightarrow> u16 \<Rightarrow> socket_addr \<Rightarrow> packet \<Rightarrow> socket_addr \<Rightarrow> bool" where
  "carried B wire i dst p a \<longleftrightarrow> decode_datagram B (bytes_from_packet B p) = Some p \<and>
     (p \<in> wire \<or> foreign i dst p a)"

text \<open>
  The way from the sender task \<open>ps\<close>, whose socket has the address \<open>src\<close>, to the receiver task
  \<open>pr\<close> at the address \<open>dst\<close>, which routes packets with the id \<open>i\<close> from \<open>src\<close> to the channel \<open>c\<close>.
\<close>

record leg =
  leg_src :: socket_addr
  leg_dst :: socket_addr
  leg_receiver :: packet_receiver
  leg_id :: u16
  leg_chan :: handle

definition leg_open :: "rt \<Rightarrow> leg \<Rightarrow> bool" where
  "leg_open v L \<longleftrightarrow> in_rx v (leg_chan L) \<and> out_rx v (syn_tx (leg_receiver L)) \<and>
     tables v (pr_routing_table (leg_receiver L)) (leg_id L, leg_src L) = Some (leg_chan L)"

definition on_leg :: "buf_api \<Rightarrow> rt \<Rightarrow> packet_sender \<Rightarrow> leg \<Rightarrow> packet set \<Rightarrow> bool" where
  "on_leg B v ps L wire \<longleftrightarrow>
     (\<forall>p a. (p, a) \<in> set (outgoing_buffer ps @ out_q v (outgoing_rx ps)) \<longrightarrow>
        carried B wire (leg_id L) (leg_dst L) p a) \<and>
     (\<forall>d a. (d, a) \<in> set (sent v (ps_socket ps)) \<longrightarrow>
        (\<exists>p. d = bytes_from_packet B p \<and> carried B wire (leg_id L) (leg_dst L) p a)) \<and>
     (\<forall>d. (d, leg_src L) \<in> set (arrived v (pr_socket (leg_receiver L))) \<longrightarrow>
        (\<exists>p. d = bytes_from_packet B p \<and> carried B wire (leg_id L) (leg_dst L) p (leg_dst L)))"

text \<open>
  What the rest of the world may do to it: queue foreign packets, deliver what has been sent, and
  deliver anything from other addresses.
\<close>

definition outside :: "buf_api \<Rightarrow> rt \<Rightarrow> rt \<Rightarrow> packet_sender \<Rightarrow> leg \<Rightarrow> bool" where
  "outside B v v' ps L \<longleftrightarrow>
     (leg_open v L \<longrightarrow> leg_open v' L) \<and> in_q v' (leg_chan L) = in_q v (leg_chan L) \<and>
     sent v' (ps_socket ps) = sent v (ps_socket ps) \<and>
     (\<forall>p a. (p, a) \<in> set (out_q v' (outgoing_rx ps)) \<longrightarrow>
        (p, a) \<in> set (out_q v (outgoing_rx ps)) \<or> carried B {} (leg_id L) (leg_dst L) p a) \<and>
     (\<forall>d. (d, leg_src L) \<in> set (arrived v' (pr_socket (leg_receiver L))) \<longrightarrow>
        (d, leg_src L) \<in> set (arrived v (pr_socket (leg_receiver L))) \<or>
        (d, leg_dst L) \<in> set (sent v (ps_socket ps)))"

lemma carried_mono: "carried B wire i dst p a \<Longrightarrow> wire \<subseteq> wire' \<Longrightarrow> carried B wire' i dst p a"
  by (auto simp: carried_def)

lemma on_leg_mono: "on_leg B v ps L wire \<Longrightarrow> wire \<subseteq> wire' \<Longrightarrow> on_leg B v ps L wire'"
  unfolding on_leg_def using carried_mono by blast

lemma on_leg_outside: "on_leg B v ps L wire \<Longrightarrow> outside B v v' ps L \<Longrightarrow> on_leg B v' ps L wire"
  unfolding on_leg_def outside_def using carried_mono [OF _ empty_subsetI, of B]
  by (elim conjE, intro conjI allI impI; simp; blast)

lemma on_leg_queue:
  assumes "on_leg B v ps L wire" and "set q \<subseteq> wire'" and "wire \<subseteq> wire'"
    and "\<And>p. p \<in> set q \<Longrightarrow> decode_datagram B (bytes_from_packet B p) = Some p"
    and "set (out_q v' (outgoing_rx ps)) = set (out_q v (outgoing_rx ps)) \<union> (\<lambda>p. (p, x)) ` set q"
    and "sent v' = sent v" and "arrived v' = arrived v"
  shows "on_leg B v' ps L wire'"
  using on_leg_mono [OF assms(1,3)] assms(2,4-) unfolding on_leg_def carried_def by auto

text \<open>The sender task moves packets from the queue to the datagrams.\<close>

lemma on_leg_send:
  assumes "on_leg B v ps L wire"
    and "outgoing_buffer ps @ out_q v (outgoing_rx ps) = out @ b @ q"
    and "v' = upd_sent (ps_socket ps) (sent v (ps_socket ps) @ datagrams B out)
      (upd_out_q (outgoing_rx ps) q v)"
  shows "on_leg B v' (ps\<lparr>outgoing_buffer := b\<rparr>) L wire"
proof -
  have "set out \<union> set b \<union> set q = set (outgoing_buffer ps @ out_q v (outgoing_rx ps))"
    unfolding assms(2) by auto
  with assms(1) have "\<And>p a. (p, a) \<in> set out \<union> set b \<union> set q \<Longrightarrow> carried B wire (leg_id L) (leg_dst L) p a"
    unfolding on_leg_def by blast
  with assms(1) show ?thesis unfolding on_leg_def assms(3) by (auto simp: datagrams_def)
qed

text \<open>The receiver task passes on packets of the connection only.\<close>

lemma in_packets_for:
  "p \<in> set (packets_for B (i, a) ds) \<Longrightarrow>
     packet_type p \<noteq> Syn \<and> connection_id p = i \<and> (\<exists>d. (d, a) \<in> set ds \<and> decode_datagram B d = Some p)"
  by (induction B "(i, a)" ds rule: packets_for.induct) (auto split: option.splits if_splits)

lemma on_leg_arrived:
  assumes "on_leg B v ps L wire" and "arrived v (pr_socket (leg_receiver L)) = ds @ ds'"
  shows "set (packets_for B (leg_id L, leg_src L) ds) \<subseteq> wire"
proof
  fix p
  assume p: "p \<in> set (packets_for B (leg_id L, leg_src L) ds)"
  note this = in_packets_for [OF p]
  then obtain d where d: "(d, leg_src L) \<in> set ds" "decode_datagram B d = Some p" by blast
  with assms obtain p' where "d = bytes_from_packet B p'" "carried B wire (leg_id L) (leg_dst L) p' (leg_dst L)"
    unfolding on_leg_def by auto
  with d this \<open>packet_type p \<noteq> Syn \<and> _\<close> show "p \<in> wire" by (auto simp: carried_def foreign_def)
qed

section \<open>Both directions\<close>

text \<open>
  The tasks of two sockets share nothing.
\<close>

definition apart :: "leg \<Rightarrow> leg \<Rightarrow> packet_sender \<Rightarrow> packet_sender \<Rightarrow> bool" where
  "apart L L' ps ps' \<longleftrightarrow>
     pr_routing_table (leg_receiver L) \<noteq> pr_routing_table (leg_receiver L') \<and>
     pr_socket (leg_receiver L) \<noteq> pr_socket (leg_receiver L') \<and>
     ps_socket ps \<noteq> ps_socket ps' \<and> outgoing_rx ps \<noteq> outgoing_rx ps' \<and>
     {syn_tx (leg_receiver L), syn_tx (leg_receiver L')} \<inter> {outgoing_rx ps, outgoing_rx ps'} = {}"

text \<open>
  Two streams with their tasks: what the first one queues leaves through \<open>ps\<close> on the leg \<open>L\<close>, which
  ends in the channel of the second one, and conversely.
\<close>

definition wired :: "buf_api \<Rightarrow> rt \<Rightarrow> leg \<Rightarrow> leg \<Rightarrow> utp_stream \<Rightarrow> utp_stream \<Rightarrow>
    packet_sender \<Rightarrow> packet_sender \<Rightarrow> packet set \<Rightarrow> packet set \<Rightarrow> bool" where
  "wired B v L L' st st' ps ps' wire wire' \<longleftrightarrow> table_inv v \<and> apart L L' ps ps' \<and>
     leg_open v L \<and> leg_open v L' \<and> on_leg B v ps L wire \<and> on_leg B v ps' L' wire' \<and>
     outgoing_rx ps = stream_out st \<and> outgoing_rx ps' = stream_out st' \<and>
     inbound_packets st = leg_chan L' \<and> inbound_packets st' = leg_chan L"

lemma wired_sym: "wired B v L L' st st' ps ps' x y \<Longrightarrow> wired B v L' L st' st ps' ps y x"
  by (auto simp: wired_def apart_def)

lemma wired_channels: "wired B v L L' st st' ps ps' x y \<Longrightarrow> leg_chan L \<noteq> leg_chan L'"
  unfolding wired_def apart_def leg_open_def table_inv_def by metis

lemma wired_use:
  assumes "wired B (view w) L L' st st' ps ps' x y" and "stream_effect view st w w' q"
    and "same_ends st st1"
    and "\<And>p. p \<in> set q \<Longrightarrow> decode_datagram B (bytes_from_packet B p) = Some p"
  shows "wired B (view w') L L' st1 st' ps ps' (x \<union> set q) y"
proof -
  from assms(2) obtain r where v: "view w' = upd_out_q (stream_out st)
      (out_q (view w) (stream_out st) @ map (\<lambda>p. (p, remote_addr st)) q)
      (upd_in_q (inbound_packets st) r (view w))" by (auto simp: stream_effect_def)
  have own: "on_leg B (view w') ps L (x \<union> set q)"
    by (rule on_leg_queue [where v = "view w" and wire = x and q = q and x = "remote_addr st"])
      (use assms(1,4) v in \<open>auto simp: wired_def\<close>)
  have "on_leg B (view w') ps' L' y"
    by (rule on_leg_queue [where v = "view w" and wire = y and q = "[]"])
      (use assms(1) v in \<open>auto simp: wired_def apart_def\<close>)
  with own assms(1,3) show ?thesis
    by (auto simp: wired_def v table_inv_def leg_open_def same_ends_def)
qed

lemma wired_send:
  assumes "wired B v L L' st st' ps ps' x y"
    and "outgoing_buffer ps @ out_q v (outgoing_rx ps) = out @ b @ q"
    and "v' = upd_sent (ps_socket ps) (sent v (ps_socket ps) @ datagrams B out)
      (upd_out_q (outgoing_rx ps) q v)"
  shows "wired B v' L L' st st' (ps\<lparr>outgoing_buffer := b\<rparr>) ps' x y"
proof -
  have own: "on_leg B v' (ps\<lparr>outgoing_buffer := b\<rparr>) L x"
    using assms(1) by (intro on_leg_send [OF _ assms(2,3)]) (simp add: wired_def)
  have "on_leg B v' ps' L' y"
    using assms(1) by (auto simp: wired_def apart_def assms(3) on_leg_def)
  with own assms(1) show ?thesis
    by (auto simp: wired_def apart_def assms(3) table_inv_def leg_open_def)
qed

lemma wired_outside:
  "wired B v L L' st st' ps ps' x y \<Longrightarrow> table_inv v' \<Longrightarrow> outside B v v' ps L \<Longrightarrow> outside B v v' ps' L' \<Longrightarrow>
     wired B v' L L' st st' ps ps' x y"
  using on_leg_outside [of B v _ _ _ v'] by (auto simp: wired_def outside_def)

context runtime
begin

lemma wired_receive:
  assumes "wired (buf E) (view w) L L' st st' ps ps' x y" and "\<And>h w. alive E h w"
    and "packet_receiver_poll E (leg_receiver L) w = ret (r, w')"
  shows "wired (buf E) (view w') L L' st st' ps ps' x y \<and>
    (\<exists>bs. in_q (view w') (leg_chan L) = in_q (view w) (leg_chan L) @ bs \<and> set bs \<subseteq> x) \<and>
    in_q (view w') (leg_chan L') = in_q (view w) (leg_chan L')"
proof -
  let ?pr = "leg_receiver L"
  have run: "receive_loop E ?pr w = Some (Ret (r, w'))"
    using assms(2,3) by (simp add: packet_receiver_poll_def)
  have inv: "table_inv (view w)" and on: "on_leg (buf E) (view w) ps L x"
    and open_: "tables (view w) (pr_routing_table ?pr) (leg_id L, leg_src L) = Some (leg_chan L)"
    "in_rx (view w) (leg_chan L)" "out_rx (view w) (syn_tx ?pr)"
    using assms(1) by (simp_all add: wired_def leg_open_def)
  from receive_loop_routes [OF run assms(2) inv open_] obtain ds where
    ds: "arrived (view w) (pr_socket ?pr) = ds @ arrived (view w') (pr_socket ?pr)"
    "in_q (view w') (leg_chan L) = in_q (view w) (leg_chan L) @
      packets_for (buf E) (leg_id L, leg_src L) ds"
    "tables (view w') (pr_routing_table ?pr) (leg_id L, leg_src L) = Some (leg_chan L)" by auto
  from receive_loop_frame [OF run assms(2)] have frame: "receiver_frame ?pr (view w) (view w')" by auto
  have sub: "set (arrived (view w') (pr_socket ?pr)) \<subseteq> set (arrived (view w) (pr_socket ?pr))"
    using ds(1) by simp
  have "on_leg (buf E) (view w') ps L x"
    using on sub frame assms(1) unfolding on_leg_def receiver_frame_def wired_def apart_def by auto
  moreover have "on_leg (buf E) (view w') ps' L' y" "leg_open (view w') L'"
    using frame assms(1) by (auto simp: on_leg_def receiver_frame_def wired_def apart_def leg_open_def)
  moreover have "leg_open (view w') L" using ds(3) frame open_ by (simp add: leg_open_def receiver_frame_def)
  moreover have "in_q (view w') (leg_chan L') = in_q (view w) (leg_chan L')"
  proof -
    have "tables (view w) (pr_routing_table ?pr) k \<noteq> Some (leg_chan L')" for k
      using assms(1) unfolding wired_def apart_def leg_open_def table_inv_def by metis
    with frame show ?thesis by (simp add: receiver_frame_def)
  qed
  ultimately show ?thesis
    using assms(1) ds(2) on_leg_arrived [OF on ds(1)] receiver_frame_table_inv [OF frame inv]
    by (auto simp: wired_def)
qed

end

section \<open>Steps of the system\<close>

record 'w sys =
  conn :: "'w net"
  task_a :: packet_sender
  task_b :: packet_sender

text \<open>The leg \<open>AB\<close> is the way from end A to end B, \<open>BA\<close> the way back.\<close>

inductive sys_step :: "'w ext \<Rightarrow> ('w \<Rightarrow> rt) \<Rightarrow> leg \<Rightarrow> leg \<Rightarrow> 'w sys \<Rightarrow> pipe_event \<Rightarrow> 'w sys \<Rightarrow> bool"
  for E :: "'w ext" and view :: "'w \<Rightarrow> rt" and AB :: leg and BA :: leg
where
  streams: "use_step E view (conn s) e n \<Longrightarrow> sys_step E view AB BA s e (s\<lparr>conn := n\<rparr>)"
| a_sends: "packet_sender_poll E (task_a s) (world (conn s)) = ret (r, ps, w) \<Longrightarrow>
    sys_step E view AB BA s Silent (s\<lparr>conn := (conn s)\<lparr>world := w\<rparr>, task_a := ps\<rparr>)"
| b_sends: "packet_sender_poll E (task_b s) (world (conn s)) = ret (r, ps, w) \<Longrightarrow>
    sys_step E view AB BA s Silent (s\<lparr>conn := (conn s)\<lparr>world := w\<rparr>, task_b := ps\<rparr>)"
| b_receives: "packet_receiver_poll E (leg_receiver AB) (world (conn s)) = ret (r, w) \<Longrightarrow>
    sys_step E view AB BA s Silent (s\<lparr>conn := (conn s)\<lparr>world := w\<rparr>\<rparr>)"
| a_receives: "packet_receiver_poll E (leg_receiver BA) (world (conn s)) = ret (r, w) \<Longrightarrow>
    sys_step E view AB BA s Silent (s\<lparr>conn := (conn s)\<lparr>world := w\<rparr>\<rparr>)"
| others: "table_inv (view w) \<Longrightarrow>
    outside (buf E) (view (world (conn s))) (view w) (task_a s) AB \<Longrightarrow>
    outside (buf E) (view (world (conn s))) (view w) (task_b s) BA \<Longrightarrow>
    sys_step E view AB BA s Silent (s\<lparr>conn := (conn s)\<lparr>world := w\<rparr>\<rparr>)"

definition sys_wired :: "'w ext \<Rightarrow> ('w \<Rightarrow> rt) \<Rightarrow> leg \<Rightarrow> leg \<Rightarrow> 'w sys \<Rightarrow> bool" where
  "sys_wired E view AB BA s \<longleftrightarrow> wired (buf E) (view (world (conn s))) AB BA
     (end_a (conn s)) (end_b (conn s)) (task_a s) (task_b s) (wire_ab (conn s)) (wire_ba (conn s))"

section \<open>Simulation\<close>

context runtime
begin

lemma use_step_wired:
  assumes "use_step E view n e n'"
    and "wired (buf E) (view (world n)) AB BA (end_a n) (end_b n) ta tb (wire_ab n) (wire_ba n)"
  shows "wired (buf E) (view (world n')) AB BA (end_a n') (end_b n') ta tb (wire_ab n') (wire_ba n')"
proof -
  note a = wired_use [where view = view, OF assms(2)]
    and b = wired_sym [OF wired_use [where view = view, OF wired_sym [OF assms(2)]]]
  show ?thesis
    using assms(1)
  proof cases
    case (a_writes x r st w)
    with write_stream_effect [OF a_writes(3)] queued_valid [OF disjI1, OF a_writes(3)] a [of w _ st]
    show ?thesis by (auto simp: stream_effect_queued)
  next
    case (a_reads l r st w)
    with read_stream_effect [OF a_reads(3)] queued_valid [OF disjI2, OF a_reads(3)] a [of w _ st]
    show ?thesis by (auto simp: stream_effect_queued)
  next
    case (a_flushes r st w)
    with flush_stream_effect [OF a_flushes(3)] a [of w "[]" st] show ?thesis by auto
  next
    case (b_writes x r st w)
    with write_stream_effect [OF b_writes(3)] queued_valid [OF disjI1, OF b_writes(3)] b [of w _ st]
    show ?thesis by (auto simp: stream_effect_queued)
  next
    case (b_reads l r st w)
    with read_stream_effect [OF b_reads(3)] queued_valid [OF disjI2, OF b_reads(3)] b [of w _ st]
    show ?thesis by (auto simp: stream_effect_queued)
  next
    case (b_flushes r st w)
    with flush_stream_effect [OF b_flushes(3)] b [of w "[]" st] show ?thesis by auto
  qed
qed

text \<open>A step that leaves both inbound channels as they are is a step of the network.\<close>

lemma quiet_step:
  "in_q (view w) (inbound_packets (end_a n)) = in_q (view (world n)) (inbound_packets (end_a n)) \<Longrightarrow>
   in_q (view w) (inbound_packets (end_b n)) = in_q (view (world n)) (inbound_packets (end_b n)) \<Longrightarrow>
   net_step E view n Silent (n\<lparr>world := w\<rparr>)"
  by (rule delivers [where as = "[]" and bs = "[]"]) simp_all

lemma sends_wired:
  assumes "packet_sender_poll E ps w = ret (r, ps1, w')"
    and "wired (buf E) (view w) L L' st st' ps ps' x y"
  shows "wired (buf E) (view w') L L' st st' ps1 ps' x y \<and> in_q (view w') = in_q (view w)"
  by (rule packet_sender_poll_spec [OF outbound_channels_axioms udp_sockets_axioms assms(1)])
    (use wired_send [OF assms(2)] in auto)

end

text \<open>The receiver tasks run only while the socket that spawned them is alive.\<close>

locale running = runtime +
  assumes sockets_alive: "alive E h w"
begin

lemma sys_step_net:
  assumes "sys_step E view AB BA s e s'" and "sys_wired E view AB BA s"
  shows "net_step E view (conn s) e (conn s') \<and> sys_wired E view AB BA s'"
proof -
  note w = assms(2) [unfolded sys_wired_def] and w' = wired_sym [OF assms(2) [unfolded sys_wired_def]]
  have chans: "inbound_packets (end_a (conn s)) = leg_chan BA" "inbound_packets (end_b (conn s)) = leg_chan AB"
    using w by (simp_all add: wired_def)
  show ?thesis
    using assms(1)
  proof cases
    case (streams n)
    with use_step_wired [OF streams(2) w] show ?thesis by (simp add: sys_wired_def net_step.uses)
  next
    case (a_sends r ps w1)
    with sends_wired [OF a_sends(3) w] show ?thesis by (simp add: sys_wired_def quiet_step)
  next
    case (b_sends r ps w1)
    with sends_wired [OF b_sends(3) w'] wired_sym show ?thesis by (auto simp: sys_wired_def quiet_step)
  next
    case (b_receives r w1)
    from wired_receive [OF w sockets_alive b_receives(3)] obtain bs where
      "wired (buf E) (view w1) AB BA (end_a (conn s)) (end_b (conn s)) (task_a s) (task_b s)
        (wire_ab (conn s)) (wire_ba (conn s))"
      "in_q (view w1) (leg_chan AB) = in_q (view (world (conn s))) (leg_chan AB) @ bs"
      "set bs \<subseteq> wire_ab (conn s)" "in_q (view w1) (leg_chan BA) = in_q (view (world (conn s))) (leg_chan BA)"
      by blast
    with delivers [where n = "conn s" and w = w1 and as = "[]" and bs = bs] b_receives(1,2) show ?thesis
      by (simp add: sys_wired_def chans)
  next
    case (a_receives r w1)
    from wired_receive [OF w' sockets_alive a_receives(3)] obtain as where
      "wired (buf E) (view w1) BA AB (end_b (conn s)) (end_a (conn s)) (task_b s) (task_a s)
        (wire_ba (conn s)) (wire_ab (conn s))"
      "in_q (view w1) (leg_chan BA) = in_q (view (world (conn s))) (leg_chan BA) @ as"
      "set as \<subseteq> wire_ba (conn s)" "in_q (view w1) (leg_chan AB) = in_q (view (world (conn s))) (leg_chan AB)"
      by blast
    with delivers [where n = "conn s" and w = w1 and as = as and bs = "[]"] a_receives(1,2) wired_sym show ?thesis
      by (auto simp: sys_wired_def chans)
  next
    case (others w1)
    with wired_outside [OF w others(3-5)] show ?thesis
      by (simp add: sys_wired_def quiet_step chans outside_def)
  qed
qed

end

text \<open>The system simulates the network.\<close>

sublocale running \<subseteq> sys_sim: simulation "sys_step E view AB BA" "net_step E view" conn
  "sys_wired E view AB BA" "\<lambda>_. True" for AB BA
  by unfold_locales (simp_all add: sys_step_net)

context running
begin

lemmas sys_run_sim = sys_sim.run_sim

end

interpretation sim_sys: running sim_env sim_view
  by unfold_locales simp

section \<open>Properties\<close>

text \<open>
  A connection on which nothing has been sent: only the responses of the handshake may be
  around.
\<close>

definition fresh_conn :: "('w \<Rightarrow> rt) \<Rightarrow> 'w net \<Rightarrow> bool" where
  "fresh_conn view n \<longleftrightarrow> in_step (end_a n) (end_b n) \<and> segs n = [] \<and> read_b n = [] \<and>
     (\<forall>p\<in>wire_ab n \<union> set (in_q (view (world n)) (inbound_packets (end_b n))). packet_type p = State) \<and>
     (\<forall>p\<in>wire_ba n \<union> set (in_q (view (world n)) (inbound_packets (end_a n))).
        packet_type p = State \<and> ack_number p + 1 = stream_seq (end_a n))"

lemma fresh_conn_ok:
  assumes "fresh_conn view n" and "inbound_packets (end_a n) \<noteq> inbound_packets (end_b n)"
  shows "net_ok view (stream_seq (end_a n)) 0 n"
    "net_pipe n = \<lparr>transit = [], buffered = [], handed_out = []\<rparr>"
  using in_step_inv [of "end_a n" "end_b n" "[]"] assms
  by (auto simp: fresh_conn_def net_ok_def numbered_def in_step_def genuine_def ack_ok_def net_pipe_def)

text \<open>
  C1. The whole system is a byte pipe.  Two streams on two sockets whose sender and receiver tasks
  run at any time, while the owners read, write and flush in any order, other connections use
  the same sockets, other hosts send anything, and the network loses, repeats and reorders
  datagrams: the visible events of every run (writes, reads and completed flushes, with their
  bytes) are the events of a run of the pipe, what has been written at one end is what has been
  read at the other, followed by what it buffers and what is in transit, and nothing is in
  transit when a flush completes.  This holds until the sequence numbers wrap.
\<close>

theorem system_refines_pipe:
  assumes "runtime E view" and "\<And>h w. alive E h w"
    and "sys_wired E view AB BA s0" and "fresh_conn view (conn s0)"
    and "runs (sys_step E view AB BA) s0 es s"
    and "no_wrap (stream_seq (end_a (conn s0))) (segs (conn s))"
  shows "runs pipe_step empty_pipe es (net_pipe (conn s)) \<and>
    handed_out (net_pipe (conn s)) = all_read es \<and> concat (segs (conn s)) = all_written es \<and>
    concat (segs (conn s)) =
      handed_out (net_pipe (conn s)) @ buffered (net_pipe (conn s)) @ transit (net_pipe (conn s)) \<and>
    (\<forall>st w. poll_flush E (end_a (conn s)) (world (conn s)) = ret (Ready (Inr ()), st, w) \<longrightarrow>
      transit (net_pipe (conn s)) = [])"
proof -
  have "inbound_packets (end_a (conn s0)) \<noteq> inbound_packets (end_b (conn s0))"
    using assms(3) wired_channels by (fastforce simp: sys_wired_def wired_def)
  note fresh = fresh_conn_ok [OF assms(4) this]
  have "running E view" using assms(1,2) by (simp add: running_def running_axioms_def)
  from running.sys_run_sim [OF this assms(5,3)]
  have run: "runs (net_step E view) (conn s0) es (conn s)" by simp
  from runtime.net_run_keeps [OF assms(1) run _ assms(6)] fresh(1) obtain k where
    ok: "net_ok view (stream_seq (end_a (conn s0))) k (conn s)" by blast
  from runtime.net_run_sim [OF assms(1) run _ assms(6)] fresh
  have pipe: "runs pipe_step empty_pipe es (net_pipe (conn s))" by auto
  from pipe pipe_trace [OF pipe] net_ok_transit [OF ok] runtime.flush_empties_pipe [OF assms(1) ok assms(6)]
  show ?thesis by auto
qed

section \<open>Example\<close>

text \<open>
  \<open>example_stream\<close> is connected to a stream on another socket; the response of the handshake is
  still around.  Three bytes are written, and the sender task runs.
\<close>

definition example_remote_socket :: utp_socket where
  "example_remote_socket = \<lparr>socket = 11, local_addr = SocketAddrV4 0 2, routing_table = 13,
     syn_rx = 14, outgoing_tx = 12\<rparr>"

definition example_remote :: utp_stream where
  "example_remote =
     utp_stream_new example_remote_socket 8 7 (SocketAddrV4 0 1) 6 101 1 Map.empty [] []"

definition example_response :: packet where
  "example_response = packet_new State 1 7 0 0 0 100 1 [] []"

definition example_there :: leg where
  "example_there = \<lparr>leg_src = SocketAddrV4 0 1, leg_dst = SocketAddrV4 0 2,
     leg_receiver = spawn_receiver example_remote_socket 14, leg_id = 8, leg_chan = 6\<rparr>"

definition example_back :: leg where
  "example_back = \<lparr>leg_src = SocketAddrV4 0 2, leg_dst = SocketAddrV4 0 1,
     leg_receiver = spawn_receiver example_socket 4, leg_id = 7, leg_chan = 5\<rparr>"

definition example_sys_world :: sim where
  "example_sys_world = sim_init\<lparr>out_q := (\<lambda>_. [])(12 := [(example_response, SocketAddrV4 0 1)]),
     tables := (\<lambda>_. Map.empty)(3 := [(7, SocketAddrV4 0 2) \<mapsto> 5], 13 := [(8, SocketAddrV4 0 1) \<mapsto> 6])\<rparr>"

definition example_sys :: "sim sys" where
  "example_sys = \<lparr>conn = (net_init example_stream example_remote example_sys_world)\<lparr>wire_ba := {example_response}\<rparr>,
     task_a = spawn_sender example_socket 2, task_b = spawn_sender example_remote_socket 12\<rparr>"

lemmas sys_examples [example_eval] = example_remote_socket_def example_remote_def example_response_def
  example_there_def example_back_def example_sys_world_def example_sys_def

lemma example_response_decodes:
  "decode_datagram list_buf (bytes_from_packet list_buf example_response) = Some example_response"
  using segment_decodes(2) [OF lbuf.bytes_crate_axioms, of "[]" State "example_remote\<lparr>stream_ack := 1\<rparr>" 0 100]
  by (simp add: example_eval utp_stream_new_def)

lemma example_sys_wired: "sys_wired sim_env sim_view example_there example_back example_sys"
proof -
  have "on_leg list_buf (sim_view example_sys_world) (task_b example_sys) example_back {example_response}"
    using example_response_decodes
    by (auto simp: on_leg_def carried_def example_eval spawn_sender_def spawn_receiver_def)
  then show ?thesis
    by (auto simp: sys_wired_def wired_def apart_def leg_open_def table_inv_def on_leg_def example_eval
        net_init_def spawn_sender_def spawn_receiver_def utp_stream_new_def example_stream_def split: if_splits)
qed

lemma example_sys_fresh: "fresh_conn sim_view (conn example_sys)"
  by (simp add: fresh_conn_def in_step_def example_eval net_init_def utp_stream_new_def
      example_stream_def packet_new_def)

theorem system_refines_pipe_witness:
  "\<exists>s. runs (sys_step sim_env sim_view example_there example_back) example_sys [Wrote [1, 2, 3], Silent] s \<and>
     runs pipe_step empty_pipe [Wrote [1, 2, 3], Silent] (net_pipe (conn s)) \<and>
     transit (net_pipe (conn s)) = [1, 2, 3]"
proof -
  let ?step = "sys_step sim_env sim_view example_there example_back"
  have chunks: "chunks MAX_DATA_SEGMENT_SIZE [1, 2, 3 :: u8] = [[1, 2, 3]]"
    by (simp add: chunks_step MAX_DATA_SEGMENT_SIZE_def MAX_DATAGRAM_SIZE_def PACKET_HEADER_LEN_def)
  obtain w where run: "poll_write sim_env example_stream [1, 2, 3] example_sys_world =
      ret (Ready (Inr 3), after_write example_stream [[1, 2, 3]], w)"
    using sim_rt.poll_write_spec [of example_stream example_sys_world, OF _ _ chunks [symmetric]]
    by (auto simp: example_eval)
  let ?n = "conn example_sys"
  let ?n1 = "?n\<lparr>end_a := after_write example_stream [[1, 2, 3]], world := w,
    segs := segs ?n @ written_segments (Ready (Inr 3)) [1, 2, 3],
    wire_ab := wire_ab ?n \<union> queued sim_view (stream_out (end_a ?n)) (world ?n) w\<rparr>"
  obtain r ps w1 where send: "packet_sender_poll sim_env (task_a example_sys) w = ret (r, ps, w1)"
    using sim_rt.sender_returns [of "task_a example_sys" w] by auto
  let ?s1 = "example_sys\<lparr>conn := ?n1\<rparr>"
  let ?s = "?s1\<lparr>conn := (conn ?s1)\<lparr>world := w1\<rparr>, task_a := ps\<rparr>"
  have one: "?step example_sys (Wrote (bytes_written (Ready (Inr 3)) [1, 2, 3])) ?s1"
    using run by (intro streams a_writes) (simp add: example_sys_def net_init_def)
  have two: "?step ?s1 Silent ?s" using send by (intro a_sends) simp
  have reach: "runs ?step example_sys [Wrote [1, 2, 3], Silent] ?s"
    using runs_snoc [where step = ?step, OF runs_snoc [where step = ?step, OF runs_Nil one] two] by (simp add: bytes_written_def)
  have segs: "segs (conn ?s) = [[1, 2, 3]]" and start: "stream_seq (end_a (conn example_sys)) = 2"
    by (simp_all add: example_sys_def net_init_def written_segments_def chunks)
  have transit: "transit (net_pipe (conn ?s)) = [1, 2, 3]"
    unfolding net_pipe_def segs
    by (simp add: example_sys_def net_init_def example_remote_def utp_stream_new_def)
  have wrap: "no_wrap (stream_seq (end_a (conn example_sys))) (segs (conn ?s))"
    unfolding segs start by (rule example_no_wrap)
  have "alive sim_env h w'" for h w' by simp
  from system_refines_pipe [OF sim_rt.runtime_axioms this example_sys_wired example_sys_fresh reach wrap]
    transit reach show ?thesis by blast
qed

end
