(* ===== verification/Utp_Packet_Tests.thy ===== *)
theory Utp_Packet_Tests
  imports Utp_Packet
begin

unbundle bit_operations_syntax

text \<open>
  The unit tests of \<open>src/src/packet.rs\<close> as definitions over the operations of the \<open>bytes\<close> crate:
  each is the conjunction of the assertions of one test function.  They pass for every
  implementation of the crate that behaves as documented.
\<close>

section \<open>The tests\<close>

definition new_packet :: "extension list \<Rightarrow> bytes \<Rightarrow> packet" where
  "new_packet exts d = packet_new State 1 12345 246810 40 4096 0 0 exts d"

text \<open>\<open>Result::is_err\<close> and \<open>Result::is_ok\<close> of a call that returns.\<close>

definition is_err :: "('e + 'a) run \<Rightarrow> bool" where
  "is_err r = (case r of Some (Ret (Inl _)) \<Rightarrow> True | _ \<Rightarrow> False)"

definition is_ok :: "('e + 'a) run \<Rightarrow> bool" where
  "is_ok r = (case r of Some (Ret (Inr _)) \<Rightarrow> True | _ \<Rightarrow> False)"

definition into_bytes_test :: "buf_api \<Rightarrow> bool" where
  "into_bytes_test B \<longleftrightarrow>
     bytes_from_packet B (new_packet [] []) =
       [push_bit 4 0x02 OR 0x01, 0x00, 0x30, 0x39,
        0x00, 0x03, 0xc4, 0x1a,
        0x00, 0x00, 0x00, 0x28,
        0x00, 0x00, 0x10, 0x00,
        0x00, 0x00, 0x00, 0x00]"

definition into_bytes_with_extension_test :: "buf_api \<Rightarrow> bool" where
  "into_bytes_with_extension_test B \<longleftrightarrow>
     bytes_from_packet B
       (new_packet [extension_new SelectiveAck [0x00, 0x01, 0x00, 0x01]] []) =
       [push_bit 4 0x02 OR 0x01, 0x01, 0x30, 0x39,
        0x00, 0x03, 0xc4, 0x1a,
        0x00, 0x00, 0x00, 0x28,
        0x00, 0x00, 0x10, 0x00,
        0x00, 0x00, 0x00, 0x00,
        0x00, 0x04, 0x00, 0x01, 0x00, 0x01]"

definition into_bytes_with_data_test :: "buf_api \<Rightarrow> bool" where
  "into_bytes_with_data_test B \<longleftrightarrow>
     bytes_from_packet B (new_packet [] [0x01, 0x02, 0x03, 0x04, 0x05]) =
       [push_bit 4 0x02 OR 0x01, 0x00, 0x30, 0x39,
        0x00, 0x03, 0xc4, 0x1a,
        0x00, 0x00, 0x00, 0x28,
        0x00, 0x00, 0x10, 0x00,
        0x00, 0x00, 0x00, 0x00,
        0x01, 0x02, 0x03, 0x04, 0x05]"

definition into_bytes_with_extension_and_data_test :: "buf_api \<Rightarrow> bool" where
  "into_bytes_with_extension_and_data_test B \<longleftrightarrow>
     bytes_from_packet B
       (new_packet [extension_new SelectiveAck [0x00, 0x01, 0x00, 0x01]]
         [0x01, 0x02, 0x03, 0x04, 0x05]) =
       [push_bit 4 0x02 OR 0x01, 0x01, 0x30, 0x39,
        0x00, 0x03, 0xc4, 0x1a,
        0x00, 0x00, 0x00, 0x28,
        0x00, 0x00, 0x10, 0x00,
        0x00, 0x00, 0x00, 0x00,
        0x00, 0x04, 0x00, 0x01, 0x00, 0x01,
        0x01, 0x02, 0x03, 0x04, 0x05]"

definition multiple_extensions_test :: "buf_api \<Rightarrow> bool" where
  "multiple_extensions_test B \<longleftrightarrow>
     bytes_from_packet B
       (new_packet
         [extension_new SelectiveAck [0x00, 0x01, 0x00, 0x01],
          extension_new Bitfield [0x01, 0x00, 0x00, 0x01],
          extension_new CloseReason [0x00, 0x01, 0x01, 0x00]] []) =
       [push_bit 4 0x02 OR 0x01, 0x01, 0x30, 0x39,
        0x00, 0x03, 0xc4, 0x1a,
        0x00, 0x00, 0x00, 0x28,
        0x00, 0x00, 0x10, 0x00,
        0x00, 0x00, 0x00, 0x00,
        0x02, 0x04, 0x00, 0x01, 0x00, 0x01,
        0x03, 0x04, 0x01, 0x00, 0x00, 0x01,
        0x00, 0x04, 0x00, 0x01, 0x01, 0x00]"

definition from_bytes_test :: "buf_api \<Rightarrow> bool" where
  "from_bytes_test B \<longleftrightarrow>
     packet_try_from B
       [push_bit 4 0x02 OR 0x01, 0x00, 0x30, 0x39,
        0x00, 0x03, 0xc4, 0x1a,
        0x00, 0x00, 0x00, 0x28,
        0x00, 0x00, 0x10, 0x00,
        0x00, 0x00, 0x00, 0x00] = ret (Inr (new_packet [] []))"

definition from_malformed_bytes_test :: "buf_api \<Rightarrow> bool" where
  "from_malformed_bytes_test B \<longleftrightarrow>
     is_err (packet_try_from B
       [push_bit 4 0x02 OR 0x01, 0x00, 0x30, 0x39,
        0x00, 0x00, 0x10, 0x00,
        0x00, 0x00, 0x00, 0x00]) \<and>
     is_err (packet_try_from B
       [push_bit 4 0xff OR 0x01, 0x00, 0x30, 0x39,
        0x00, 0x03, 0xc4, 0x1a,
        0x00, 0x00, 0x00, 0x28,
        0x00, 0x00, 0x10, 0x00,
        0x00, 0x00, 0x00, 0x00]) \<and>
     is_err (packet_try_from B
       [push_bit 4 0x02 OR 0xff, 0x00, 0x30, 0x39,
        0x00, 0x03, 0xc4, 0x1a,
        0x00, 0x00, 0x00, 0x28,
        0x00, 0x00, 0x10, 0x00,
        0x00, 0x00, 0x00, 0x00]) \<and>
     is_err (packet_try_from B
       [push_bit 4 0x02 OR 0x01, 0x01, 0x30, 0x39,
        0x00, 0x03, 0xc4, 0x1a,
        0x00, 0x00, 0x00, 0x28,
        0x00, 0x00, 0x10, 0x00,
        0x00, 0x00, 0x00, 0x00])"

definition from_bytes_with_extension_test :: "buf_api \<Rightarrow> bool" where
  "from_bytes_with_extension_test B \<longleftrightarrow>
     packet_try_from B
       [push_bit 4 0x02 OR 0x01, 0x01, 0x30, 0x39,
        0x00, 0x03, 0xc4, 0x1a,
        0x00, 0x00, 0x00, 0x28,
        0x00, 0x00, 0x10, 0x00,
        0x00, 0x00, 0x00, 0x00,
        0x00, 0x04, 0x00, 0x01, 0x00, 0x01] =
       ret (Inr (new_packet [extension_new SelectiveAck [0x00, 0x01, 0x00, 0x01]] []))"

definition from_bytes_with_unknown_extension_test :: "buf_api \<Rightarrow> bool" where
  "from_bytes_with_unknown_extension_test B \<longleftrightarrow>
     packet_try_from B
       [push_bit 4 0x02 OR 0x01, 0xff, 0x30, 0x39,
        0x00, 0x03, 0xc4, 0x1a,
        0x00, 0x00, 0x00, 0x28,
        0x00, 0x00, 0x10, 0x00,
        0x00, 0x00, 0x00, 0x00,
        0x00, 0x03, 0x00, 0x01, 0x00] =
       ret (Inr (new_packet [extension_new (Unknown 0xff) [0x00, 0x01, 0x00]] []))"

definition from_non_conforming_bytes_with_extension_test :: "buf_api \<Rightarrow> bool" where
  "from_non_conforming_bytes_with_extension_test B \<longleftrightarrow>
     is_ok (packet_try_from B
       [push_bit 4 0x02 OR 0x01, 0x01, 0x30, 0x39,
        0x00, 0x03, 0xc4, 0x1a,
        0x00, 0x00, 0x00, 0x28,
        0x00, 0x00, 0x10, 0x00,
        0x00, 0x00, 0x00, 0x00,
        0x00, 0x01, 0xff])"

definition from_malformed_bytes_with_extension_test :: "buf_api \<Rightarrow> bool" where
  "from_malformed_bytes_with_extension_test B \<longleftrightarrow>
     is_err (packet_try_from B
       [push_bit 4 0x02 OR 0x01, 0xff, 0x30, 0x39,
        0x00, 0x03, 0xc4, 0x1a,
        0x00, 0x00, 0x00, 0x28,
        0x00, 0x00, 0x10, 0x00,
        0x00, 0x00, 0x00, 0x00,
        0x00, 0x02, 0xab]) \<and>
     is_err (packet_try_from B
       [push_bit 4 0x02 OR 0x01, 0xff, 0x30, 0x39,
        0x00, 0x03, 0xc4, 0x1a,
        0x00, 0x00, 0x00, 0x28,
        0x00, 0x00, 0x10, 0x00,
        0x00, 0x00, 0x00, 0x00,
        0x02, 0x01, 0x00])"

definition from_bytes_with_data_test :: "buf_api \<Rightarrow> bool" where
  "from_bytes_with_data_test B \<longleftrightarrow>
     packet_try_from B
       [push_bit 4 0x02 OR 0x01, 0x00, 0x30, 0x39,
        0x00, 0x03, 0xc4, 0x1a,
        0x00, 0x00, 0x00, 0x28,
        0x00, 0x00, 0x10, 0x00,
        0x00, 0x00, 0x00, 0x00,
        0x01, 0x02, 0x03, 0x04, 0x05] =
       ret (Inr (new_packet [] [0x01, 0x02, 0x03, 0x04, 0x05]))"

definition from_bytes_with_extension_and_data_test :: "buf_api \<Rightarrow> bool" where
  "from_bytes_with_extension_and_data_test B \<longleftrightarrow>
     packet_try_from B
       [push_bit 4 0x02 OR 0x01, 0x03, 0x30, 0x39,
        0x00, 0x03, 0xc4, 0x1a,
        0x00, 0x00, 0x00, 0x28,
        0x00, 0x00, 0x10, 0x00,
        0x00, 0x00, 0x00, 0x00,
        0x00, 0x04, 0x00, 0x01, 0x00, 0x01,
        0x01, 0x02, 0x03, 0x04, 0x05] =
       ret (Inr (new_packet [extension_new CloseReason [0x00, 0x01, 0x00, 0x01]]
         [0x01, 0x02, 0x03, 0x04, 0x05]))"

section \<open>They pass\<close>

text \<open>The numbers that the test packet and the headers have in common.\<close>

lemma test_numbers:
  "be16 0x3039 = [0x30, 0x39]" "be32 0x3c41a = [0x00, 0x03, 0xc4, 0x1a]"
  "be32 0x28 = [0x00, 0x00, 0x00, 0x28]" "be32 0x1000 = [0x00, 0x00, 0x10, 0x00]"
  "be16 0 = [0, 0]"
  "of_be16 0x30 0x39 = 0x3039" "of_be32 0x00 0x03 0xc4 0x1a = 0x3c41a"
  "of_be32 0x00 0x00 0x00 0x28 = 0x28" "of_be32 0x00 0x00 0x10 0x00 = 0x1000" "of_be16 0 0 = 0"
  by (simp_all add: be16_def be32_def of_be16_def of_be32_def)

lemmas encoder_tests = into_bytes_test_def into_bytes_with_extension_test_def
  into_bytes_with_data_test_def into_bytes_with_extension_and_data_test_def
  multiple_extensions_test_def

lemmas decoder_tests = from_bytes_test_def from_malformed_bytes_test_def
  from_bytes_with_extension_test_def from_bytes_with_unknown_extension_test_def
  from_non_conforming_bytes_with_extension_test_def from_malformed_bytes_with_extension_test_def
  from_bytes_with_data_test_def from_bytes_with_extension_and_data_test_def

context bytes_crate
begin

lemma encoder_tests_pass:
  "into_bytes_test B" "into_bytes_with_extension_test B" "into_bytes_with_data_test B"
  "into_bytes_with_extension_and_data_test B" "multiple_extensions_test B"
  unfolding encoder_tests bytes_from_packet_wire
  by (simp_all add: wire_header_def new_packet_def packet_new_def extension_new_def first_type_def
      packet_type_as_u8_def test_numbers)

lemma decoder_tests_pass:
  "from_bytes_test B" "from_malformed_bytes_test B" "from_bytes_with_extension_test B"
  "from_bytes_with_unknown_extension_test B" "from_non_conforming_bytes_with_extension_test B"
  "from_malformed_bytes_with_extension_test B" "from_bytes_with_data_test B"
  "from_bytes_with_extension_and_data_test B"
  unfolding decoder_tests
  by (simp_all add: packet_try_from_def PACKET_HEADER_LEN_def get_u8 get_u16 get_u32
      packet_type_try_from_def parse_extension_list_def parse_end parse_one parse_missing
      parse_incomplete extension_type_from_u8_def is_err_def is_ok_def new_packet_def test_numbers)

end

text \<open>
  The third input of \<open>from_malformed_bytes_test\<close> is meant to have an invalid version.  The first
  byte \<open>0x02 << 4 | 0xff\<close> also sets the bits of the packet type, so the error is about the type.
\<close>

lemma version_test_input:
  assumes "bytes_crate B"
  shows "packet_try_from B
       [push_bit 4 0x02 OR 0xff, 0x00, 0x30, 0x39,
        0x00, 0x03, 0xc4, 0x1a,
        0x00, 0x00, 0x00, 0x28,
        0x00, 0x00, 0x10, 0x00,
        0x00, 0x00, 0x00, 0x00] = ret (Inl (InvalidPacketType 0x0f))"
  using bytes_crate.get_u8 [OF assms]
  by (simp add: packet_try_from_def PACKET_HEADER_LEN_def packet_type_try_from_def)

section \<open>All tests\<close>

lemma packet_tests_pass:
  assumes "bytes_crate B"
  shows "into_bytes_test B \<and> into_bytes_with_extension_test B \<and> into_bytes_with_data_test B \<and>
    into_bytes_with_extension_and_data_test B \<and> multiple_extensions_test B \<and>
    from_bytes_test B \<and> from_malformed_bytes_test B \<and> from_bytes_with_extension_test B \<and>
    from_bytes_with_unknown_extension_test B \<and> from_non_conforming_bytes_with_extension_test B \<and>
    from_malformed_bytes_with_extension_test B \<and> from_bytes_with_data_test B \<and>
    from_bytes_with_extension_and_data_test B"
  using bytes_crate.encoder_tests_pass [OF assms] bytes_crate.decoder_tests_pass [OF assms] by simp

end
