(* ===== verification/Utp_Socket_Tests.thy ===== *)
theory Utp_Socket_Tests
  imports Utp_Listener
begin

text \<open>
  The helpers of \<open>src/src/test_helper.rs\<close> and the unit tests of \<open>src/src/socket.rs\<close> and
  \<open>src/src/listener.rs\<close> that need no other task to run: a failed \<open>unwrap\<close> is a panic, and the result is
  the conjunction of the assertions.  \<open>localhost\<close> is the address that \<open>"localhost:0"\<close> resolves to.
\<close>

section \<open>Helpers\<close>

definition get_socket ::
  "'w ext \<Rightarrow> socket_addr \<Rightarrow> 'w \<Rightarrow> ((utp_socket \<times> packet_sender \<times> packet_receiver) \<times> 'w) run"
where
  "get_socket E localhost w = (case utp_socket_bind E localhost w of
       (Inr s, w) \<Rightarrow> ret (s, w)
     | (Inl e, w) \<Rightarrow> abort Unwrap)"

definition get_packet :: packet where
  "get_packet = packet_new State 1 2 3 4 5 6 7 [] []"

definition get_listener ::
  "'w ext \<Rightarrow> socket_addr \<Rightarrow> 'w \<Rightarrow> ((utp_listener \<times> packet_sender \<times> packet_receiver) \<times> 'w) run"
where
  "get_listener E localhost w = (case utp_listener_bind E localhost w of
       (Inr l, w) \<Rightarrow> ret (l, w)
     | (Inl e, w) \<Rightarrow> abort Unwrap)"

section \<open>Tests\<close>

definition init_connection_test :: "'w ext \<Rightarrow> socket_addr \<Rightarrow> 'w \<Rightarrow> bool run" where
  "init_connection_test E localhost w =
     run_bind (get_socket E localhost w) (\<lambda>((s, _), w).
       let conn_id = 1; remote_addr = SocketAddrV4 0x7f000002 8080 in
       case insert_connection E s conn_id remote_addr w of
         (Inl _, w) \<Rightarrow> abort Unwrap
       | (Inr receiver, w) \<Rightarrow>
           (case try_recv (inbound E) receiver w of (r1, w) \<Rightarrow>
              ret (r1 = None \<and> isl (fst (insert_connection E s conn_id remote_addr w)))))"

definition register_connection_test :: "'w ext \<Rightarrow> socket_addr \<Rightarrow> 'w \<Rightarrow> bool run" where
  "register_connection_test E localhost w =
     run_bind (get_socket E localhost w) (\<lambda>((s, _), w).
       let addr = SocketAddrV4 0x7f000001 8080 in
       run_bind (register_connection E s addr w) (\<lambda>((id_1, receiver_1), w).
       run_bind (register_connection E s addr w) (\<lambda>((id_2, receiver_2), w).
         case try_recv (inbound E) receiver_1 w of (r1, w) \<Rightarrow>
         case try_recv (inbound E) receiver_2 w of (r2, w) \<Rightarrow>
           (case table_get (table E) (routing_table s) (id_1, addr) w of
              None \<Rightarrow> abort Unwrap
            | Some packet_chan \<Rightarrow>
                (case send (inbound E) packet_chan get_packet w of
                   (False, w) \<Rightarrow> abort Unwrap
                 | (True, w) \<Rightarrow>
                     case try_recv (inbound E) receiver_1 w of (r3, w) \<Rightarrow>
                     case try_recv (inbound E) receiver_2 w of (r4, w) \<Rightarrow>
                       ret (id_1 \<noteq> id_2 \<and> r1 = None \<and> r2 = None \<and> r3 \<noteq> None \<and> r4 = None))))))"

text \<open>The test \<open>local_addr_test\<close> of \<open>src/src/listener.rs\<close>.\<close>

definition listener_local_addr_test :: "'w ext \<Rightarrow> socket_addr \<Rightarrow> 'w \<Rightarrow> bool run" where
  "listener_local_addr_test E localhost w =
     run_bind (get_listener E localhost w) (\<lambda>((l, _), w).
       ret (listener_local_addr l = local_addr (listener_socket l)))"

section \<open>They pass\<close>

context runtime
begin

lemma new_socket_bound:
  assumes "utp_socket_bind E a w = (Inr (s, ps, pr), w')"
  shows "tables (view w') (routing_table s) = Map.empty"
proof -
  obtain h w1 where "utp_socket_try_from E h w1 = (Inr (s, ps, pr), w')"
    using assms by (auto simp: utp_socket_bind_def split: prod.splits sum.splits)
  from new_socket(7) [OF this] show ?thesis by simp
qed

lemma try_recv_empty: "in_q (view w) c = [] \<Longrightarrow> \<exists>w'. try_recv (inbound E) c w = (None, w') \<and> view w' = view w"
  using in_try_recv [of c w] by (cases "try_recv (inbound E) c w") auto

lemma init_connection_test_passes:
  assumes "utp_socket_bind E localhost w = (Inr (s, ps, pr), w1)"
  shows "init_connection_test E localhost w = ret True"
proof -
  let ?k = "(1, SocketAddrV4 0x7f000002 8080)"
  have free: "tables (view w1) (routing_table s) ?k = None" using new_socket_bound [OF assms] by simp
  obtain r w2 where ins: "insert_connection E s 1 (SocketAddrV4 0x7f000002 8080) w1 = (r, w2)" by fastforce
  from insert_connection_spec [OF ins] free obtain c where r: "r = Inr c"
    "view w2 = added_connection (routing_table s) ?k c (view w1)" by auto
  then obtain w3 where rcv: "try_recv (inbound E) c w2 = (None, w3)" "view w3 = view w2"
    using try_recv_empty [of w2 c] by (auto simp: added_connection_def)
  obtain r' w4 where again: "insert_connection E s 1 (SocketAddrV4 0x7f000002 8080) w3 = (r', w4)" by fastforce
  from insert_connection_spec [OF again] rcv(2) r(2) have "isl r'"
    by (auto simp: added_connection_def)
  with assms ins r(1) rcv(1) again show ?thesis
    by (simp add: init_connection_test_def get_socket_def)
qed

text \<open>Two registrations with the same address, on a socket without connections.\<close>

lemma register_twice:
  assumes "tables (view w) (routing_table s) = Map.empty"
    and random: "\<And>w i. \<exists>n. fst (random_u16 E (after_draws E n w)) \<noteq> i"
  obtains i1 c1 w1 i2 c2 w2 where "register_connection E s a w = ret ((i1, c1), w1)"
    "register_connection E s a w1 = ret ((i2, c2), w2)" "i1 \<noteq> i2" "c1 \<noteq> c2"
    "in_q (view w2) c1 = []" "in_q (view w2) c2 = []" "in_rx (view w2) c1"
    "tables (view w2) (routing_table s) (i1, a) = Some c1"
proof -
  from register_returns [of w s 0 a] assms(1) obtain i1 c1 w1 where
    one: "register_connection E s a w = ret ((i1, c1), w1)" by auto
  from register_spec [OF this] have
    v1: "view w1 = added_connection (routing_table s) (i1, a) c1 (view w)" by auto
  obtain n where "fst (random_u16 E (after_draws E n w1)) \<noteq> i1" using random by blast
  with register_returns [of w1 s n a] v1 assms(1) obtain i2 c2 w2 where
    two: "register_connection E s a w1 = ret ((i2, c2), w2)" by (auto simp: added_connection_def)
  from register_spec [OF this] have v2: "tables (view w1) (routing_table s) (i2, a) = None"
    "\<not> in_made (view w1) c2" "view w2 = added_connection (routing_table s) (i2, a) c2 (view w1)" by auto
  then have "i1 \<noteq> i2" "c1 \<noteq> c2" using v1 by (auto simp: added_connection_def)
  then show ?thesis by (intro that [OF one two]) (simp_all add: v1 v2(3) added_connection_def)
qed

lemma register_connection_test_passes:
  assumes "utp_socket_bind E localhost w = (Inr (s, ps, pr), w0)"
    and random: "\<And>w i. \<exists>n. fst (random_u16 E (after_draws E n w)) \<noteq> i"
  shows "register_connection_test E localhost w = ret True"
proof -
  let ?a = "SocketAddrV4 0x7f000001 8080"
  obtain i1 c1 w1 i2 c2 w2 where reg: "register_connection E s ?a w0 = ret ((i1, c1), w1)"
    "register_connection E s ?a w1 = ret ((i2, c2), w2)" and new: "i1 \<noteq> i2" "c1 \<noteq> c2"
    "in_q (view w2) c1 = []" "in_q (view w2) c2 = []" "in_rx (view w2) c1"
    "tables (view w2) (routing_table s) (i1, ?a) = Some c1"
    by (rule register_twice [OF new_socket_bound [OF assms(1)] random])
  obtain w3 where r1: "try_recv (inbound E) c1 w2 = (None, w3)" "view w3 = view w2"
    using try_recv_empty new(3) by blast
  then obtain w4 where r2: "try_recv (inbound E) c2 w3 = (None, w4)" "view w4 = view w2"
    using try_recv_empty [of w3 c2] new(4) by auto
  obtain ok w5 where snd: "send (inbound E) c1 get_packet w4 = (ok, w5)" by fastforce
  from in_send [OF this] r2(2) new have
    v5: "ok" "in_q (view w5) c1 = [get_packet]" "in_q (view w5) c2 = []" by auto
  obtain r3 w6 where r3: "try_recv (inbound E) c1 w5 = (r3, w6)" by fastforce
  with in_try_recv [OF r3] v5 new(2) have v6: "r3 = Some get_packet" "in_q (view w6) c2 = []" by auto
  then obtain w7 where "try_recv (inbound E) c2 w6 = (None, w7)" using try_recv_empty by blast
  with assms(1) reg new r1 r2 snd r3 v5(1) v6(1) get_spec [of "routing_table s" "(i1, ?a)" w4] show ?thesis
    by (simp add: register_connection_test_def get_socket_def)
qed

end

lemma listener_local_addr_test_passes:
  "utp_socket_bind E localhost w = (Inr (s, ps, pr), w') \<Longrightarrow> listener_local_addr_test E localhost w = ret True"
  by (simp add: listener_local_addr_test_def get_listener_def utp_listener_bind_def listener_local_addr_def)

end
