(* ===== verification/Spec2Isabelle.thy ===== *)
theory Spec2Isabelle
  imports Utp_Transfer Utp_System Utp_Packet_Tests Utp_Socket_Tests
begin

text \<open>
  A verification development for \<open>utp-rs\<close>, an implementation of the micro transport protocol
  over UDP.

  \<^bold>\<open>The program.\<close>  A \<open>UtpSocket\<close> owns a UDP socket and two background tasks: the packet sender
  takes packets from an outgoing channel and sends their encodings, the packet receiver decodes
  datagrams and routes each packet by connection id and remote address to the channel of a
  connection, or, when it is a SYN, to the channel of the listeners.  A \<open>UtpListener\<close> turns a SYN
  into a \<open>UtpStream\<close>; \<open>UtpStream::connect\<close> is the other end of the handshake.  A stream cuts
  written data into numbered segments, keeps them until they are acknowledged, and reassembles
  and acknowledges the segments of its peer.

  \<^bold>\<open>The theories,\<close> in the order in which they build on each other:

  \<^item> \<open>Utp_Prelude\<close>: machine integers, panics and divergence, futures, socket addresses, chunks and
    consecutive numbers, and the locales \<open>invariant\<close> and \<open>simulation\<close> for step relations.
  \<^item> \<open>Utp_Error\<close>: \<open>error.rs\<close> and the \<open>io::Error\<close> values the sources build.
  \<^item> \<open>Bytes_Interface\<close>: the operations of the \<open>bytes\<close> crate (record \<open>buf_api\<close>) and their laws (locale
    \<open>bytes_crate\<close>), with an instance on byte lists.
  \<^item> \<open>Utp_Packet\<close>: \<open>packet.rs\<close>, encoder and decoder; the locale \<open>packet_codec\<close> is what the other
    components rely on.  Round trips both ways, totality, error cases, sizes.
  \<^item> \<open>Utp_Packet_Tests\<close>: the unit tests of \<open>packet.rs\<close> as definitions, evaluated on the model.
  \<^item> \<open>Utp_Congestion\<close>: \<open>time.rs\<close> and \<open>congestion.rs\<close>.
  \<^item> \<open>Runtime_Interface\<close>: the operations of \<open>tokio\<close>, \<open>dashmap\<close>, \<open>rand\<close> and the system clock as a
    record \<open>ext\<close> over an arbitrary world, their documented behaviour over an observation of the
    world (locales \<open>inbound_channels\<close>, \<open>outbound_channels\<close>, \<open>routing_tables\<close>, \<open>udp_sockets\<close>,
    \<open>clock_and_random\<close>, joined in \<open>runtime\<close>; \<open>prompt_runtime\<close> excludes spurious wake-ups), and an
    instance that satisfies them, on which the witnesses run.
  \<^item> \<open>Utp_Packet_Sender\<close>, \<open>Utp_Packet_Receiver\<close>: the two tasks of \<open>socket/\<close>.  What they hand on, when a
    poll of them returns, and (locale \<open>refused_packet\<close>) what a packet that cannot be sent does to
    the ones behind it.
  \<^item> \<open>Utp_Socket\<close>: \<open>socket.rs\<close>, creation, registration and insertion of connections, sending.
  \<^item> \<open>Utp_Stream\<close>: the definitions of \<open>stream.rs\<close>.
  \<^item> \<open>Utp_Stream_Receive\<close>, \<open>Utp_Stream_Reading\<close>: its receiving side.  The polling loops refine a
    fold over the packets they take; on top of it reassembly, delivery, and the cases in which
    data is not delivered.
  \<^item> \<open>Utp_Stream_Send\<close>: its sending side, the window, acknowledgements, flush and shutdown.
  \<^item> \<open>Utp_Listener\<close>: \<open>listener.rs\<close> and the handshake.
  \<^item> \<open>Utp_Socket_Tests\<close>: the test helpers and the unit tests of \<open>socket.rs\<close> and \<open>listener.rs\<close> that need
    no other task, evaluated on the model.
  \<^item> \<open>Utp_Session\<close>: a stream in use, as a step relation, its invariant (locale \<open>session\<close>), and what a
    lost segment means for it.
  \<^item> \<open>Utp_Network\<close>: two streams and an unreliable network between them as a labelled step relation;
    each step is a step of an abstract byte pipe with the same label (\<open>simulation\<close>), where the labels
    are what the owners of the streams see, and a completed flush means that the peer has the data.
  \<^item> \<open>Utp_System\<close>: two streams, the sender and receiver tasks of their sockets, and the datagrams
    between them as a step relation (\<open>sys_step\<close>), in which other connections use the same sockets
    and channels and anything may arrive from other addresses (\<open>outside\<close>).  Each step is a step
    of \<open>Utp_Network\<close> with the same label (\<open>simulation\<close> again), and so a step of the byte pipe.
  \<^item> \<open>Utp_Transfer\<close> and this theory: the way of data from a write to a read through both sockets, and
    of the acknowledgement from the read back to a flush.

  \<^bold>\<open>How code is modelled.\<close>  A struct is a record, an enum a datatype, a \<open>u16\<close> a \<open>16 word\<close>, a
  \<open>HashMap\<close> a map, \<open>VecDeque\<close> and \<open>Vec\<close> lists, \<open>Bytes\<close> and \<open>BytesMut\<close> byte lists.  An operation takes
  its state and the world and returns both.  \<open>io::Result\<close> and parse results are sums, \<open>Poll\<close> is a
  datatype, a panic (\<open>todo!()\<close>, \<open>unwrap\<close>) is the outcome \<open>Panic\<close>, and a call that does not return is
  \<open>None\<close>: loops whose end depends on the world are partial functions into \<open>option\<close>, and that they
  return is proved where they do.  The loop over the extensions of the decoder is such a partial
  function, too, and a theorem shows that it always returns; the loops of the encoder, of the chunks
  and of reassembly are total functions.  No fuel is used.  Calls into other crates go through the records \<open>buf_api\<close> and
  \<open>ext\<close>; theorems about them assume the locale that states the documented behaviour.  An
  \<open>await\<close> is an operation of the world whose result is only known when it can complete at once.
  A function that the code splits by an \<open>await\<close> is split there.

  \<^bold>\<open>Not modelled:\<close> log output and \<open>Display\<close> and \<open>Debug\<close> texts, which have no effect on the state;
  the wake-up registrations of futures; \<open>lib.rs\<close>, which declares modules and holds tests that
  depend on how the executor schedules their tasks, as do the tests of \<open>socket.rs\<close> and \<open>listener.rs\<close>
  in which tasks run; the tests of binding and converting sockets and of \<open>UtpSocket::local_addr\<close>,
  which are about the operating system; the accessors of the records, which are their fields.
  Dropping a stream has no counterpart.  The arguments of \<open>trace!\<close> in \<open>UtpSocket::bind\<close> are taken as
  not evaluated.
\<close>

section \<open>Properties across components\<close>

text \<open>
  C2. Data written on one side of a fresh connection arrives on the other: when up to 128
  segments are written, the sender task hands them all to its UDP socket, the network delivers each datagram at
  least once (in any order, with any repetition), and the receiver task takes what has arrived,
  then the next read gets the written bytes, as many as fit its buffer, and the rest is
  waiting; the reader has acknowledged the last segment.
\<close>

theorem transfer_end_to_end:
  assumes rt: "prompt_runtime E view" and alive: "\<And>h w. alive E h w"
    and step: "in_step stA stB"
    and written: "out_rx (view w0) (stream_out stA)" "out_q (view w0) (stream_out stA) = []"
      "length b \<le> 128 * MAX_DATA_SEGMENT_SIZE" "poll_write E stA b w0 = ret (r1, stA', w1)"
    and sending: "outgoing_rx ps = stream_out stA" "outgoing_buffer ps = []"
      "sent (view w1) (ps_socket ps) = []" "packet_sender_poll E ps w1 = ret (r2, ps', w2)"
      "outgoing_buffer ps' = []" "out_q (view w2) (outgoing_rx ps) = []"
    and net: "set (arrived (view w3) (pr_socket pr)) = (\<lambda>(d, _). (d, a)) ` set (sent (view w2) (ps_socket ps))"
    and receiving: "table_inv (view w3)"
      "tables (view w3) (pr_routing_table pr) (connection_id_recv stB, a) = Some (inbound_packets stB)"
      "in_rx (view w3) (inbound_packets stB)" "out_rx (view w3) (syn_tx pr)"
      "in_q (view w3) (inbound_packets stB) = []"
      "packet_receiver_poll E pr w3 = ret (r3, w4)" "arrived (view w4) (pr_socket pr) = []"
    and open_read: "in_tx (view w4) (inbound_packets stB)" "out_rx (view w4) (stream_out stB)"
  shows "\<exists>r stB' w5. poll_read E stB n w4 = ret (r, stB', w5) \<and> bytes_read r = take n b \<and>
    bytes_read r @ received_data stB' = b \<and> stream_ack stB' + 1 = stream_seq stA'"
proof -
  let ?cs = "chunks MAX_DATA_SEGMENT_SIZE b" and ?s = "stream_seq stA"
  have runtime: "runtime E view" using rt by (simp add: prompt_runtime_def)
  have pos: "MAX_DATA_SEGMENT_SIZE \<noteq> 0" using segment_size
    by (simp add: MAX_DATAGRAM_SIZE_def PACKET_HEADER_LEN_def)
  obtain pkts where len: "length pkts = length ?cs"
    and out: "out_q (view w1) (stream_out stA) = out_q (view w0) (stream_out stA) @
      map (\<lambda>p. (p, remote_addr stA)) pkts"
    and seq: "stream_seq stA' = ?s + of_nat (length ?cs)"
    and pkts: "\<And>p. p \<in> set pkts \<Longrightarrow> genuine ?s ?cs p \<and> packet_type p = Data \<and>
      connection_id p = connection_id_recv stB \<and>
      decode_datagram (buf E) (bytes_from_packet (buf E) p) = Some p"
    and nth: "\<And>i. i < length ?cs \<Longrightarrow> seq_number (pkts ! i) = ?s + of_nat i"
    by (rule write_leg [OF runtime step written(1,4)]) blast
  have "sent (view w2) (ps_socket ps) = datagrams (buf E) (map (\<lambda>p. (p, remote_addr stA)) pkts)"
    using sender_leg [OF runtime sending(4-6)] sending(1-3) out written(2) by simp
  with net have "set (arrived (view w3) (pr_socket pr)) = (\<lambda>p. (bytes_from_packet (buf E) p, a)) ` set pkts"
    by (force simp: datagrams_def)
  from receiver_leg [OF runtime alive receiving this] pkts
  have q: "set (in_q (view w4) (inbound_packets stB)) = set pkts" by auto
  have "\<exists>r st' w' micros. poll_read E stB n w4 = ret (r, st', w') \<and>
    stream_ack st' + 1 = ?s + of_nat (length ?cs) \<and>
    bytes_read r = take n (drop (length ([] :: bytes)) (concat ?cs)) \<and>
    [] @ bytes_read r @ received_data st' = concat ?cs \<and>
    out_q (view w') (stream_out stB) = out_q (view w4) (stream_out stB) @
      [(stream_packet st' State micros (stream_seq st') [], remote_addr stB)]"
  proof (rule prompt_runtime.poll_read_completes [OF rt, where k = 0])
    have "length ?cs \<le> 128" using length_chunks [OF pos written(3)] .
    then show "length ?cs < 2 ^ 16" "length ?cs \<le> 0 + 128" by simp_all
    show "\<exists>p\<in>set (in_q (view w4) (inbound_packets stB)). packet_type p = Data \<and>
        seq_number p = ?s + of_nat i" if "i < length ?cs" for i
      using that nth [OF that] pkts [of "pkts ! i"] len unfolding q by (intro bexI [of _ "pkts ! i"]) simp_all
  qed (use open_read q pkts in_step_inv [OF step] in auto)
  then show ?thesis unfolding concat_chunks [OF pos] seq by auto
qed

text \<open>
  C7. Once the peer has everything, a flush completes: when a read on the other side finds all
  that was written in order, the acknowledgement it queues is handed over by the sender task,
  the network delivers that datagram at least once, and the receiver task takes what has arrived,
  then the next flush completes and nothing is in flight, as long as the numbers in flight do not
  wrap.
\<close>

theorem flush_end_to_end:
  assumes rt: "prompt_runtime E view" and alive: "\<And>h w. alive E h w"
    and flight: "tx_inv stA" "\<not> is_shutdown stA" "length (unacked_data stA) < 65535"
      "unat (window_start stA) + length (unacked_data stA) \<le> 65536"
    and reading: "connection_id_send stB = connection_id_recv stA"
      "in_tx (view w0) (inbound_packets stB)" "out_rx (view w0) (stream_out stB)"
      "out_q (view w0) (stream_out stB) = []" "poll_read E stB n w0 = ret (r1, stB', w1)"
      "stream_ack stB' + 1 = stream_seq stA"
    and sending: "outgoing_rx ps = stream_out stB" "outgoing_buffer ps = []"
      "sent (view w1) (ps_socket ps) = []" "packet_sender_poll E ps w1 = ret (r2, ps', w2)"
      "outgoing_buffer ps' = []" "out_q (view w2) (outgoing_rx ps) = []"
    and net: "set (arrived (view w3) (pr_socket pr)) = (\<lambda>(d, _). (d, a)) ` set (sent (view w2) (ps_socket ps))"
    and receiving: "table_inv (view w3)"
      "tables (view w3) (pr_routing_table pr) (connection_id_recv stA, a) = Some (inbound_packets stA)"
      "in_rx (view w3) (inbound_packets stA)" "out_rx (view w3) (syn_tx pr)"
      "in_q (view w3) (inbound_packets stA) = []"
      "packet_receiver_poll E pr w3 = ret (r3, w4)" "arrived (view w4) (pr_socket pr) = []"
    and open_: "in_tx (view w4) (inbound_packets stA)"
  shows "\<exists>stA' w5. poll_flush E stA w4 = ret (Ready (Inr ()), stA', w5) \<and> unacked_data stA' = []"
proof -
  have runtime: "runtime E view" using rt by (simp add: prompt_runtime_def)
  then have B: "bytes_crate (buf E)" by (simp add: runtime_def)
  obtain t where out: "out_q (view w1) (stream_out stB) = out_q (view w0) (stream_out stB) @
      [(stream_packet stB' State t (stream_seq stB') [], remote_addr stB)]"
    and id: "connection_id_send stB' = connection_id_send stB"
    by (rule read_leg [OF runtime reading(2,3,5)])
  define ack where "ack = stream_packet stB' State t (stream_seq stB') []"
  have dec: "decode_datagram (buf E) (bytes_from_packet (buf E) ack) = Some ack"
    unfolding ack_def by (rule segment_decodes(2) [OF B]) simp_all
  have fields: "packet_type ack = State" "connection_id ack = connection_id_recv stA"
    "ack_number ack + 1 = stream_seq stA"
    using id reading(1,6) by (simp_all add: ack_def packet_new_def)
  have "sent (view w2) (ps_socket ps) = datagrams (buf E) [(ack, remote_addr stB)]"
    using sender_leg [OF runtime sending(4-6)] sending(1-3) out reading(4) by (simp add: ack_def)
  with net have arr: "set (arrived (view w3) (pr_socket pr)) = (\<lambda>p. (bytes_from_packet (buf E) p, a)) ` set [ack]"
    by (simp add: datagrams_def)
  have q: "set (in_q (view w4) (inbound_packets stA)) = set [ack]"
    by (rule receiver_leg [OF runtime alive receiving arr]) (use dec fields in simp_all)
  then have "in_q (view w4) (inbound_packets stA) \<noteq> []" by auto
  then show ?thesis
    by (rule flush_leg [OF rt open_ flight(2) _ _ flight(1,3,4)]) (use q fields in simp)
qed

section \<open>Example\<close>

text \<open>
  Two sockets in one world; the peer of \<open>example_stream\<close> writes three bytes, and the network
  delivers the datagram twice.
\<close>

definition example_net_world :: sim where
  "example_net_world = sim_init\<lparr>tables := (\<lambda>_. Map.empty)(3 := [(7, SocketAddrV4 0 2) \<mapsto> 5])\<rparr>"

definition example_datum :: packet where
  "example_datum = packet_new Data 1 7 1000 0 0 101 1 [] [1, 2, 3]"

abbreviation example_datagram :: bytes where
  "example_datagram \<equiv> bytes_from_packet list_buf example_datum"

definition example_written_world :: sim where
  "example_written_world = example_net_world\<lparr>sim_clock := 1001,
     out_q := (\<lambda>_. [])(12 := [(example_datum, SocketAddrV4 0 1)])\<rparr>"

definition example_sent_world :: sim where
  "example_sent_world = example_net_world\<lparr>sim_clock := 1001, out_q := (\<lambda>_. []),
     sent := (\<lambda>_. [])(11 := [(example_datagram, SocketAddrV4 0 1)])\<rparr>"

definition example_arrived_world :: sim where
  "example_arrived_world = example_sent_world\<lparr>
     arrived := (\<lambda>_. [])(1 := replicate 2 (example_datagram, SocketAddrV4 0 2))\<rparr>"

definition example_routed_world :: sim where
  "example_routed_world = example_sent_world\<lparr>arrived := (\<lambda>_. []),
     in_q := (\<lambda>_. [])(5 := [example_datum, example_datum])\<rparr>"

lemmas world_examples [example_eval] = example_net_world_def example_written_world_def
  example_sent_world_def example_arrived_world_def example_routed_world_def example_datum_def

lemma example_write:
  "poll_write sim_env example_remote [1, 2, 3] example_net_world =
     ret (Ready (Inr 3), after_write example_remote [[1, 2, 3]], example_written_world)"
proof -
  have "chunks MAX_DATA_SEGMENT_SIZE [1, 2, 3 :: u8] = [[1, 2, 3]]"
    by (simp add: chunks_step MAX_DATA_SEGMENT_SIZE_def MAX_DATAGRAM_SIZE_def PACKET_HEADER_LEN_def)
  then show ?thesis
    by (simp add: poll_write_def send_data_def send_packet_def send_to_def sim_eval
        current_micros_eq after_write_def example_eval utp_stream_new_def packet_new_def)
qed

definition example_remote_sender :: packet_sender where
  "example_remote_sender = spawn_sender example_remote_socket 12"

lemma example_send:
  "packet_sender_poll sim_env example_remote_sender example_written_world =
     ret (Pending, example_remote_sender, example_sent_world)"
  by (simp add: packet_sender_poll_def example_remote_sender_def spawn_sender_def
      fetch_outgoing.simps send_outgoing.simps sim_eval example_eval)

lemma example_decode:
  "packet_try_from list_buf (take MAX_DATAGRAM_SIZE example_datagram) = ret (Inr example_datum)"
proof -
  have "length example_datagram = 23"
    by (simp add: lbuf.encoded_size packet_length_def example_eval packet_new_def PACKET_HEADER_LEN_def)
  moreover have "wf_packet example_datum" by (simp add: wf_packet_def example_eval packet_new_def)
  ultimately show ?thesis using lbuf.roundtrip by (simp add: MAX_DATAGRAM_SIZE_def)
qed

definition example_local_receiver :: packet_receiver where
  "example_local_receiver = spawn_receiver example_socket 4"

lemma example_receive:
  "packet_receiver_poll sim_env example_local_receiver example_arrived_world =
     ret (Pending, example_routed_world)"
  using example_decode
  by (simp add: packet_receiver_poll_def example_local_receiver_def spawn_receiver_def
      receive_loop.simps route_packet_def sim_eval example_eval numeral_2_eq_2 packet_new_def)

theorem transfer_end_to_end_witness:
  "\<exists>r st' w'. poll_read sim_env example_stream 2 example_routed_world = ret (r, st', w') \<and>
     bytes_read r = [1, 2] \<and> received_data st' = [3]"
proof -
  have step: "in_step example_remote example_stream"
    by (simp add: in_step_def example_eval example_stream_def utp_stream_new_def)
  have inv: "table_inv (sim_view example_arrived_world)"
    by (auto simp: table_inv_def example_eval split: if_splits)
  have "\<exists>r st' w'. poll_read sim_env example_stream 2 example_routed_world = ret (r, st', w') \<and>
     bytes_read r = take 2 [1, 2, 3] \<and> bytes_read r @ received_data st' = [1, 2, 3] \<and>
     stream_ack st' + 1 = stream_seq (after_write example_remote [[1, 2, 3]])"
  proof (rule transfer_end_to_end [OF sim_rt.prompt_runtime_axioms _ step _ _ _ example_write
        _ _ _ example_send _ _ _ inv _ _ _ _ example_receive])
    show "length [1, 2, 3 :: u8] \<le> 128 * MAX_DATA_SEGMENT_SIZE"
      by (simp add: MAX_DATA_SEGMENT_SIZE_def MAX_DATAGRAM_SIZE_def PACKET_HEADER_LEN_def)
  qed (simp_all add: example_eval utp_stream_new_def example_remote_sender_def spawn_sender_def
      example_local_receiver_def spawn_receiver_def example_stream_def)
  then show ?thesis by (auto simp: numeral_2_eq_2)
qed

text \<open>
  The peer of \<open>example_writer\<close> has its three bytes in order and reads; the acknowledgement arrives
  twice.
\<close>

definition example_reader :: utp_stream where
  "example_reader = example_remote\<lparr>stream_ack := 2\<rparr>"

definition example_acked :: packet where
  "example_acked = packet_new State 1 7 1000 0 0 101 2 [] []"

abbreviation example_ack_datagram :: bytes where
  "example_ack_datagram \<equiv> bytes_from_packet list_buf example_acked"

definition example_ack_worlds :: "nat \<Rightarrow> sim" where
  "example_ack_worlds i = example_net_world\<lparr>sim_clock := 1001,
     out_q := if i = 1 then (\<lambda>_. [])(12 := [(example_acked, SocketAddrV4 0 1)]) else (\<lambda>_. []),
     sent := if i = 1 then (\<lambda>_. []) else (\<lambda>_. [])(11 := [(example_ack_datagram, SocketAddrV4 0 1)]),
     arrived := if i = 3 then (\<lambda>_. [])(1 := replicate 2 (example_ack_datagram, SocketAddrV4 0 2)) else (\<lambda>_. []),
     in_q := if i = 4 then (\<lambda>_. [])(5 := [example_acked, example_acked]) else (\<lambda>_. [])\<rparr>"

lemmas ack_examples [example_eval] = example_reader_def example_acked_def example_ack_worlds_def

lemma example_acks:
  "poll_read sim_env example_reader 2 example_net_world =
     ret (Pending, example_reader, example_ack_worlds 1)"
  by (simp add: poll_read_def process_packets_step assemble.simps send_ack_def send_packet_def send_to_def
      sim_eval current_micros_eq example_eval utp_stream_new_def packet_new_def)

lemma example_ack_send:
  "packet_sender_poll sim_env example_remote_sender (example_ack_worlds 1) =
     ret (Pending, example_remote_sender, example_ack_worlds 2)"
  by (simp add: packet_sender_poll_def example_remote_sender_def spawn_sender_def
      fetch_outgoing.simps send_outgoing.simps sim_eval example_eval)

lemma example_ack_decode:
  "packet_try_from list_buf (take MAX_DATAGRAM_SIZE example_ack_datagram) = ret (Inr example_acked)"
proof -
  have "length example_ack_datagram = 20"
    by (simp add: lbuf.encoded_size packet_length_def example_eval packet_new_def PACKET_HEADER_LEN_def)
  moreover have "wf_packet example_acked" by (simp add: wf_packet_def example_eval packet_new_def)
  ultimately show ?thesis using lbuf.roundtrip by (simp add: MAX_DATAGRAM_SIZE_def)
qed

lemma example_ack_receive:
  "packet_receiver_poll sim_env example_local_receiver (example_ack_worlds 3) =
     ret (Pending, example_ack_worlds 4)"
  using example_ack_decode
  by (simp add: packet_receiver_poll_def example_local_receiver_def spawn_receiver_def
      receive_loop.simps route_packet_def sim_eval example_eval numeral_2_eq_2 packet_new_def)

theorem flush_end_to_end_witness:
  "\<exists>st' w'. unacked_data example_writer = [(2, [1, 2, 3])] \<and>
     poll_flush sim_env example_writer (example_ack_worlds 4) = ret (Ready (Inr ()), st', w') \<and>
     unacked_data st' = []"
proof -
  have writer: "unacked_data example_writer = [(2, [1, 2, 3])]" "stream_seq example_writer = 3"
    "inbound_packets example_writer = 5" "connection_id_recv example_writer = 7"
    "\<not> is_shutdown example_writer"
    by (simp_all add: example_writer_def after_write_def example_stream_def utp_stream_new_def)
  have inv: "table_inv (sim_view (example_ack_worlds 3))"
    by (auto simp: table_inv_def example_eval split: if_splits)
  have "\<exists>st' w'. poll_flush sim_env example_writer (example_ack_worlds 4) = ret (Ready (Inr ()), st', w') \<and>
     unacked_data st' = []"
    by (rule flush_end_to_end [OF sim_rt.prompt_runtime_axioms _ _ _ _ _ _ _ _ _ example_acks
          _ _ _ _ example_ack_send _ _ _ inv _ _ _ _ example_ack_receive])
      (simp_all add: writer tx_inv_def window_start_def example_eval utp_stream_new_def
        example_remote_sender_def spawn_sender_def example_local_receiver_def spawn_receiver_def)
  with writer(1) show ?thesis by blast
qed

end
